(* ===== verification/Prelude.thy ===== *)
theory Prelude
  imports
    Main
    "HOL-Library.Word"
    "HOL-Library.Monad_Syntax"
begin

text \<open>
  The vocabulary shared by every component of the development: names for the machine
  integers of \<^verbatim>\<open>include/infos/define.h\<close>, the ways an operation of the kernel can fail to
  return normally, and generic lemmas on options, lists and words.

  A C++ operation that can stop the kernel (an \<^verbatim>\<open>assert\<close> that fails, a dereference of
  \<^verbatim>\<open>NULL\<close>, an array access out of range, a call of \<^verbatim>\<open>arch_abort\<close>) is modelled with a
  result of type \<open>'a option\<close> where the reason is clear from the operation, and with
  \<open>fault + 'a\<close> where the reason matters.
\<close>

unbundle bit_operations_syntax

type_synonym u8 = "8 word"
type_synonym u16 = "16 word"
type_synonym u32 = "32 word"
type_synonym u64 = "64 word"

datatype fault =
    Assertion_failure    \<comment> \<open>\<^verbatim>\<open>assert\<close> failed: the kernel halts\<close>
  | Null_dereference     \<comment> \<open>an access through \<^verbatim>\<open>NULL\<close>\<close>
  | Out_of_bounds        \<comment> \<open>an access outside an array: undefined behaviour\<close>
  | Never_returns        \<comment> \<open>the caller spins forever\<close>
  | Wrong_class          \<comment> \<open>an object is used as one of another class: undefined behaviour\<close>

type_synonym 'a outcome = "fault + 'a"

text \<open>Collections the component theories add to and the proofs of their clients use.\<close>

named_theorems heap_frame \<open>frame rules: an update elsewhere leaves a heap predicate alone\<close>
named_theorems infos_inv \<open>an operation keeps the invariant of its component\<close>

subsection \<open>Options\<close>

lemma bind_eq_Some_iff: "Option.bind m f = Some y \<longleftrightarrow> (\<exists>x. m = Some x \<and> f x = Some y)"
  by (cases m) auto

text \<open>\<open>guard b\<close> is \<^verbatim>\<open>assert(b)\<close> in the option monad.\<close>

definition guard :: "bool \<Rightarrow> unit option" where
  "guard b = (if b then Some () else None)"

lemma guard_simps [simp]: "guard True = Some ()" "guard False = None"
  by (simp_all add: guard_def)

lemma guard_eq_Some [simp]: "guard b = Some u \<longleftrightarrow> b"
  by (simp add: guard_def)

subsection \<open>Outcomes\<close>

text \<open>One operation after the other; a fault of the first ends both.\<close>

definition andthen :: "'a outcome \<Rightarrow> ('a \<Rightarrow> 'b outcome) \<Rightarrow> 'b outcome" where
  "andthen m f = (case m of Inl e \<Rightarrow> Inl e | Inr x \<Rightarrow> f x)"

lemma andthen_simps [simp]: "andthen (Inl e) f = Inl e" "andthen (Inr x) f = f x"
  by (simp_all add: andthen_def)

lemma andthen_eq_Inr: "andthen m f = Inr y \<longleftrightarrow> (\<exists>x. m = Inr x \<and> f x = Inr y)"
  by (cases m) auto

text \<open>Whatever a computation returns satisfies a predicate; a fault returns nothing.\<close>

definition ensures :: "('a \<Rightarrow> bool) \<Rightarrow> 'a outcome \<Rightarrow> bool" where
  "ensures Q m \<longleftrightarrow> (\<forall>x. m = Inr x \<longrightarrow> Q x)"

lemma ensures_simps [simp]:
  "ensures Q (Inl flt)" "ensures Q (Inr x) \<longleftrightarrow> Q x"
  "ensures Q (andthen m f) \<longleftrightarrow> ensures (\<lambda>x. ensures Q (f x)) m"
  "ensures Q (case m of Inl e \<Rightarrow> Inl e | Inr x \<Rightarrow> g x) \<longleftrightarrow> ensures (\<lambda>x. ensures Q (g x)) m"
  "ensures Q (map_sum id h m) \<longleftrightarrow> ensures (\<lambda>x. Q (h x)) m"
  by (cases m; simp add: ensures_def)+

lemma ensures_weaken: "ensures R m \<Longrightarrow> (\<And>x. R x \<Longrightarrow> Q x) \<Longrightarrow> ensures Q m"
  by (auto simp: ensures_def)

subsection \<open>Lists\<close>

lemma list_update_append_mid [simp]: "(xs @ y # ys)[length xs := z] = xs @ z # ys"
  by (induction xs) auto

lemma map_nth_upt: "n \<le> length xs \<Longrightarrow> map ((!) xs) [0..<n] = take n xs"
  by (simp add: list_eq_iff_nth_eq)

subsection \<open>Words\<close>

lemma word_le_unat: "(a::'a::len word) \<le> b \<longleftrightarrow> unat a \<le> unat b"
  by (rule word_le_nat_alt)

lemma word_less_unat: "(a::'a::len word) < b \<longleftrightarrow> unat a < unat b"
  by (rule word_less_nat_alt)

lemma unat_add_small:
  "unat a + unat b < 2 ^ LENGTH('a) \<Longrightarrow> unat ((a::'a::len word) + b) = unat a + unat b"
  by (simp add: unat_word_ariths)

subsection \<open>Runs of operations and forward simulation\<close>

text \<open>
  A component is a function from an operation and a state to a result and a next state, or
  \<open>None\<close> when the operation stops the kernel. \<open>run_ops\<close> performs a sequence of operations and
  collects their results; \<open>ops_ok\<close> says that every operation of a run meets its precondition
  in the state in which it is performed.
\<close>

fun run_ops :: "('op \<Rightarrow> 's \<Rightarrow> ('r \<times> 's) option) \<Rightarrow> 'op list \<Rightarrow> 's \<Rightarrow> ('r list \<times> 's) option" where
  "run_ops step [] s = Some ([], s)"
| "run_ops step (op # ops) s = do {
     (r, s) \<leftarrow> step op s;
     (rs, s) \<leftarrow> run_ops step ops s;
     Some (r # rs, s) }"

fun ops_ok :: "('op \<Rightarrow> 's \<Rightarrow> bool) \<Rightarrow> ('op \<Rightarrow> 's \<Rightarrow> ('r \<times> 's) option) \<Rightarrow> 'op list \<Rightarrow> 's \<Rightarrow> bool" where
  "ops_ok ok step [] s \<longleftrightarrow> True"
| "ops_ok ok step (op # ops) s \<longleftrightarrow>
     ok op s \<and> (case step op s of None \<Rightarrow> True | Some (r, s') \<Rightarrow> ops_ok ok step ops s')"

text \<open>
  The detailed component \<open>conc\<close> implements the abstract one \<open>abst\<close>: in related states an operation
  fails in both or gives the same result in both and leads to related states.
\<close>

locale simulation =
  fixes rep :: "'s \<Rightarrow> 't \<Rightarrow> bool"
    and ok :: "'op \<Rightarrow> 's \<Rightarrow> bool"
    and conc :: "'op \<Rightarrow> 's \<Rightarrow> ('r \<times> 's) option"
    and abst :: "'op \<Rightarrow> 't \<Rightarrow> ('r \<times> 't) option"
  assumes step: "rep s t \<Longrightarrow> ok op s \<Longrightarrow> rel_option (rel_prod (=) rep) (conc op s) (abst op t)"
begin

lemma runs:
  assumes "rep s t" "ops_ok ok conc ops s"
  shows "rel_option (rel_prod (=) rep) (run_ops conc ops s) (run_ops abst ops t)"
  using assms
proof (induction ops arbitrary: s t)
  case (Cons op ops)
  then have "rel_option (rel_prod (=) rep) (conc op s) (abst op t)" by (simp add: step)
  then show ?case
  proof (cases rule: option.rel_cases)
    case (Some x y)
    then obtain r s' t' where xy: "x = (r, s')" "y = (r, t')" "rep s' t'"
      by (cases x; cases y) auto
    then have "rel_option (rel_prod (=) rep) (run_ops conc ops s') (run_ops abst ops t')"
      using Cons.IH [of s' t'] Cons.prems(2) Some by simp
    then show ?thesis
      using Some xy by (cases rule: option.rel_cases) auto
  qed simp
qed simp

lemma runs_Some:
  assumes "rep s t" "ops_ok ok conc ops s" "run_ops abst ops t = Some (rs, t')"
  shows "\<exists>s'. run_ops conc ops s = Some (rs, s') \<and> rep s' t'"
  using runs [OF assms(1,2)] assms(3) by (auto simp: option_rel_Some2)

end

end
