(* ===== verification/Util_List.thy ===== *)
theory Util_List
  imports Prelude
begin

text \<open>
  The singly linked list of \<^verbatim>\<open>include/infos/util/list.h\<close>, at the level of its nodes: a heap of
  \<^verbatim>\<open>ListNode\<close>s, the head pointer \<^verbatim>\<open>_elems\<close> and the 32-bit counter \<^verbatim>\<open>_count\<close>. The pointer loops
  are partial functions on the heap; the lemmas show that on a well-formed list every one of
  them returns, and that the operations refine the operations of HOL lists. The locale
  \<open>list_adt\<close> is the contract the rest of the kernel relies on; it is interpreted on this model.

  Addresses are natural numbers, 0 is \<^verbatim>\<open>NULL\<close>. The address that \<^verbatim>\<open>operator new\<close> returns is an
  argument of the operations that allocate. The result \<open>None\<close> is a failed assertion or an access
  through a pointer that is not a live node.
\<close>

type_synonym ptr = nat

record 'a list_node =
  Next :: ptr
  Data :: 'a

record 'a cpp_list =
  lheap :: "ptr \<rightharpoonup> 'a list_node"
  elems :: ptr
  cnt :: u32

text \<open>A \<^verbatim>\<open>Node **slot\<close>: the head pointer of the list or the \<^verbatim>\<open>Next\<close> field of a node.\<close>

datatype slot = Head | NextOf ptr

definition load :: "(ptr \<rightharpoonup> 'n) \<Rightarrow> ptr \<Rightarrow> 'n option" where
  "load h p = (if p = 0 then None else h p)"

fun slot_get :: "'a cpp_list \<Rightarrow> slot \<Rightarrow> ptr option" where
  "slot_get s Head = Some (elems s)"
| "slot_get s (NextOf p) = map_option Next (load (lheap s) p)"

fun slot_set :: "slot \<Rightarrow> ptr \<Rightarrow> 'a cpp_list \<Rightarrow> 'a cpp_list option" where
  "slot_set Head v s = Some (s\<lparr>elems := v\<rparr>)"
| "slot_set (NextOf p) v s = do {
     n \<leftarrow> load (lheap s) p;
     Some (s\<lparr>lheap := (lheap s)(p \<mapsto> n\<lparr>Next := v\<rparr>)\<rparr>) }"

text \<open>The loop \<^verbatim>\<open>while (*slot && !stop((*slot)->Data)) slot = &(*slot)->Next;\<close>\<close>

partial_function (option) slot_walk ::
  "('a \<Rightarrow> bool) \<Rightarrow> 'a cpp_list \<Rightarrow> slot \<Rightarrow> slot option" where
  "slot_walk stop s slot = do {
     p \<leftarrow> slot_get s slot;
     if p = 0 then Some slot
     else do {
       n \<leftarrow> load (lheap s) p;
       if stop (Data n) then Some slot else slot_walk stop s (NextOf p) } }"

definition list_init :: "(ptr \<rightharpoonup> 'a list_node) \<Rightarrow> 'a cpp_list" where
  "list_init h = \<lparr>lheap = h, elems = 0, cnt = 0\<rparr>"

definition new_node :: "ptr \<Rightarrow> ptr \<Rightarrow> 'a \<Rightarrow> 'a cpp_list \<Rightarrow> 'a cpp_list option" where
  "new_node n nxt e s = do {
     guard (n \<noteq> 0);
     Some (s\<lparr>lheap := (lheap s)(n \<mapsto> \<lparr>Next = nxt, Data = e\<rparr>)\<rparr>) }"

definition delete_node :: "ptr \<Rightarrow> 'a cpp_list \<Rightarrow> 'a cpp_list" where
  "delete_node n s = s\<lparr>lheap := (lheap s)(n := None)\<rparr>"

definition list_append :: "ptr \<Rightarrow> 'a \<Rightarrow> 'a cpp_list \<Rightarrow> 'a cpp_list option" where
  "list_append new e s = do {
     slot \<leftarrow> slot_walk (\<lambda>_. False) s Head;
     s \<leftarrow> slot_set slot new s;
     s \<leftarrow> new_node new 0 e s;
     Some (s\<lparr>cnt := cnt s + 1\<rparr>) }"

definition list_remove :: "'a \<Rightarrow> 'a cpp_list \<Rightarrow> 'a cpp_list option" where
  "list_remove e s = do {
     slot \<leftarrow> slot_walk (\<lambda>d. d = e) s Head;
     candidate \<leftarrow> slot_get s slot;
     if candidate = 0 then Some s
     else do {
       n \<leftarrow> load (lheap s) candidate;
       guard (Data n = e);
       s \<leftarrow> slot_set slot (Next n) s;
       Some ((delete_node candidate s)\<lparr>cnt := cnt s - 1\<rparr>) } }"

definition list_dequeue :: "'a cpp_list \<Rightarrow> ('a \<times> 'a cpp_list) option" where
  "list_dequeue s = do {
     front \<leftarrow> load (lheap s) (elems s);
     Some (Data front,
       (delete_node (elems s) s)\<lparr>elems := Next front, cnt := cnt s - 1\<rparr>) }"

definition list_enqueue :: "ptr \<Rightarrow> 'a \<Rightarrow> 'a cpp_list \<Rightarrow> 'a cpp_list option" where
  "list_enqueue new e s = list_append new e s"

definition list_push :: "ptr \<Rightarrow> 'a \<Rightarrow> 'a cpp_list \<Rightarrow> 'a cpp_list option" where
  "list_push new e s = do {
     s \<leftarrow> new_node new (elems s) e s;
     Some (s\<lparr>elems := new, cnt := cnt s + 1\<rparr>) }"

definition list_pop :: "'a cpp_list \<Rightarrow> ('a \<times> 'a cpp_list) option" where
  "list_pop s = list_dequeue s"

definition list_first :: "'a cpp_list \<Rightarrow> 'a option" where
  "list_first s = map_option Data (load (lheap s) (elems s))"

partial_function (option) last_walk :: "'a cpp_list \<Rightarrow> ptr \<Rightarrow> 'a option" where
  "last_walk s p = do {
     n \<leftarrow> load (lheap s) p;
     if Next n \<noteq> 0 then last_walk s (Next n) else Some (Data n) }"

definition list_last :: "'a cpp_list \<Rightarrow> 'a option" where
  "list_last s = do { guard (elems s \<noteq> 0); last_walk s (elems s) }"

text \<open>The loop of \<^verbatim>\<open>at\<close> runs to the end of the list when the index is negative.\<close>

partial_function (option) at_walk :: "'a cpp_list \<Rightarrow> int \<Rightarrow> int \<Rightarrow> ptr \<Rightarrow> ptr option" where
  "at_walk s index ctr p =
     (if ctr \<noteq> index \<and> p \<noteq> 0
      then do { n \<leftarrow> load (lheap s) p; at_walk s index (ctr + 1) (Next n) }
      else Some p)"

definition list_at :: "int \<Rightarrow> 'a cpp_list \<Rightarrow> 'a option" where
  "list_at index s = do {
     n \<leftarrow> at_walk s index 0 (elems s);
     map_option Data (load (lheap s) n) }"

definition list_count :: "'a cpp_list \<Rightarrow> u32" where
  "list_count s = cnt s"

definition list_empty :: "'a cpp_list \<Rightarrow> bool" where
  "list_empty s \<longleftrightarrow> cnt s = 0"

text \<open>The loop that frees every node, of \<^verbatim>\<open>~List\<close> and of \<^verbatim>\<open>clear\<close>.\<close>

partial_function (option) free_walk ::
  "(ptr \<rightharpoonup> 'a list_node) \<Rightarrow> ptr \<Rightarrow> (ptr \<rightharpoonup> 'a list_node) option" where
  "free_walk h cur =
     (if cur = 0 then Some h
      else do { n \<leftarrow> load h cur; free_walk (h(cur := None)) (Next n) })"

definition list_clear :: "'a cpp_list \<Rightarrow> 'a cpp_list option" where
  "list_clear s = do {
     h \<leftarrow> free_walk (lheap s) (elems s);
     Some \<lparr>lheap = h, elems = 0, cnt = 0\<rparr> }"

definition list_destroy :: "'a cpp_list \<Rightarrow> (ptr \<rightharpoonup> 'a list_node) option" where
  "list_destroy s = free_walk (lheap s) (elems s)"

text \<open>
  Iteration (\<^verbatim>\<open>begin\<close>, \<^verbatim>\<open>operator*\<close>, \<^verbatim>\<open>operator++\<close>, comparison with \<^verbatim>\<open>end\<close>): the elements a
  range-for loop visits.
\<close>

partial_function (option) list_iter :: "(ptr \<rightharpoonup> 'a list_node) \<Rightarrow> ptr \<Rightarrow> 'a list option" where
  "list_iter h p =
     (if p = 0 then Some []
      else do {
        n \<leftarrow> load h p;
        ds \<leftarrow> list_iter h (Next n);
        Some (Data n # ds) })"

text \<open>
  The copy constructor appends the elements of the source list one after the other, while
  iterating over it; the two lists share the heap, and \<open>news\<close> are the addresses of the
  successive allocations (\<open>None\<close> when there are not enough of them).
\<close>

fun copy_walk :: "ptr list \<Rightarrow> ptr \<Rightarrow> 'a cpp_list \<Rightarrow> 'a cpp_list option" where
  "copy_walk news p s =
     (if p = 0 then Some s
      else case news of
        [] \<Rightarrow> None
      | new # news \<Rightarrow> do {
          n \<leftarrow> load (lheap s) p;
          s \<leftarrow> list_append new (Data n) s;
          copy_walk news (Next n) s })"

definition list_copy :: "ptr list \<Rightarrow> 'a cpp_list \<Rightarrow> 'a cpp_list option" where
  "list_copy news r = copy_walk news (elems r) (list_init (lheap r))"

text \<open>The move constructor: the new list and what is left of the source.\<close>

definition list_move :: "'a cpp_list \<Rightarrow> 'a cpp_list \<times> 'a cpp_list" where
  "list_move r = (r, r\<lparr>elems := 0, cnt := 0\<rparr>)"

subsection \<open>Chains of nodes\<close>

text \<open>
  \<open>chain h p ns q\<close>: following \<^verbatim>\<open>Next\<close> from \<open>p\<close> one meets the nodes \<open>ns\<close>, each with its address
  and its data, and arrives at \<open>q\<close>.
\<close>

fun chain :: "(ptr \<rightharpoonup> 'a list_node) \<Rightarrow> ptr \<Rightarrow> (ptr \<times> 'a) list \<Rightarrow> ptr \<Rightarrow> bool" where
  "chain h p [] q \<longleftrightarrow> p = q"
| "chain h p ((a, x) # ns) q \<longleftrightarrow>
     p = a \<and> a \<noteq> 0 \<and> (case h a of None \<Rightarrow> False | Some n \<Rightarrow> Data n = x \<and> chain h (Next n) ns q)"

definition list_rep :: "'a cpp_list \<Rightarrow> (ptr \<times> 'a) list \<Rightarrow> bool" where
  "list_rep s ns \<longleftrightarrow> chain (lheap s) (elems s) ns 0 \<and> distinct (map fst ns)
     \<and> cnt s = of_nat (length ns)"

lemma chain_Cons:
  "chain h p (b # ns) q \<longleftrightarrow> p = fst b \<and> p \<noteq> 0 \<and> (\<exists>n. h p = Some n \<and> Data n = snd b \<and> chain h (Next n) ns q)"
  by (cases b) (auto split: option.splits)

lemma chain_append: "chain h p (ms @ ns) q \<longleftrightarrow> (\<exists>m. chain h p ms m \<and> chain h m ns q)"
  by (induction ms arbitrary: p) (auto simp: chain_Cons)

lemma chain_cong [heap_frame]:
  "(\<And>b. b \<in> set ns \<Longrightarrow> h' (fst b) = h (fst b)) \<Longrightarrow> chain h' p ns q \<longleftrightarrow> chain h p ns q"
proof (induction ns arbitrary: p)
  case (Cons b ns)
  then have "h' (fst b) = h (fst b)" "\<And>p. chain h' p ns q \<longleftrightarrow> chain h p ns q" by auto
  then show ?case by (cases "p = fst b") (simp_all add: chain_Cons)
qed simp

lemma chain_upd [heap_frame]:
  assumes "a \<notin> fst ` set ns"
  shows "chain (h(a := v)) p ns q \<longleftrightarrow> chain h p ns q"
proof (rule chain_cong)
  fix b assume "b \<in> set ns"
  then have "fst b \<noteq> a" using assms by (metis imageI)
  then show "(h(a := v)) (fst b) = h (fst b)" by simp
qed

lemma chain_nonnull: "chain h p ns q \<Longrightarrow> b \<in> set ns \<Longrightarrow> fst b \<noteq> 0 \<and> fst b \<in> dom h"
  by (induction ns arbitrary: p) (auto simp: chain_Cons)

lemma chain_start: "chain h p ns 0 \<Longrightarrow> p = (if ns = [] then 0 else fst (hd ns))"
  by (cases ns) (auto simp: chain_Cons)

definition slot_after :: "slot \<Rightarrow> (ptr \<times> 'a) list \<Rightarrow> slot" where
  "slot_after sl ms = (if ms = [] then sl else NextOf (fst (last ms)))"

lemma slot_walk_chain:
  assumes "chain (lheap s) p ns 0" "slot_get s sl = Some p"
  shows "slot_walk stop s sl = Some (slot_after sl (takeWhile (\<lambda>b. \<not> stop (snd b)) ns))"
  using assms
proof (induction ns arbitrary: p sl)
  case Nil
  then show ?case by (simp add: slot_walk.simps slot_after_def)
next
  case (Cons b ns)
  then obtain n where n: "lheap s p = Some n" "Data n = snd b" "p \<noteq> 0" "p = fst b"
    and c: "chain (lheap s) (Next n) ns 0" by (auto simp: chain_Cons)
  have "slot_get s (NextOf p) = Some (Next n)" using n by (simp add: load_def)
  from Cons.IH [OF c this] show ?case using n Cons.prems(2)
    by (subst slot_walk.simps) (auto simp: load_def slot_after_def)
qed

lemma slot_get_after:
  assumes "chain (lheap s) (elems s) ms m"
  shows "slot_get s (slot_after Head ms) = Some m"
proof (cases ms rule: rev_cases)
  case Nil
  then show ?thesis using assms by (simp add: slot_after_def)
next
  case (snoc ms' b)
  then show ?thesis using assms
    by (auto simp: slot_after_def chain_append chain_Cons load_def)
qed

lemma slot_set_after:
  assumes "chain (lheap s) (elems s) ms m" "distinct (map fst ms)"
  obtains s' where "slot_set (slot_after Head ms) v s = Some s'" "cnt s' = cnt s"
    "chain (lheap s') (elems s') ms v" "\<forall>a. a \<notin> fst ` set ms \<longrightarrow> lheap s' a = lheap s a"
proof (cases ms rule: rev_cases)
  case Nil
  then show ?thesis using that [of "s\<lparr>elems := v\<rparr>"] by (simp add: slot_after_def)
next
  case (snoc ms' b)
  then obtain n where n: "chain (lheap s) (elems s) ms' (fst b)" "fst b \<noteq> 0"
    "lheap s (fst b) = Some n" "Data n = snd b"
    using assms(1) by (auto simp: chain_append chain_Cons)
  let ?h = "(lheap s)(fst b \<mapsto> n\<lparr>Next := v\<rparr>)"
  have "chain ?h (elems s) ms' (fst b)"
    using n(1) assms(2) snoc by (subst chain_cong) (auto simp: image_iff)
  then have "chain ?h (elems s) ms v"
    using n snoc by (auto simp: chain_append chain_Cons)
  then show ?thesis using that [of "s\<lparr>lheap := ?h\<rparr>"] n snoc
    by (auto simp: slot_after_def load_def)
qed

subsection \<open>The operations on a well-formed list\<close>

lemma list_init_rep: "list_rep (list_init h) []"
  by (simp add: list_rep_def list_init_def)

lemma list_append_rep:
  assumes rep: "list_rep s ns" and new: "new \<noteq> 0" "new \<notin> dom (lheap s)"
  obtains s' where "list_append new e s = Some s'" "list_rep s' (ns @ [(new, e)])"
    "\<forall>a. a \<notin> insert new (fst ` set ns) \<longrightarrow> lheap s' a = lheap s a"
proof -
  have c: "chain (lheap s) (elems s) ns 0" and d: "distinct (map fst ns)"
    and k: "cnt s = of_nat (length ns)" using rep by (auto simp: list_rep_def)
  have w: "slot_walk (\<lambda>_. False) s Head = Some (slot_after Head ns)"
    using slot_walk_chain [OF c, of Head "\<lambda>_. False"] by (simp add: takeWhile_eq_all_conv [THEN iffD2])
  obtain s1 where s1: "slot_set (slot_after Head ns) new s = Some s1" "cnt s1 = cnt s"
    "chain (lheap s1) (elems s1) ns new" "\<forall>a. a \<notin> fst ` set ns \<longrightarrow> lheap s1 a = lheap s a"
    using slot_set_after [OF c d] by blast
  have fresh: "new \<notin> fst ` set ns" using chain_nonnull [OF c] new by fastforce
  let ?s = "s1\<lparr>lheap := (lheap s1)(new \<mapsto> \<lparr>Next = 0, Data = e\<rparr>), cnt := cnt s1 + 1\<rparr>"
  have "chain (lheap ?s) (elems ?s) ns new"
    using s1(3) fresh by (subst chain_cong [where h = "lheap s1"]) auto
  then have "list_rep ?s (ns @ [(new, e)])"
    using d k s1(2) new(1) fresh by (auto simp: list_rep_def chain_append)
  moreover have "list_append new e s = Some ?s"
    using w s1(1) new(1) by (simp add: list_append_def new_node_def)
  ultimately show ?thesis using that [of ?s] s1(4) by auto
qed

lemma takeWhile_remove1:
  "remove1 e (map snd ns) = map snd (takeWhile (\<lambda>b. snd b \<noteq> e) ns) @ map snd (drop 1 (dropWhile (\<lambda>b. snd b \<noteq> e) ns))"
  by (induction ns) auto

lemma list_remove_rep:
  fixes e :: 'a
  assumes rep: "list_rep s ns"
  defines "ms \<equiv> takeWhile (\<lambda>b. snd b \<noteq> e) ns" and "rs \<equiv> dropWhile (\<lambda>b. snd b \<noteq> e) ns"
  obtains s' where "list_remove e s = Some s'" "list_rep s' (ms @ drop 1 rs)"
    "\<forall>a. a \<notin> fst ` set ns \<longrightarrow> lheap s' a = lheap s a"
proof (cases rs)
  case Nil
  then have "ms = ns" by (simp add: ms_def rs_def takeWhile_eq_all_conv)
  then have w: "slot_walk (\<lambda>d. d = e) s Head = Some (slot_after Head ns)"
    using slot_walk_chain [of s "elems s" ns Head "\<lambda>d. d = e"] rep
    by (simp add: list_rep_def flip: ms_def)
  have "slot_get s (slot_after Head ns) = Some 0"
    using rep by (intro slot_get_after) (simp add: list_rep_def)
  then show ?thesis using that [of s] w rep \<open>ms = ns\<close> Nil by (simp add: list_remove_def)
next
  case (Cons b bs)
  have ns: "ns = ms @ b # bs" and be: "snd b = e"
    using Cons takeWhile_dropWhile_id [of "\<lambda>b. snd b \<noteq> e" ns] hd_dropWhile [of "\<lambda>b. snd b \<noteq> e" ns]
    by (auto simp: ms_def rs_def)
  obtain n where n: "chain (lheap s) (elems s) ms (fst b)" "fst b \<noteq> 0" "lheap s (fst b) = Some n"
    "Data n = snd b" "chain (lheap s) (Next n) bs 0"
    using rep by (auto simp: list_rep_def ns chain_append chain_Cons)
  have d: "distinct (map fst (ms @ b # bs))" using rep by (simp add: list_rep_def ns)
  have w: "slot_walk (\<lambda>d. d = e) s Head = Some (slot_after Head ms)"
    using slot_walk_chain [of s "elems s" ns Head "\<lambda>d. d = e"] rep
    by (simp add: list_rep_def flip: ms_def)
  obtain s1 where s1: "slot_set (slot_after Head ms) (Next n) s = Some s1" "cnt s1 = cnt s"
    "chain (lheap s1) (elems s1) ms (Next n)" "\<forall>a. a \<notin> fst ` set ms \<longrightarrow> lheap s1 a = lheap s a"
    using slot_set_after [OF n(1)] d by (metis distinct_append map_append)
  let ?s = "(delete_node (fst b) s1)\<lparr>cnt := cnt s1 - 1\<rparr>"
  have "list_remove e s = Some ?s"
    using w slot_get_after [OF n(1)] n s1(1) be by (simp add: list_remove_def load_def)
  moreover have "chain (lheap ?s) (elems ?s) ms (Next n)"
  proof -
    have "fst b \<notin> fst ` set ms" using d by simp
    then show ?thesis using s1(3) by (simp add: delete_node_def chain_upd)
  qed
  moreover have "chain (lheap ?s) (Next n) bs 0"
  proof -
    have "lheap ?s (fst c) = lheap s (fst c)" if "c \<in> set bs" for c
    proof -
      have "fst c \<in> fst ` set bs" using that by simp
      moreover have "fst b \<notin> fst ` set bs" "fst ` set ms \<inter> fst ` set bs = {}" using d by auto
      ultimately have "fst c \<noteq> fst b" "fst c \<notin> fst ` set ms" by (metis, metis disjoint_iff)
      then show ?thesis using s1(4) by (simp add: delete_node_def)
    qed
    then show ?thesis using n(5) chain_cong [of bs "lheap ?s" "lheap s" "Next n" 0] by blast
  qed
  moreover have "\<forall>a. a \<notin> fst ` set ns \<longrightarrow> lheap ?s a = lheap s a"
    using s1(4) by (auto simp: delete_node_def ns)
  ultimately show ?thesis using that [of ?s] d s1(2) rep Cons
    by (auto simp: list_rep_def chain_append ns)
qed

lemma list_dequeue_rep:
  assumes rep: "list_rep s (b # ns)"
  obtains s' where "list_dequeue s = Some (snd b, s')" "list_rep s' ns"
    "\<forall>a. a \<noteq> fst b \<longrightarrow> lheap s' a = lheap s a"
proof -
  obtain n where n: "elems s = fst b" "fst b \<noteq> 0" "lheap s (fst b) = Some n" "Data n = snd b"
    "chain (lheap s) (Next n) ns 0"
    using rep by (auto simp: list_rep_def chain_Cons)
  have d: "distinct (map fst (b # ns))" using rep by (simp add: list_rep_def)
  let ?s = "(delete_node (elems s) s)\<lparr>elems := Next n, cnt := cnt s - 1\<rparr>"
  have "chain (lheap ?s) (Next n) ns 0 = chain (lheap s) (Next n) ns 0"
    using d n(1) by (simp add: delete_node_def chain_upd)
  then have "list_rep ?s ns" using n(5) d rep by (auto simp: list_rep_def)
  moreover have "list_dequeue s = Some (snd b, ?s)"
    using n by (simp add: list_dequeue_def load_def)
  ultimately show ?thesis using that [of ?s] n(1) by (simp add: delete_node_def)
qed

lemma list_dequeue_Nil: "list_rep s [] \<Longrightarrow> list_dequeue s = None"
  by (simp add: list_rep_def list_dequeue_def load_def)

lemma list_push_rep:
  assumes rep: "list_rep s ns" and new: "new \<noteq> 0" "new \<notin> dom (lheap s)"
  obtains s' where "list_push new e s = Some s'" "list_rep s' ((new, e) # ns)"
    "\<forall>a. a \<noteq> new \<longrightarrow> lheap s' a = lheap s a"
proof -
  let ?h = "(lheap s)(new \<mapsto> \<lparr>Next = elems s, Data = e\<rparr>)"
  have c: "chain (lheap s) (elems s) ns 0" using rep by (simp add: list_rep_def)
  have fresh: "new \<notin> fst ` set ns" using chain_nonnull [OF c] new by fastforce
  then have "chain ?h (elems s) ns 0 = chain (lheap s) (elems s) ns 0"
    by (rule chain_upd)
  then show ?thesis
    using that [of "s\<lparr>lheap := ?h, elems := new, cnt := cnt s + 1\<rparr>"] c rep new fresh
    by (auto simp: list_push_def new_node_def list_rep_def)
qed

lemma list_first_rep: "list_rep s ns \<Longrightarrow> list_first s = (if ns = [] then None else Some (snd (hd ns)))"
  by (cases ns) (auto simp: list_rep_def list_first_def chain_Cons load_def)

lemma last_walk_chain: "chain (lheap s) p ns 0 \<Longrightarrow> ns \<noteq> [] \<Longrightarrow> last_walk s p = Some (snd (last ns))"
proof (induction ns arbitrary: p)
  case (Cons b ns)
  then obtain n where n: "p = fst b" "p \<noteq> 0" "lheap s p = Some n" "Data n = snd b"
    "chain (lheap s) (Next n) ns 0" by (auto simp: chain_Cons)
  moreover have "Next n = 0 \<longleftrightarrow> ns = []" using n(5) by (cases ns) (auto simp: chain_Cons)
  ultimately show ?case using Cons.IH [of "Next n"]
    by (subst last_walk.simps) (auto simp: load_def)
qed simp

lemma list_last_rep: "list_rep s ns \<Longrightarrow> list_last s = (if ns = [] then None else Some (snd (last ns)))"
  using last_walk_chain [of s "elems s" ns] chain_start [of "lheap s" "elems s" ns]
    chain_nonnull [of "lheap s" "elems s" ns 0 "hd ns"]
  by (auto simp: list_rep_def list_last_def)

lemma at_walk_chain:
  assumes "chain (lheap s) p ns 0"
  shows "at_walk s index ctr p =
    Some (if ctr \<le> index \<and> nat (index - ctr) < length ns then fst (ns ! nat (index - ctr)) else 0)"
  using assms
proof (induction ns arbitrary: p ctr)
  case Nil
  then show ?case by (subst at_walk.simps) simp
next
  case (Cons b ns)
  then obtain n where n: "p = fst b" "p \<noteq> 0" "lheap s p = Some n" "Data n = snd b"
    "chain (lheap s) (Next n) ns 0" by (auto simp: chain_Cons)
  show ?case
  proof (cases "ctr = index")
    case False
    then have "ctr \<le> index \<Longrightarrow> nat (index - ctr) = Suc (nat (index - (ctr + 1)))" by simp
    then show ?thesis using False n Cons.IH [OF n(5), of "ctr + 1"]
      by (subst at_walk.simps) (auto simp: load_def)
  qed (use n in \<open>subst at_walk.simps, simp\<close>)
qed

lemma chain_nth_load:
  "chain h p ns q \<Longrightarrow> i < length ns \<Longrightarrow> map_option Data (load h (fst (ns ! i))) = Some (snd (ns ! i))"
proof (induction ns arbitrary: p i)
  case (Cons b ns)
  then obtain n where "p = fst b" "p \<noteq> 0" "h p = Some n" "Data n = snd b" "chain h (Next n) ns q"
    by (auto simp: chain_Cons)
  then show ?case using Cons.IH Cons.prems(2) by (cases i) (simp_all add: load_def)
qed simp

lemma list_at_rep:
  "list_rep s ns \<Longrightarrow> list_at index s =
    (if 0 \<le> index \<and> nat index < length ns then Some (snd (ns ! nat index)) else None)"
  using chain_nth_load [of "lheap s" "elems s" ns 0 "nat index"]
  by (auto simp: list_rep_def list_at_def at_walk_chain load_def)

lemma free_walk_chain:
  assumes "chain h p ns 0" "distinct (map fst ns)"
  shows "free_walk h p = Some (\<lambda>a. if a \<in> fst ` set ns then None else h a)"
  using assms
proof (induction ns arbitrary: h p)
  case Nil
  then show ?case by (subst free_walk.simps) simp
next
  case (Cons b ns)
  then obtain n where n: "p = fst b" "p \<noteq> 0" "h p = Some n" "chain h (Next n) ns 0"
    by (auto simp: chain_Cons)
  have "chain (h(p := None)) (Next n) ns 0 = chain h (Next n) ns 0"
    using Cons.prems(2) n(1) by (simp add: chain_upd)
  note IH = Cons.IH [OF this [THEN iffD2, OF n(4)]]
  have eq: "(\<lambda>a. if a \<in> fst ` set ns then None else (h(p := None)) a)
    = (\<lambda>a. if a \<in> fst ` set (b # ns) then None else h a)" using n(1) by auto
  have "distinct (map fst ns)" using Cons.prems(2) by simp
  from trans [OF IH [OF this] arg_cong [OF eq, of Some]]
  have "free_walk (h(p := None)) (Next n) = Some (\<lambda>a. if a \<in> fst ` set (b # ns) then None else h a)" .
  then show ?case using n(2,3) by (subst free_walk.simps) (simp add: load_def)
qed

lemma list_clear_rep:
  "list_rep s ns \<Longrightarrow> list_clear s = Some (list_init (\<lambda>a. if a \<in> fst ` set ns then None else lheap s a))"
  by (auto simp: list_rep_def list_clear_def free_walk_chain list_init_def)

lemma list_destroy_rep:
  "list_rep s ns \<Longrightarrow> list_destroy s = Some (\<lambda>a. if a \<in> fst ` set ns then None else lheap s a)"
  by (auto simp: list_rep_def list_destroy_def free_walk_chain)

lemma list_iter_chain: "chain h p ns 0 \<Longrightarrow> list_iter h p = Some (map snd ns)"
proof (induction ns arbitrary: p)
  case Nil
  then show ?case by (subst list_iter.simps) simp
next
  case (Cons b ns)
  then show ?case by (subst list_iter.simps) (auto simp: load_def chain_Cons)
qed

declare copy_walk.simps [simp del]

lemma copy_walk_rep:
  assumes "chain (lheap s) p src 0" "list_rep s ns" "fst ` set src \<inter> fst ` set ns = {}"
    "distinct news" "0 \<notin> set news" "set news \<inter> dom (lheap s) = {}" "length src \<le> length news"
  shows "\<exists>s' ns'. copy_walk news p s = Some s' \<and> list_rep s' (ns @ ns') \<and> map snd ns' = map snd src
    \<and> fst ` set ns' \<subseteq> set news \<and> (\<forall>a. a \<notin> fst ` set ns' \<union> fst ` set ns \<longrightarrow> lheap s' a = lheap s a)"
  using assms
proof (induction src arbitrary: p s ns news)
  case (Cons b src)
  then obtain new news' where nw: "news = new # news'" by (cases news) auto
  obtain n where n: "p = fst b" "p \<noteq> 0" "lheap s p = Some n" "Data n = snd b"
    "chain (lheap s) (Next n) src 0" using Cons.prems(1) by (auto simp: chain_Cons)
  have new: "new \<noteq> 0" "new \<notin> dom (lheap s)" using Cons.prems(5,6) nw by auto
  obtain s1 where s1: "list_append new (snd b) s = Some s1" "list_rep s1 (ns @ [(new, snd b)])"
    "\<forall>a. a \<notin> insert new (fst ` set ns) \<longrightarrow> lheap s1 a = lheap s a"
    using list_append_rep [OF Cons.prems(2) new] by blast
  have fr: "a \<noteq> new \<and> a \<in> dom (lheap s)" if "a \<in> fst ` set src" for a
    using chain_nonnull [OF n(5)] that new by auto
  then have "lheap s1 a = lheap s a" if "a \<in> fst ` set src" for a
    using s1(3) that Cons.prems(3) by (metis (no_types, lifting) disjoint_iff insert_iff image_insert list.simps(15))
  then have "chain (lheap s1) (Next n) src 0"
    using n(5) by (simp add: chain_cong [of src "lheap s1" "lheap s"])
  moreover have "fst ` set src \<inter> fst ` set (ns @ [(new, snd b)]) = {}"
    using fr Cons.prems(3) by auto
  moreover have "set news' \<inter> dom (lheap s1) = {}"
  proof -
    have "lheap s1 a = None" if "a \<in> set news'" for a
    proof -
      have "a \<noteq> new" "lheap s a = None" using that Cons.prems(4,6) nw by auto
      moreover have "a \<notin> fst ` set ns"
        using chain_nonnull [of "lheap s" "elems s" ns 0] Cons.prems(2) \<open>lheap s a = None\<close>
        by (auto simp: list_rep_def)
      ultimately show ?thesis using s1(3) by simp
    qed
    then show ?thesis by auto
  qed
  ultimately obtain s' ns' where "copy_walk news' (Next n) s1 = Some s'"
    "list_rep s' ((ns @ [(new, snd b)]) @ ns')" "map snd ns' = map snd src"
    "fst ` set ns' \<subseteq> set news'" "\<forall>a. a \<notin> fst ` set ns' \<union> fst ` set (ns @ [(new, snd b)]) \<longrightarrow> lheap s' a = lheap s1 a"
    using Cons.IH [of s1 "Next n" "ns @ [(new, snd b)]" news'] s1(2) Cons.prems(4,5,7) nw by auto
  then show ?case using n s1 nw
    by (intro exI [of _ s'] exI [of _ "(new, snd b) # ns'"]) (auto simp: load_def copy_walk.simps)
qed (auto intro!: exI [of _ "[]"] simp: copy_walk.simps)

subsection \<open>Refinement of HOL lists\<close>

text \<open>
  The public operations of \<^verbatim>\<open>List<T>\<close> as one datatype, the step of the node-level model and the
  step of the specification, whose state is a HOL list.
\<close>

datatype 'a list_op =
    Append ptr 'a | Enqueue ptr 'a | Push ptr 'a | Remove 'a | Dequeue | Pop | Clear
  | First | Last | At int | Count | Empty | Iterate

datatype 'a list_res = Done | Elem 'a | Number u32 | Truth bool | Elems "'a list"

fun list_step :: "'a list_op \<Rightarrow> 'a cpp_list \<Rightarrow> ('a list_res \<times> 'a cpp_list) option" where
  "list_step (Append n e) s = map_option (Pair Done) (list_append n e s)"
| "list_step (Enqueue n e) s = map_option (Pair Done) (list_enqueue n e s)"
| "list_step (Push n e) s = map_option (Pair Done) (list_push n e s)"
| "list_step (Remove e) s = map_option (Pair Done) (list_remove e s)"
| "list_step Dequeue s = map_option (map_prod Elem id) (list_dequeue s)"
| "list_step Pop s = map_option (map_prod Elem id) (list_pop s)"
| "list_step Clear s = map_option (Pair Done) (list_clear s)"
| "list_step First s = map_option (\<lambda>x. (Elem x, s)) (list_first s)"
| "list_step Last s = map_option (\<lambda>x. (Elem x, s)) (list_last s)"
| "list_step (At i) s = map_option (\<lambda>x. (Elem x, s)) (list_at i s)"
| "list_step Count s = Some (Number (list_count s), s)"
| "list_step Empty s = Some (Truth (list_empty s), s)"
| "list_step Iterate s = map_option (\<lambda>xs. (Elems xs, s)) (list_iter (lheap s) (elems s))"

fun list_spec :: "'a list_op \<Rightarrow> 'a list \<Rightarrow> ('a list_res \<times> 'a list) option" where
  "list_spec (Append n e) xs = Some (Done, xs @ [e])"
| "list_spec (Enqueue n e) xs = Some (Done, xs @ [e])"
| "list_spec (Push n e) xs = Some (Done, e # xs)"
| "list_spec (Remove e) xs = Some (Done, remove1 e xs)"
| "list_spec Dequeue xs = (case xs of [] \<Rightarrow> None | x # xs \<Rightarrow> Some (Elem x, xs))"
| "list_spec Pop xs = (case xs of [] \<Rightarrow> None | x # xs \<Rightarrow> Some (Elem x, xs))"
| "list_spec Clear xs = Some (Done, [])"
| "list_spec First xs = (case xs of [] \<Rightarrow> None | x # _ \<Rightarrow> Some (Elem x, xs))"
| "list_spec Last xs = (if xs = [] then None else Some (Elem (last xs), xs))"
| "list_spec (At i) xs =
     (if 0 \<le> i \<and> nat i < length xs then Some (Elem (xs ! nat i), xs) else None)"
| "list_spec Count xs = Some (Number (of_nat (length xs)), xs)"
| "list_spec Empty xs = Some (Truth ((of_nat (length xs) :: u32) = 0), xs)"
| "list_spec Iterate xs = Some (Elems xs, xs)"

text \<open>What an operation asks of the allocator: a new node has a fresh address that is not \<^verbatim>\<open>NULL\<close>.\<close>

fun fresh_ok :: "'a list_op \<Rightarrow> 'a cpp_list \<Rightarrow> bool" where
  "fresh_ok (Append n e) s \<longleftrightarrow> n \<noteq> 0 \<and> lheap s n = None"
| "fresh_ok (Enqueue n e) s \<longleftrightarrow> n \<noteq> 0 \<and> lheap s n = None"
| "fresh_ok (Push n e) s \<longleftrightarrow> n \<noteq> 0 \<and> lheap s n = None"
| "fresh_ok _ s \<longleftrightarrow> True"

definition list_abs :: "'a cpp_list \<Rightarrow> 'a list \<Rightarrow> bool" where
  "list_abs s xs \<longleftrightarrow> (\<exists>ns. list_rep s ns \<and> map snd ns = xs)"

lemma list_absI: "list_rep s ns \<Longrightarrow> xs = map snd ns \<Longrightarrow> list_abs s xs"
  by (auto simp: list_abs_def)

lemma list_step_refines:
  assumes "list_abs s xs" "fresh_ok op s"
  shows "rel_option (rel_prod (=) list_abs) (list_step op s) (list_spec op xs)"
proof -
  from assms(1) obtain ns where rep: "list_rep s ns" and xs: "map snd ns = xs"
    by (auto simp: list_abs_def)
  have deq: "rel_option (rel_prod (=) list_abs) (map_option (map_prod Elem id) (list_dequeue s))
    (case xs of [] \<Rightarrow> None | x # xs \<Rightarrow> Some (Elem x, xs))"
  proof (cases ns)
    case Nil
    then show ?thesis using rep xs by (auto simp: list_dequeue_Nil)
  next
    case (Cons b bs)
    show ?thesis
      by (rule list_dequeue_rep [of s b bs]) (use rep xs Cons in \<open>auto intro: list_absI\<close>)
  qed
  have app: "rel_option (rel_prod (=) list_abs) (map_option (Pair Done) (list_append n e s)) (Some (Done, xs @ [e]))"
    if "n \<noteq> 0" "lheap s n = None" for n e
    by (rule list_append_rep [OF rep that(1), of e]) (use that xs in \<open>auto intro: list_absI\<close>)
  have reads: "cnt s = of_nat (length xs)" "list_iter (lheap s) (elems s) = Some xs"
    "list_first s = (if xs = [] then None else Some (hd xs))"
    "list_last s = (if xs = [] then None else Some (last xs))"
    "list_at i s = (if 0 \<le> i \<and> nat i < length xs then Some (xs ! nat i) else None)" for i
    using rep xs list_first_rep [OF rep] list_last_rep [OF rep] list_at_rep [OF rep]
    by (auto simp: list_rep_def list_iter_chain last_map hd_map)
  have clr: "list_clear s = Some s' \<Longrightarrow> list_abs s' []" "list_clear s \<noteq> None" for s'
    using list_clear_rep [OF rep] by (auto intro: list_absI [OF list_init_rep])
  show ?thesis
  proof (cases op)
    case (Remove e)
    show ?thesis
      by (rule list_remove_rep [OF rep, of e])
        (use xs Remove in \<open>auto intro: list_absI simp: takeWhile_remove1\<close>)
  next
    case (Push n e)
    show ?thesis
      by (rule list_push_rep [OF rep, of n e]) (use xs assms(2) Push in \<open>auto intro: list_absI\<close>)
  qed (use deq app assms reads clr in
    \<open>auto simp: list_enqueue_def list_pop_def list_count_def list_empty_def split: list.splits\<close>)
qed

interpretation linked: simulation list_abs fresh_ok list_step list_spec
  by unfold_locales (rule list_step_refines)

subsection \<open>Properties\<close>

text \<open>
  C10. The linked list implements the list: starting from a well-formed list with contents \<open>xs\<close>,
  every sequence of \<^verbatim>\<open>append\<close>, \<^verbatim>\<open>enqueue\<close>, \<^verbatim>\<open>push\<close>, \<^verbatim>\<open>remove\<close>, \<^verbatim>\<open>dequeue\<close>, \<^verbatim>\<open>pop\<close>, \<^verbatim>\<open>clear\<close>,
  \<^verbatim>\<open>first\<close>, \<^verbatim>\<open>last\<close>, \<^verbatim>\<open>at\<close>, \<^verbatim>\<open>count\<close>, \<^verbatim>\<open>empty\<close> and iterations returns the results that the same
  sequence gives on \<open>xs\<close>, ends in a well-formed list with the same contents, and stops at a
  failed assertion exactly when the specification does. The allocator is only asked for fresh
  addresses.
\<close>

theorem linked_list_refines:
  assumes "list_abs s xs" "ops_ok fresh_ok list_step ops s"
  shows "rel_option (rel_prod (=) list_abs) (run_ops list_step ops s) (run_ops list_spec ops xs)"
  using assms by (rule linked.runs)

theorem linked_list_refines_witness:
  "\<exists>s. run_ops list_step [Push 1 (7::nat), Push 2 8, Append 3 9, Iterate, Remove 7, Dequeue, Count]
      (list_init Map.empty)
    = Some ([Done, Done, Done, Elems [8, 7, 9], Done, Elem 8, Number 1], s) \<and> list_abs s [9]"
proof -
  have "list_abs (list_init Map.empty) ([] :: nat list)"
    using list_init_rep by (rule list_absI) simp
  moreover have "ops_ok fresh_ok list_step [Push 1 (7::nat), Push 2 8, Append 3 9, Iterate, Remove 7, Dequeue, Count]
      (list_init Map.empty)"
    by (auto simp: list_push_def new_node_def list_init_def split: option.splits)
  ultimately have "rel_option (rel_prod (=) list_abs)
    (run_ops list_step [Push 1 (7::nat), Push 2 8, Append 3 9, Iterate, Remove 7, Dequeue, Count] (list_init Map.empty))
    (run_ops list_spec [Push 1 (7::nat), Push 2 8, Append 3 9, Iterate, Remove 7, Dequeue, Count] [])"
    by (rule linked_list_refines)
  then show ?thesis by (simp add: option_rel_Some2 del: list_step.simps)
qed

text \<open>
  C21. The copy constructor makes an independent copy and leaks nothing: given enough fresh
  addresses it returns a well-formed list with the contents of the source, in nodes that the
  source does not share; the source list is intact in the new heap, and destroying the copy
  gives back exactly the heap from before.
\<close>

theorem list_copy_independent:
  assumes rep: "list_rep r src" and news: "distinct news" "0 \<notin> set news"
    "\<forall>a \<in> set news. lheap r a = None" "length src \<le> length news"
  shows "\<exists>s ns. list_copy news r = Some s \<and> list_rep s ns \<and> map snd ns = map snd src
    \<and> fst ` set ns \<inter> fst ` set src = {} \<and> list_rep (r\<lparr>lheap := lheap s\<rparr>) src
    \<and> list_destroy s = Some (lheap r)"
proof -
  have c: "chain (lheap r) (elems r) src 0" using rep by (simp add: list_rep_def)
  have d: "set news \<inter> dom (lheap r) = {}" using news(3) by auto
  have i: "chain (lheap (list_init (lheap r))) (elems r) src 0" using c by (simp add: list_init_def)
  from copy_walk_rep [OF i list_init_rep, of news] d news
  obtain s ns where s: "list_copy news r = Some s" "list_rep s ns" "map snd ns = map snd src"
    "fst ` set ns \<subseteq> set news" "\<forall>a. a \<notin> fst ` set ns \<longrightarrow> lheap s a = lheap r a"
    by (auto simp: list_copy_def) (auto simp: list_init_def)
  have src: "a \<notin> set news" if "a \<in> fst ` set src" for a
    using chain_nonnull [OF c] that news(3) by force
  have "lheap s (fst b) = lheap r (fst b)" if "b \<in> set src" for b
    using src [of "fst b"] that s(4,5) by blast
  then have "chain (lheap s) (elems r) src 0"
    using c by (simp add: chain_cong [of src "lheap s" "lheap r"])
  then have "list_rep (r\<lparr>lheap := lheap s\<rparr>) src" using rep by (simp add: list_rep_def)
  moreover have "fst ` set ns \<inter> fst ` set src = {}" using src s(4) by blast
  moreover have "list_destroy s = Some (lheap r)"
    using s(4,5) news(3) by (auto simp: list_destroy_rep [OF s(2)] fun_eq_iff)
  ultimately show ?thesis using s by blast
qed

theorem list_copy_independent_witness:
  "\<exists>s ns. list_copy [3, 4] \<lparr>lheap = [1 \<mapsto> \<lparr>Next = 2, Data = 7\<rparr>, 2 \<mapsto> \<lparr>Next = 0, Data = (9::nat)\<rparr>],
      elems = 1, cnt = 2\<rparr> = Some s
    \<and> list_rep s ns \<and> map snd ns = [7, 9]
    \<and> list_destroy s = Some [1 \<mapsto> \<lparr>Next = 2, Data = 7\<rparr>, 2 \<mapsto> \<lparr>Next = 0, Data = 9\<rparr>]"
proof -
  let ?r = "\<lparr>lheap = [1 \<mapsto> \<lparr>Next = 2, Data = 7\<rparr>, 2 \<mapsto> \<lparr>Next = 0, Data = (9::nat)\<rparr>], elems = 1, cnt = 2\<rparr>"
  have "list_rep ?r [(1, 7), (2, 9)]" by (simp add: list_rep_def)
  then show ?thesis using list_copy_independent [of ?r "[(1, 7), (2, 9)]" "[3, 4]"]
    by (simp del: One_nat_def) (elim exE conjE, intro exI conjI)
qed

end
