(* ===== verification/Map_Tree.thy ===== *)
theory Map_Tree
  imports Util_List "HOL-Library.Multiset"
begin

text \<open>
  Red-black trees whose nodes carry the address they have in memory, with a zipper for the
  position of a node: the abstract counterpart of the pointer structure of
  \<^verbatim>\<open>include/infos/util/map.h\<close>. \<open>fixup\<close> is \<^verbatim>\<open>rebalance_insert\<close> and \<open>tree_add\<close> is \<^verbatim>\<open>add\<close> on such trees;
  the lemmas give the order, the colours and the black heights of the results.
\<close>

datatype colour = RED | BLACK

datatype ('k, 'v) mtree =
    Tip
  | Br "('k, 'v) mtree" ptr colour 'k 'v "('k, 'v) mtree"

text \<open>One step from a node to its parent: the parent's data and its other subtree.\<close>

datatype ('k, 'v) crumb =
    InLeft ptr colour 'k 'v "('k, 'v) mtree"
  | InRight "('k, 'v) mtree" ptr colour 'k 'v

fun addr :: "('k, 'v) mtree \<Rightarrow> ptr" where
  "addr Tip = 0"
| "addr (Br l a c k v r) = a"

fun col :: "('k, 'v) mtree \<Rightarrow> colour" where
  "col Tip = BLACK"
| "col (Br l a c k v r) = c"

fun blacken :: "('k, 'v) mtree \<Rightarrow> ('k, 'v) mtree" where
  "blacken Tip = Tip"
| "blacken (Br l a c k v r) = Br l a BLACK k v r"

fun inorder :: "('k, 'v) mtree \<Rightarrow> (ptr \<times> 'k \<times> 'v) list" where
  "inorder Tip = []"
| "inorder (Br l a c k v r) = inorder l @ (a, k, v) # inorder r"

abbreviation addrs :: "('k, 'v) mtree \<Rightarrow> ptr list" where
  "addrs t \<equiv> map fst (inorder t)"

abbreviation kvs :: "('k, 'v) mtree \<Rightarrow> ('k \<times> 'v) list" where
  "kvs t \<equiv> map snd (inorder t)"

definition bst :: "('k::linorder, 'v) mtree \<Rightarrow> bool" where
  "bst t \<longleftrightarrow> sorted_wrt (<) (map fst (kvs t))"

fun bheight :: "('k, 'v) mtree \<Rightarrow> nat" where
  "bheight Tip = 0"
| "bheight (Br l a c k v r) = (if c = BLACK then bheight l + 1 else bheight l)"

fun invc :: "('k, 'v) mtree \<Rightarrow> bool" where
  "invc Tip = True"
| "invc (Br l a c k v r) \<longleftrightarrow> (c = RED \<longrightarrow> col l = BLACK \<and> col r = BLACK) \<and> invc l \<and> invc r"

fun invh :: "('k, 'v) mtree \<Rightarrow> bool" where
  "invh Tip = True"
| "invh (Br l a c k v r) \<longleftrightarrow> bheight l = bheight r \<and> invh l \<and> invh r"

definition rbt :: "('k, 'v) mtree \<Rightarrow> bool" where
  "rbt t \<longleftrightarrow> invc t \<and> invh t \<and> col t = BLACK"

fun height :: "('k, 'v) mtree \<Rightarrow> nat" where
  "height Tip = 0"
| "height (Br l a c k v r) = Suc (max (height l) (height r))"

fun plug1 :: "('k, 'v) mtree \<Rightarrow> ('k, 'v) crumb \<Rightarrow> ('k, 'v) mtree" where
  "plug1 t (InLeft a c k v r) = Br t a c k v r"
| "plug1 t (InRight l a c k v) = Br l a c k v t"

fun plug :: "('k, 'v) mtree \<Rightarrow> ('k, 'v) crumb list \<Rightarrow> ('k, 'v) mtree" where
  "plug t [] = t"
| "plug t (p # ps) = plug (plug1 t p) ps"

fun ccol :: "('k, 'v) crumb \<Rightarrow> colour" where
  "ccol (InLeft a c k v r) = c"
| "ccol (InRight l a c k v) = c"

fun caddr :: "('k, 'v) crumb \<Rightarrow> ptr" where
  "caddr (InLeft a c k v r) = a"
| "caddr (InRight l a c k v) = a"

fun sibling :: "('k, 'v) crumb \<Rightarrow> ('k, 'v) mtree" where
  "sibling (InLeft a c k v r) = r"
| "sibling (InRight l a c k v) = l"

text \<open>
  One turn of the loop of \<^verbatim>\<open>rebalance_insert\<close> when the uncle is black: the rotations around a
  red parent \<open>p\<close> and its parent \<open>g\<close>.
\<close>

fun rotated :: "('k, 'v) mtree \<Rightarrow> ('k, 'v) crumb \<Rightarrow> ('k, 'v) crumb \<Rightarrow> ('k, 'v) mtree" where
  "rotated x (InLeft pa pc pk pv pr) (InLeft ga gc gk gv u) =
     Br x pa BLACK pk pv (Br pr ga RED gk gv u)"
| "rotated (Br xl xa xc xk xv xr) (InRight pl pa pc pk pv) (InLeft ga gc gk gv u) =
     Br (Br pl pa pc pk pv xl) xa BLACK xk xv (Br xr ga RED gk gv u)"
| "rotated x (InRight pl pa pc pk pv) (InRight u ga gc gk gv) =
     Br (Br u ga RED gk gv pl) pa BLACK pk pv x"
| "rotated (Br xl xa xc xk xv xr) (InLeft pa pc pk pv pr) (InRight u ga gc gk gv) =
     Br (Br u ga RED gk gv xl) xa BLACK xk xv (Br xr pa pc pk pv pr)"
| "rotated Tip p g = plug1 (plug1 Tip p) g"

text \<open>The colour flip when the uncle is red.\<close>

fun flipped :: "('k, 'v) mtree \<Rightarrow> ('k, 'v) crumb \<Rightarrow> ('k, 'v) crumb \<Rightarrow> ('k, 'v) mtree" where
  "flipped x p (InLeft ga gc gk gv u) = Br (blacken (plug1 x p)) ga RED gk gv (blacken u)"
| "flipped x p (InRight u ga gc gk gv) = Br (blacken u) ga RED gk gv (blacken (plug1 x p))"

fun fixup :: "('k, 'v) mtree \<Rightarrow> ('k, 'v) crumb list \<Rightarrow> ('k, 'v) mtree" where
  "fixup x [] = x"
| "fixup x [p] = plug1 x p"
| "fixup x (p # g # ps) =
     (if ccol p = BLACK then plug x (p # g # ps)
      else if col (sibling g) = RED then fixup (flipped x p g) ps
      else plug (rotated x p g) ps)"

text \<open>The position at which the loop of \<^verbatim>\<open>add\<close> stops.\<close>

fun descend :: "'k::linorder \<Rightarrow> ('k, 'v) mtree \<Rightarrow> ('k, 'v) crumb list \<Rightarrow> ('k, 'v) mtree \<times> ('k, 'v) crumb list" where
  "descend key Tip ps = (Tip, ps)"
| "descend key (Br l a c k v r) ps =
     (if key < k then (if l = Tip then (Br l a c k v r, ps) else descend key l (InLeft a c k v r # ps))
      else if k < key then (if r = Tip then (Br l a c k v r, ps) else descend key r (InRight l a c k v # ps))
      else (Br l a c k v r, ps))"

definition tree_add :: "ptr \<Rightarrow> 'k::linorder \<Rightarrow> 'v \<Rightarrow> ('k, 'v) mtree \<Rightarrow> ('k, 'v) mtree" where
  "tree_add nw key val t =
     (case descend key t [] of
        (Tip, ps) \<Rightarrow> Br Tip nw BLACK key val Tip
      | (Br l a c k v r, ps) \<Rightarrow>
          if key = k then plug (Br l a c k val r) ps
          else if key < k then blacken (fixup (Br Tip nw RED key val Tip) (InLeft a c k v r # ps))
          else blacken (fixup (Br Tip nw RED key val Tip) (InRight l a c k v # ps)))"

fun tree_find :: "'k::linorder \<Rightarrow> ('k, 'v) mtree \<Rightarrow> ('k, 'v) mtree" where
  "tree_find key Tip = Tip"
| "tree_find key (Br l a c k v r) =
     (if key < k then tree_find key l else if k < key then tree_find key r else Br l a c k v r)"

lemma plug_snoc: "plug t (ps @ [p]) = plug1 (plug t ps) p"
  by (induction ps arbitrary: t) simp_all

subsection \<open>Order\<close>

fun lefts :: "('k, 'v) crumb list \<Rightarrow> (ptr \<times> 'k \<times> 'v) list" where
  "lefts [] = []"
| "lefts (InLeft a c k v r # ps) = lefts ps"
| "lefts (InRight l a c k v # ps) = lefts ps @ inorder l @ [(a, k, v)]"

fun rights :: "('k, 'v) crumb list \<Rightarrow> (ptr \<times> 'k \<times> 'v) list" where
  "rights [] = []"
| "rights (InLeft a c k v r # ps) = (a, k, v) # inorder r @ rights ps"
| "rights (InRight l a c k v # ps) = rights ps"

lemma inorder_plug: "inorder (plug t ps) = lefts ps @ inorder t @ rights ps"
proof (induction ps arbitrary: t)
  case (Cons p ps)
  then show ?case by (cases p) simp_all
qed simp

lemma inorder_blacken [simp]: "inorder (blacken t) = inorder t"
  by (cases t) simp_all

lemma inorder_flipped: "inorder (flipped x p g) = inorder (plug1 (plug1 x p) g)"
  by (cases p; cases g) simp_all

lemma inorder_rotated: "inorder (rotated x p g) = inorder (plug1 (plug1 x p) g)"
  by (cases x; cases p; cases g) simp_all

lemma inorder_fixup: "inorder (fixup x ps) = inorder (plug x ps)"
  by (induction x ps rule: fixup.induct) (simp_all add: inorder_plug inorder_rotated inorder_flipped)

lemma descend_plug: "descend key t ps = (t', ps') \<Longrightarrow> plug t' ps' = plug t ps"
  by (induction key t ps rule: descend.induct) (auto split: if_splits)

lemma descend_stop:
  "descend key t ps = (Br l a c k v r, ps') \<Longrightarrow>
   key = k \<or> key < k \<and> l = Tip \<or> k < key \<and> r = Tip"
  by (induction key t ps rule: descend.induct) (auto split: if_splits)

lemma descend_Tip: "descend key t ps = (Tip, ps') \<longleftrightarrow> t = Tip \<and> ps' = ps"
  by (induction key t ps rule: descend.induct) auto

text \<open>The new key belongs between the parts of the tree to the left and to the right of the position.\<close>

definition between :: "'k::linorder \<Rightarrow> ('k, 'v) crumb list \<Rightarrow> bool" where
  "between key ps \<longleftrightarrow> (\<forall>b \<in> set (lefts ps). fst (snd b) < key) \<and> (\<forall>b \<in> set (rights ps). key < fst (snd b))"

lemma bst_plug: "bst (plug t ps) \<longleftrightarrow>
  sorted_wrt (<) (map (fst \<circ> snd) (lefts ps) @ map (fst \<circ> snd) (inorder t) @ map (fst \<circ> snd) (rights ps))"
  by (simp add: bst_def inorder_plug)

lemma bst_plug_parts:
  assumes "bst (plug (Br l a c k v r) ps)"
  shows "\<forall>b \<in> set (lefts ps). fst (snd b) < k" "\<forall>b \<in> set (inorder l). fst (snd b) < k"
    "\<forall>b \<in> set (inorder r). k < fst (snd b)" "\<forall>b \<in> set (rights ps). k < fst (snd b)"
  using assms by (simp_all add: bst_plug sorted_wrt_append)

lemma between_InLeft:
  "between key ps \<Longrightarrow> key < k \<Longrightarrow> bst (plug (Br l a c k v r) ps) \<Longrightarrow> between key (InLeft a c k v r # ps)"
  using bst_plug_parts [of l a c k v r ps] less_trans [of key k]
  by (auto simp: between_def)

lemma between_InRight:
  "between key ps \<Longrightarrow> k < key \<Longrightarrow> bst (plug (Br l a c k v r) ps) \<Longrightarrow> between key (InRight l a c k v # ps)"
  using bst_plug_parts [of l a c k v r ps] less_trans [of _ k key]
  by (auto simp: between_def)

lemma descend_between:
  "descend key t ps = (t', ps') \<Longrightarrow> bst (plug t ps) \<Longrightarrow> between key ps \<Longrightarrow> between key ps'"
  by (induction key t ps rule: descend.induct)
    (auto split: if_splits simp: between_InLeft between_InRight)

lemma bst_blacken [simp]: "bst (blacken t) = bst t"
  by (simp add: bst_def)

lemma bst_fixup [simp]: "bst (fixup x ps) = bst (plug x ps)"
  by (simp add: bst_def inorder_fixup)

text \<open>The contents of \<open>tree_add\<close> as a list: a value replaced, or an entry inserted.\<close>

lemma tree_add_cases:
  assumes "bst t"
  obtains (replace) xs a v ys where "inorder t = xs @ (a, key, v) # ys"
      "inorder (tree_add nw key val t) = xs @ (a, key, val) # ys"
  | (insert) xs ys where "inorder t = xs @ ys"
      "inorder (tree_add nw key val t) = xs @ (nw, key, val) # ys"
      "\<forall>b \<in> set xs. fst (snd b) < key" "\<forall>b \<in> set ys. key < fst (snd b)"
proof -
  obtain t' ps where d: "descend key t [] = (t', ps)" by fastforce
  note pl = descend_plug [OF d, simplified]
  have bt: "between key ps" using descend_between [OF d] assms by (simp add: between_def)
  have io: "inorder t = lefts ps @ inorder t' @ rights ps" using pl by (simp flip: inorder_plug)
  show thesis
  proof (cases t')
    case Tip
    then have "t = Tip" using d by (simp add: descend_Tip)
    note this [simp]
    show thesis by (rule insert [of "[]" "[]"]) (use Tip d in \<open>auto simp: tree_add_def\<close>)
  next
    case (Br l a c k v r)
    have srt: "bst (plug (Br l a c k v r) ps)" using pl assms Br by simp
    consider "key = k" | "key < k" "l = Tip" | "k < key" "r = Tip"
      using descend_stop d Br by metis
    then show thesis
    proof cases
      case 1
      show thesis
        by (rule replace [of "lefts ps @ inorder l" a v "inorder r @ rights ps"])
          (use d Br io 1 in \<open>simp_all add: tree_add_def inorder_plug\<close>)
    next
      case 2
      have "\<forall>b \<in> set (inorder (Br l a c k v r)). key < fst (snd b)"
        using bst_plug_parts [OF srt] 2 by (auto intro: less_trans)
      note lt = this
      show thesis
        by (rule insert [of "lefts ps" "inorder t' @ rights ps"])
          (use lt d Br io 2 bt in \<open>auto simp: tree_add_def inorder_fixup inorder_plug between_def\<close>)
    next
      case 3
      have "\<forall>b \<in> set (inorder (Br l a c k v r)). fst (snd b) < key"
        using bst_plug_parts [OF srt] 3 by (auto intro: less_trans)
      note lt = this
      show thesis
        by (rule insert [of "lefts ps @ inorder t'" "rights ps"])
          (use lt d Br io 3 bt in \<open>auto simp: tree_add_def inorder_fixup inorder_plug between_def\<close>)
    qed
  qed
qed

lemma bst_tree_add: "bst t \<Longrightarrow> bst (tree_add nw key val t)"
proof -
  assume b: "bst t"
  then show ?thesis
  proof (cases rule: tree_add_cases [of t key nw val])
    case (replace xs a v ys)
    then show ?thesis using b by (simp add: bst_def)
  next
    case (insert xs ys)
    then show ?thesis using b
      by (auto simp: bst_def sorted_wrt_append)
  qed
qed

lemma bst_distinct: "bst t \<Longrightarrow> distinct (map fst (kvs t))"
  by (simp add: bst_def strict_sorted_iff)

lemma map_of_mid: "k \<notin> fst ` set xs \<Longrightarrow> map_of (xs @ (k, v) # ys) = (map_of (xs @ ys))(k \<mapsto> v)"
  by (auto simp: fun_eq_iff map_add_def dom_map_of_conv_image_fst [symmetric] split: option.splits)

lemma map_of_tree_add:
  assumes "bst t"
  shows "map_of (kvs (tree_add nw key val t)) = (map_of (kvs t))(key \<mapsto> val)"
  using assms
proof (cases rule: tree_add_cases [of t key nw val])
  case (replace xs a v ys)
  then have "key \<notin> fst ` set (map snd xs)"
    using bst_distinct [OF assms] by (simp add: image_image)
  from map_of_mid [OF this] show ?thesis using replace by simp
next
  case (insert xs ys)
  then have "key \<notin> fst ` set (map snd xs)" by auto
  from map_of_mid [OF this] show ?thesis using insert by simp
qed

lemma addrs_tree_add:
  assumes "bst t"
  shows "mset (addrs (tree_add nw key val t))
    = (if key \<in> fst ` set (kvs t) then mset (addrs t) else add_mset nw (mset (addrs t)))"
  using assms
proof (cases rule: tree_add_cases [of t key nw val])
  case (insert xs ys)
  then have "key \<notin> fst ` set (kvs t)" by auto
  then show ?thesis using insert by simp
qed simp

subsection \<open>Colours and black heights\<close>

fun path_invh :: "('k, 'v) crumb list \<Rightarrow> nat \<Rightarrow> bool" where
  "path_invh [] n = True"
| "path_invh (p # ps) n \<longleftrightarrow> invh (sibling p) \<and> bheight (sibling p) = n
     \<and> path_invh ps (if ccol p = BLACK then n + 1 else n)"

fun path_invc :: "('k, 'v) crumb list \<Rightarrow> colour \<Rightarrow> bool" where
  "path_invc [] c = True"
| "path_invc (p # ps) c \<longleftrightarrow> invc (sibling p) \<and> (ccol p = RED \<longrightarrow> c = BLACK \<and> col (sibling p) = BLACK)
     \<and> path_invc ps (ccol p)"

lemma plug1_inv:
  "col (plug1 t p) = ccol p"
  "invc (plug1 t p) \<longleftrightarrow> invc t \<and> invc (sibling p) \<and> (ccol p = RED \<longrightarrow> col t = BLACK \<and> col (sibling p) = BLACK)"
  "invh (plug1 t p) \<longleftrightarrow> invh t \<and> invh (sibling p) \<and> bheight (sibling p) = bheight t"
  "bheight (sibling p) = bheight t \<Longrightarrow> bheight (plug1 t p) = (if ccol p = BLACK then bheight t + 1 else bheight t)"
  by (cases p; auto)+

lemma invc_plug: "invc (plug t ps) \<longleftrightarrow> invc t \<and> path_invc ps (col t)"
  by (induction ps arbitrary: t) (auto simp: plug1_inv)

lemma invh_plug: "invh (plug t ps) \<longleftrightarrow> invh t \<and> path_invh ps (bheight t)"
proof (induction ps arbitrary: t)
  case (Cons p ps)
  then show ?case by (cases "bheight (sibling p) = bheight t") (simp_all add: plug1_inv)
qed simp

lemma colour_not [simp]: "c \<noteq> BLACK \<longleftrightarrow> c = RED" "c \<noteq> RED \<longleftrightarrow> c = BLACK"
  by (cases c; simp)+

lemma blacken_inv [simp]:
  "invh (blacken t) = invh t" "col (blacken t) = BLACK" "invc t \<Longrightarrow> invc (blacken t)"
  "bheight (blacken t) = (if col t = RED then bheight t + 1 else bheight t)"
  by (cases t; auto)+

text \<open>
  The loop invariant: the subtree at \<open>x\<close> is a red-black tree with a red root, and its context
  would be one around a black root.
\<close>

definition fix_inv :: "('k, 'v) mtree \<Rightarrow> ('k, 'v) crumb list \<Rightarrow> bool" where
  "fix_inv x ps \<longleftrightarrow> col x = RED \<and> invc x \<and> invh x \<and> path_invc ps BLACK \<and> path_invh ps (bheight x)"

lemma flipped_inv:
  assumes "fix_inv x (p # g # ps)" "ccol p = RED" "col (sibling g) = RED"
  shows "fix_inv (flipped x p g) ps"
proof (cases g)
  case (InLeft ga gc gk gv u)
  then show ?thesis using assms by (cases p) (auto simp: fix_inv_def)
next
  case (InRight u ga gc gk gv)
  then show ?thesis using assms by (cases p) (auto simp: fix_inv_def)
qed

lemma rotated_inv:
  assumes "fix_inv x (p # g # ps)" "ccol p = RED" "col (sibling g) = BLACK"
  shows "invc (plug (rotated x p g) ps) \<and> invh (plug (rotated x p g) ps)"
proof (cases x)
  case Tip
  then show ?thesis using assms by (simp add: fix_inv_def)
next
  case (Br xl xa xc xk xv xr)
  then show ?thesis using assms
    by (cases p; cases g) (auto simp: fix_inv_def invc_plug invh_plug)
qed

lemma fixup_inv:
  assumes "fix_inv x ps"
  shows "invc (blacken (fixup x ps)) \<and> invh (fixup x ps)"
  using assms
proof (induction x ps rule: fixup.induct)
  case (1 x)
  then show ?case by (auto simp: fix_inv_def)
next
  case (2 x p)
  then show ?case by (cases p) (auto simp: fix_inv_def)
next
  case (3 x p g ps)
  show ?case
  proof (cases "ccol p = BLACK")
    case True
    then show ?thesis using 3(2)
      by (auto simp: invc_plug invh_plug plug1_inv fix_inv_def)
  next
    case False
    then show ?thesis using 3 flipped_inv [of x p g ps] rotated_inv [of x p g ps] by auto
  qed
qed

lemma fix_inv_new:
  assumes "invc (plug1 Tip p)" "invh (plug (plug1 Tip p) ps)" "path_invc ps (ccol p)"
  shows "fix_inv (Br Tip nw RED k v Tip) (p # ps)"
  using assms by (cases p) (auto simp: fix_inv_def invh_plug)

lemma rbt_tree_add:
  assumes "rbt t"
  shows "rbt (tree_add nw key val t)"
proof -
  obtain t' ps where d: "descend key t [] = (t', ps)" by fastforce
  note pl = descend_plug [OF d, simplified]
  have inv: "invc (plug t' ps)" "invh (plug t' ps)" "col (plug t' ps) = BLACK"
    using assms pl by (simp_all add: rbt_def)
  show ?thesis
  proof (cases t')
    case Tip
    then show ?thesis using d by (simp add: tree_add_def rbt_def)
  next
    case (Br l a c k v r)
    have new: "rbt (blacken (fixup (Br Tip nw RED key val Tip) (p # ps)))" if "plug1 Tip p = t'" for p
    proof -
      have "fix_inv (Br Tip nw RED key val Tip) (p # ps)"
        using inv that by (intro fix_inv_new) (auto simp: invc_plug plug1_inv(1))
      then show ?thesis using fixup_inv by (simp add: rbt_def)
    qed
    have col: "col (plug (Br l a c k v' r) ps) = col (plug (Br l a c k v r) ps)" for v'
      by (induction ps rule: rev_induct) (auto simp: plug_snoc plug1_inv)
    consider "key = k" | "key < k" "l = Tip" | "k < key" "r = Tip"
      using descend_stop d Br by metis
    then show ?thesis
    proof cases
      case 1
      then show ?thesis using d Br inv col [of val] by (simp add: tree_add_def rbt_def invc_plug invh_plug)
    next
      case 2
      then show ?thesis using d Br new [of "InLeft a c k v r"] by (auto simp: tree_add_def)
    next
      case 3
      then show ?thesis using d Br new [of "InRight l a c k v"] by (auto simp: tree_add_def)
    qed
  qed
qed

subsection \<open>Lookup\<close>

lemma map_of_tree_find:
  "bst t \<Longrightarrow> map_of (kvs t) key = (case tree_find key t of Tip \<Rightarrow> None | Br l a c k v r \<Rightarrow> Some v)"
proof (induction key t rule: tree_find.induct)
  case (2 key l a c k v r)
  have "bst (plug (Br l a c k v r) [])" using 2(3) by simp
  note parts = bst_plug_parts [OF this]
  have b: "bst l" "bst r" using 2(3) by (simp_all add: bst_def sorted_wrt_append)
  have N: "map_of (kvs t) key = None" if "\<forall>b \<in> set (inorder t). fst (snd b) \<noteq> key" for t :: "('a, 'b) mtree"
    using that by (auto simp: map_of_eq_None_iff)
  have l: "map_of (kvs l) key = None" if "k \<le> key" using parts(2) that by (intro N) force
  have r: "map_of (kvs r) key = None" if "key \<le> k" using parts(3) that by (intro N) force
  show ?case using 2(1,2) b l r by (auto simp: map_add_def split: option.splits)
qed simp

subsection \<open>Depth\<close>

lemma rbt_height: "invc t \<Longrightarrow> invh t \<Longrightarrow> height t \<le> 2 * bheight t + (if col t = RED then 1 else 0)"
proof (induction t)
  case (Br l a c k v r)
  then show ?case by (cases c) (auto split: if_splits)
qed simp

lemma bheight_size: "invh t \<Longrightarrow> 2 ^ bheight t \<le> length (inorder t) + 1"
proof (induction t)
  case (Br l a c k v r)
  then have "2 ^ bheight l \<le> length (inorder l) + 1" "2 ^ bheight l \<le> length (inorder r) + 1" by auto
  then show ?case by simp
qed simp

lemma rbt_depth:
  assumes "rbt t"
  shows "2 ^ height t \<le> (length (inorder t) + 1)\<^sup>2"
proof -
  have "height t \<le> 2 * bheight t" using rbt_height [of t] assms by (simp add: rbt_def)
  then have "(2::nat) ^ height t \<le> 2 ^ (2 * bheight t)" by (intro power_increasing) auto
  also have "\<dots> = (2 ^ bheight t)\<^sup>2" by (simp add: power_mult mult.commute)
  also have "\<dots> \<le> (length (inorder t) + 1)\<^sup>2"
    using bheight_size [of t] assms by (intro power_mono) (auto simp: rbt_def)
  finally show ?thesis .
qed

subsection \<open>Breadth-first order\<close>

fun subtrees :: "('k, 'v) mtree \<Rightarrow> ('k, 'v) mtree list" where
  "subtrees Tip = []"
| "subtrees (Br l a c k v r) = filter (\<lambda>t. t \<noteq> Tip) [l, r]"

lemma size_subtrees: "sum_list (map size (subtrees t)) \<le> size t"
  by (cases t) auto

function level_order :: "('k, 'v) mtree list \<Rightarrow> ('k \<times> 'v) list" where
  "level_order [] = []"
| "level_order (Tip # ts) = level_order ts"
| "level_order (Br l a c k v r # ts) = (k, v) # level_order (ts @ subtrees (Br l a c k v r))"
  by pat_completeness auto
termination
  by (relation "measure (\<lambda>ts. length ts + 2 * sum_list (map size ts))") auto

lemma mset_level_order: "mset (level_order ts) = sum_list (map (\<lambda>t. mset (kvs t)) ts)"
  by (induction ts rule: level_order.induct) auto

end
