(* ===== verification/Util_Map.thy ===== *)
theory Util_Map
  imports Map_Tree
begin

text \<open>
  The map of \<^verbatim>\<open>include/infos/util/map.h\<close>, a red-black tree with parent pointers, at the level of
  its nodes. The operations (\<^verbatim>\<open>add\<close> with the loop of \<^verbatim>\<open>rebalance_insert\<close> and both rotations, the
  three lookups, \<^verbatim>\<open>clear\<close> with the recursive destructor and the breadth-first iterator) follow
  the pointers of a heap of \<^verbatim>\<open>MapNode\<close>s. The lemmas relate that heap to trees whose nodes carry
  their addresses: every loop returns, the tree stays a search tree and a red-black tree, and
  the operations are those of a finite map.

  Addresses are natural numbers, 0 is \<^verbatim>\<open>NULL\<close>; the result \<open>None\<close> is a failed assertion or an
  access through \<^verbatim>\<open>NULL\<close>. The address of a new node is an argument of \<^verbatim>\<open>add\<close>.
\<close>

record ('k, 'v) map_node =
  Key :: 'k
  Value :: 'v
  Colour :: colour
  Parent :: ptr
  Left :: ptr
  Right :: ptr

record ('k, 'v) cpp_map =
  mheap :: "ptr \<rightharpoonup> ('k, 'v) map_node"
  root :: ptr
  mcount :: u32

definition map_node_init :: "'k \<Rightarrow> 'v \<Rightarrow> ('k, 'v) map_node" where
  "map_node_init k v = \<lparr>Key = k, Value = v, Colour = RED, Parent = 0, Left = 0, Right = 0\<rparr>"

text \<open>Reading and writing a field of the node at an address.\<close>

definition node :: "ptr \<Rightarrow> ('k, 'v) cpp_map \<Rightarrow> ('k, 'v) map_node option" where
  "node p s = load (mheap s) p"

definition upd :: "ptr \<Rightarrow> (('k, 'v) map_node \<Rightarrow> ('k, 'v) map_node) \<Rightarrow> ('k, 'v) cpp_map \<Rightarrow> ('k, 'v) cpp_map option" where
  "upd p f s = do { n \<leftarrow> node p s; Some (s\<lparr>mheap := (mheap s)(p \<mapsto> f n)\<rparr>) }"

abbreviation paint :: "ptr \<Rightarrow> colour \<Rightarrow> ('k, 'v) cpp_map \<Rightarrow> ('k, 'v) cpp_map option" where
  "paint p c \<equiv> upd p (Colour_update (\<lambda>_. c))"

definition i_am_left :: "ptr \<Rightarrow> ('k, 'v) cpp_map \<Rightarrow> bool option" where
  "i_am_left this s = do {
     n \<leftarrow> node this s;
     p \<leftarrow> node (Parent n) s;
     Some (this = Left p) }"

definition grandparent :: "ptr \<Rightarrow> ('k, 'v) cpp_map \<Rightarrow> ptr option" where
  "grandparent this s = do {
     n \<leftarrow> node this s;
     if Parent n = 0 then Some 0 else map_option Parent (node (Parent n) s) }"

definition set_left :: "ptr \<Rightarrow> ptr \<Rightarrow> ('k, 'v) cpp_map \<Rightarrow> ('k, 'v) cpp_map option" where
  "set_left this n s = do {
     s \<leftarrow> upd this (Left_update (\<lambda>_. n)) s;
     if n \<noteq> 0 then upd n (Parent_update (\<lambda>_. this)) s else Some s }"

definition set_right :: "ptr \<Rightarrow> ptr \<Rightarrow> ('k, 'v) cpp_map \<Rightarrow> ('k, 'v) cpp_map option" where
  "set_right this n s = do {
     s \<leftarrow> upd this (Right_update (\<lambda>_. n)) s;
     if n \<noteq> 0 then upd n (Parent_update (\<lambda>_. this)) s else Some s }"

text \<open>The part the two rotations share: \<open>pivot\<close> takes the place of \<open>n\<close> below its parent.\<close>

definition replace_child :: "ptr \<Rightarrow> ptr \<Rightarrow> ('k, 'v) cpp_map \<Rightarrow> ('k, 'v) cpp_map option" where
  "replace_child n pivot s = do {
     nn \<leftarrow> node n s;
     if Parent nn = 0 then upd pivot (Parent_update (\<lambda>_. 0)) (s\<lparr>root := pivot\<rparr>)
     else do {
       lft \<leftarrow> i_am_left n s;
       if lft then set_left (Parent nn) pivot s else set_right (Parent nn) pivot s } }"

definition rotate_right :: "ptr \<Rightarrow> ('k, 'v) cpp_map \<Rightarrow> ('k, 'v) cpp_map option" where
  "rotate_right n s = do {
     nn \<leftarrow> node n s;
     let pivot = Left nn;
     guard (pivot \<noteq> 0);
     s \<leftarrow> replace_child n pivot s;
     pn \<leftarrow> node pivot s;
     s \<leftarrow> set_left n (Right pn) s;
     set_right pivot n s }"

definition rotate_left :: "ptr \<Rightarrow> ('k, 'v) cpp_map \<Rightarrow> ('k, 'v) cpp_map option" where
  "rotate_left n s = do {
     nn \<leftarrow> node n s;
     let pivot = Right nn;
     guard (pivot \<noteq> 0);
     s \<leftarrow> replace_child n pivot s;
     pn \<leftarrow> node pivot s;
     s \<leftarrow> set_right n (Left pn) s;
     set_left pivot n s }"

text \<open>\<^verbatim>\<open>y && y->red()\<close>\<close>

definition is_red :: "ptr \<Rightarrow> ('k, 'v) cpp_map \<Rightarrow> bool option" where
  "is_red y s = (if y = 0 then Some False else map_option (\<lambda>n. Colour n = RED) (node y s))"

definition parent_of :: "ptr \<Rightarrow> ('k, 'v) cpp_map \<Rightarrow> ptr option" where
  "parent_of x s = map_option Parent (node x s)"

text \<open>
  The body of the loop of \<^verbatim>\<open>rebalance_insert\<close>, for a parent that is red: the next \<open>x\<close> and the
  next state. The two arms are mirror images.
\<close>

definition recolour :: "ptr \<Rightarrow> ptr \<Rightarrow> ('k, 'v) cpp_map \<Rightarrow> (ptr \<times> ('k, 'v) cpp_map) option" where
  "recolour x y s = do {
     p \<leftarrow> parent_of x s;
     s \<leftarrow> paint p BLACK s;
     s \<leftarrow> paint y BLACK s;
     g \<leftarrow> grandparent x s;
     s \<leftarrow> paint g RED s;
     g \<leftarrow> grandparent x s;
     Some (g, s) }"

definition finish_left :: "ptr \<Rightarrow> ('k, 'v) cpp_map \<Rightarrow> ('k, 'v) cpp_map option" where
  "finish_left x s = do {
     p \<leftarrow> parent_of x s;
     s \<leftarrow> paint p BLACK s;
     g \<leftarrow> grandparent x s;
     s \<leftarrow> paint g RED s;
     g \<leftarrow> grandparent x s;
     rotate_right g s }"

definition rebalance_left :: "ptr \<Rightarrow> ptr \<Rightarrow> ('k, 'v) cpp_map \<Rightarrow> (ptr \<times> ('k, 'v) cpp_map) option" where
  "rebalance_left x y s = do {
     r \<leftarrow> is_red y s;
     if r then recolour x y s
     else do {
       p \<leftarrow> parent_of x s;
       pn \<leftarrow> node p s;
       (x, s) \<leftarrow> (if x = Right pn then map_option (Pair p) (rotate_left p s) else Some (x, s));
       s \<leftarrow> finish_left x s;
       Some (x, s) } }"

definition finish_right :: "ptr \<Rightarrow> ('k, 'v) cpp_map \<Rightarrow> ('k, 'v) cpp_map option" where
  "finish_right x s = do {
     p \<leftarrow> parent_of x s;
     s \<leftarrow> paint p BLACK s;
     g \<leftarrow> grandparent x s;
     s \<leftarrow> paint g RED s;
     g \<leftarrow> grandparent x s;
     rotate_left g s }"

definition rebalance_right :: "ptr \<Rightarrow> ptr \<Rightarrow> ('k, 'v) cpp_map \<Rightarrow> (ptr \<times> ('k, 'v) cpp_map) option" where
  "rebalance_right x y s = do {
     r \<leftarrow> is_red y s;
     if r then recolour x y s
     else do {
       p \<leftarrow> parent_of x s;
       pn \<leftarrow> node p s;
       (x, s) \<leftarrow> (if x = Left pn then map_option (Pair p) (rotate_right p s) else Some (x, s));
       s \<leftarrow> finish_right x s;
       Some (x, s) } }"

definition rebalance_step :: "ptr \<Rightarrow> ('k, 'v) cpp_map \<Rightarrow> (ptr \<times> ('k, 'v) cpp_map) option" where
  "rebalance_step x s = do {
     p \<leftarrow> parent_of x s;
     g \<leftarrow> grandparent x s;
     gn \<leftarrow> node g s;
     if p = Left gn then rebalance_left x (Right gn) s else rebalance_right x (Left gn) s }"

partial_function (option) rebalance_loop :: "ptr \<Rightarrow> ('k, 'v) cpp_map \<Rightarrow> ('k, 'v) cpp_map option" where
  "rebalance_loop x s = do {
     p \<leftarrow> parent_of x s;
     r \<leftarrow> is_red p s;
     if r then do { (x, s) \<leftarrow> rebalance_step x s; rebalance_loop x s } else Some s }"

definition rebalance_insert :: "ptr \<Rightarrow> ('k, 'v) cpp_map \<Rightarrow> ('k, 'v) cpp_map option" where
  "rebalance_insert nw s = do {
     s \<leftarrow> paint nw RED s;
     s \<leftarrow> rebalance_loop nw s;
     paint (root s) BLACK s }"

text \<open>The loop of \<^verbatim>\<open>add\<close> that looks for the node with the key or the parent of the new node.\<close>

partial_function (option) find_owner :: "'k::linorder \<Rightarrow> ('k, 'v) cpp_map \<Rightarrow> ptr \<Rightarrow> ptr option" where
  "find_owner key s owner =
     (if owner = 0 then Some 0
      else do {
        n \<leftarrow> node owner s;
        if key < Key n then (if Left n = 0 then Some owner else find_owner key s (Left n))
        else if key > Key n then (if Right n = 0 then Some owner else find_owner key s (Right n))
        else Some owner })"

definition map_new :: "ptr \<Rightarrow> 'k \<Rightarrow> 'v \<Rightarrow> ('k, 'v) cpp_map \<Rightarrow> ('k, 'v) cpp_map option" where
  "map_new nw key val s = do {
     guard (nw \<noteq> 0);
     Some (s\<lparr>mheap := (mheap s)(nw \<mapsto> map_node_init key val)\<rparr>) }"

definition add_key :: "ptr \<Rightarrow> 'k::linorder \<Rightarrow> 'v \<Rightarrow> ('k, 'v) cpp_map \<Rightarrow> ('k, 'v) cpp_map option" where
  "add_key nw key val s = do {
     owner \<leftarrow> find_owner key s (root s);
     if owner \<noteq> 0 then do {
       n \<leftarrow> node owner s;
       if key = Key n then upd owner (Value_update (\<lambda>_. val)) s
       else do {
         s \<leftarrow> map_new nw key val s;
         s \<leftarrow> (if key < Key n then set_left owner nw s else set_right owner nw s);
         s \<leftarrow> rebalance_insert nw s;
         Some (s\<lparr>mcount := mcount s + 1\<rparr>) } }
     else do {
       s \<leftarrow> map_new nw key val s;
       s \<leftarrow> paint nw BLACK (s\<lparr>root := nw\<rparr>);
       Some (s\<lparr>mcount := mcount s + 1\<rparr>) } }"

text \<open>\<^verbatim>\<open>remove\<close> has an empty body in the source.\<close>

definition map_remove :: "'k \<Rightarrow> ('k, 'v) cpp_map \<Rightarrow> ('k, 'v) cpp_map" where
  "map_remove key s = s"

text \<open>The destructor of a node deletes its subtrees first.\<close>

partial_function (option) delete_tree ::
  "ptr \<Rightarrow> (ptr \<rightharpoonup> ('k, 'v) map_node) \<Rightarrow> (ptr \<rightharpoonup> ('k, 'v) map_node) option" where
  "delete_tree p h = do {
     n \<leftarrow> load h p;
     h \<leftarrow> (if Left n \<noteq> 0 then delete_tree (Left n) h else Some h);
     h \<leftarrow> (if Right n \<noteq> 0 then delete_tree (Right n) h else Some h);
     Some (h(p := None)) }"

definition map_init :: "('k, 'v) cpp_map" where
  "map_init = \<lparr>mheap = Map.empty, root = 0, mcount = 0\<rparr>"

definition map_destroy :: "('k, 'v) cpp_map \<Rightarrow> (ptr \<rightharpoonup> ('k, 'v) map_node) option" where
  "map_destroy s = (if root s \<noteq> 0 then delete_tree (root s) (mheap s) else Some (mheap s))"

definition map_clear :: "('k, 'v) cpp_map \<Rightarrow> ('k, 'v) cpp_map option" where
  "map_clear s = do {
     h \<leftarrow> (if root s \<noteq> 0 then delete_tree (root s) (mheap s) else Some (mheap s));
     Some \<lparr>mheap = h, root = 0, mcount = 0\<rparr> }"

text \<open>The search loop of the three lookups: the node with the key, or \<^verbatim>\<open>NULL\<close>.\<close>

partial_function (option) find_node :: "'k::linorder \<Rightarrow> ('k, 'v) cpp_map \<Rightarrow> ptr \<Rightarrow> ptr option" where
  "find_node key s p =
     (if p = 0 then Some 0
      else do {
        n \<leftarrow> node p s;
        if key < Key n then find_node key s (Left n)
        else if key > Key n then find_node key s (Right n)
        else Some p })"

definition contains_key :: "'k::linorder \<Rightarrow> ('k, 'v) cpp_map \<Rightarrow> bool option" where
  "contains_key key s = map_option (\<lambda>p. p \<noteq> 0) (find_node key s (root s))"

definition try_get_value :: "'k::linorder \<Rightarrow> ('k, 'v) cpp_map \<Rightarrow> 'v option option" where
  "try_get_value key s = do {
     p \<leftarrow> find_node key s (root s);
     if p = 0 then Some None else map_option (\<lambda>n. Some (Value n)) (node p s) }"

text \<open>\<^verbatim>\<open>get_value\<close> has no return statement after its loop: a missing key is undefined behaviour.\<close>

definition get_value :: "'k::linorder \<Rightarrow> ('k, 'v) cpp_map \<Rightarrow> 'v option" where
  "get_value key s = do {
     p \<leftarrow> find_node key s (root s);
     map_option Value (node p s) }"

definition map_count :: "('k, 'v) cpp_map \<Rightarrow> u32" where
  "map_count s = mcount s"

text \<open>The iterator: a queue of nodes still to be visited and the current node.\<close>

record map_iter =
  iqueue :: "ptr list"
  icurrent :: ptr

definition advance :: "('k, 'v) cpp_map \<Rightarrow> map_iter \<Rightarrow> map_iter option" where
  "advance s it =
     (case iqueue it of
        [] \<Rightarrow> Some (it\<lparr>icurrent := 0\<rparr>)
      | c # q \<Rightarrow> do {
          n \<leftarrow> node c s;
          let q = (if Left n \<noteq> 0 then q @ [Left n] else q);
          let q = (if Right n \<noteq> 0 then q @ [Right n] else q);
          Some \<lparr>iqueue = q, icurrent = c\<rparr> })"

definition map_begin :: "('k, 'v) cpp_map \<Rightarrow> map_iter option" where
  "map_begin s =
     (if root s \<noteq> 0 then advance s \<lparr>iqueue = [root s], icurrent = root s\<rparr>
      else Some \<lparr>iqueue = [], icurrent = 0\<rparr>)"

text \<open>A range-for loop over the map: the pairs it visits, in order.\<close>

partial_function (option) iterate_from :: "('k, 'v) cpp_map \<Rightarrow> map_iter \<Rightarrow> ('k \<times> 'v) list option" where
  "iterate_from s it =
     (if icurrent it = 0 then Some []
      else do {
        n \<leftarrow> node (icurrent it) s;
        it \<leftarrow> advance s it;
        kvs \<leftarrow> iterate_from s it;
        Some ((Key n, Value n) # kvs) })"

definition map_iterate :: "('k, 'v) cpp_map \<Rightarrow> ('k \<times> 'v) list option" where
  "map_iterate s = do { it \<leftarrow> map_begin s; iterate_from s it }"

subsection \<open>The tree in the heap\<close>

fun tree_at :: "(ptr \<rightharpoonup> ('k, 'v) map_node) \<Rightarrow> ptr \<Rightarrow> ('k, 'v) mtree \<Rightarrow> bool" where
  "tree_at h par Tip \<longleftrightarrow> True"
| "tree_at h par (Br l a c k v r) \<longleftrightarrow> a \<noteq> 0
     \<and> h a = Some \<lparr>Key = k, Value = v, Colour = c, Parent = par, Left = addr l, Right = addr r\<rparr>
     \<and> tree_at h a l \<and> tree_at h a r"

fun par_of :: "('k, 'v) crumb list \<Rightarrow> ptr" where
  "par_of [] = 0"
| "par_of (p # ps) = caddr p"

fun crumb_node :: "('k, 'v) crumb \<Rightarrow> ptr \<Rightarrow> ptr \<Rightarrow> ('k, 'v) map_node" where
  "crumb_node (InLeft a c k v r) par x =
     \<lparr>Key = k, Value = v, Colour = c, Parent = par, Left = x, Right = addr r\<rparr>"
| "crumb_node (InRight l a c k v) par x =
     \<lparr>Key = k, Value = v, Colour = c, Parent = par, Left = addr l, Right = x\<rparr>"

fun path_at :: "(ptr \<rightharpoonup> ('k, 'v) map_node) \<Rightarrow> ('k, 'v) crumb list \<Rightarrow> ptr \<Rightarrow> bool" where
  "path_at h [] x \<longleftrightarrow> True"
| "path_at h (p # ps) x \<longleftrightarrow> caddr p \<noteq> 0 \<and> h (caddr p) = Some (crumb_node p (par_of ps) x)
     \<and> tree_at h (caddr p) (sibling p) \<and> path_at h ps (caddr p)"

text \<open>The addresses of a tree and of a context.\<close>

fun taddrs :: "('k, 'v) mtree \<Rightarrow> ptr list" where
  "taddrs Tip = []"
| "taddrs (Br l a c k v r) = taddrs l @ a # taddrs r"

lemma taddrs_inorder: "taddrs t = map fst (inorder t)"
  by (induction t) simp_all

fun crumb_addrs :: "('k, 'v) crumb list \<Rightarrow> ptr list" where
  "crumb_addrs [] = []"
| "crumb_addrs (p # ps) = caddr p # taddrs (sibling p) @ crumb_addrs ps"

lemma addr_plug1 [simp]: "addr (plug1 t p) = caddr p"
  by (cases p) simp_all

lemma tree_at_plug1:
  "tree_at h par (plug1 t p) \<longleftrightarrow> caddr p \<noteq> 0 \<and> h (caddr p) = Some (crumb_node p par (addr t))
     \<and> tree_at h (caddr p) (sibling p) \<and> tree_at h (caddr p) t"
  by (cases p) auto

lemma tree_at_plug: "tree_at h 0 (plug t ps) \<longleftrightarrow> path_at h ps (addr t) \<and> tree_at h (par_of ps) t"
  by (induction ps arbitrary: t) (auto simp: tree_at_plug1)

lemma addr_plug: "addr (plug t ps) = (if ps = [] then addr t else caddr (last ps))"
  by (induction ps arbitrary: t) auto

lemma mset_plug1: "mset (taddrs (plug1 t p)) = add_mset (caddr p) (mset (taddrs t) + mset (taddrs (sibling p)))"
  by (cases p) auto

lemma mset_plug: "mset (taddrs (plug t ps)) = mset (taddrs t) + mset (crumb_addrs ps)"
proof (induction ps arbitrary: t)
  case (Cons p ps)
  show ?case unfolding plug.simps Cons mset_plug1 by simp
qed simp

lemma distinct_mset: "mset xs = mset ys \<Longrightarrow> distinct xs = distinct ys"
  by (metis distinct_count_atmost_1 set_mset_mset)

lemma distinct_plug: "distinct (taddrs (plug t ps)) \<longleftrightarrow> distinct (taddrs t @ crumb_addrs ps)"
  by (rule distinct_mset) (simp add: mset_plug)

lemma set_plug: "set (taddrs (plug t ps)) = set (taddrs t) \<union> set (crumb_addrs ps)"
  using arg_cong [OF mset_plug, of set_mset] by simp

lemma tree_at_nonnull: "tree_at h par t \<Longrightarrow> a \<in> set (taddrs t) \<Longrightarrow> a \<noteq> 0 \<and> a \<in> dom h"
  by (induction t arbitrary: par) auto

lemma addr_in: "t \<noteq> Tip \<Longrightarrow> addr t \<in> set (taddrs t)"
  by (cases t) auto

lemma tree_at_cong [heap_frame]:
  "\<forall>a \<in> set (taddrs t). h' a = h a \<Longrightarrow> tree_at h' par t \<longleftrightarrow> tree_at h par t"
  by (induction t arbitrary: par) auto

lemma path_at_cong [heap_frame]:
  "\<forall>a \<in> set (crumb_addrs ps). h' a = h a \<Longrightarrow> path_at h' ps x \<longleftrightarrow> path_at h ps x"
proof (induction ps arbitrary: x)
  case (Cons p ps)
  then show ?case using tree_at_cong [of "sibling p" h' h "caddr p"] by simp
qed simp

lemma tree_at_upd [heap_frame]:
  "a \<notin> set (taddrs t) \<Longrightarrow> tree_at (h(a := v)) par t \<longleftrightarrow> tree_at h par t"
  by (rule tree_at_cong) auto

lemma path_at_upd [heap_frame]:
  "a \<notin> set (crumb_addrs ps) \<Longrightarrow> path_at (h(a := v)) ps x \<longleftrightarrow> path_at h ps x"
  by (rule path_at_cong) auto

text \<open>A map object whose root pointer leads to the tree \<open>t\<close>.\<close>

definition tree_rep :: "('k, 'v) cpp_map \<Rightarrow> ('k, 'v) mtree \<Rightarrow> bool" where
  "tree_rep s t \<longleftrightarrow> tree_at (mheap s) 0 t \<and> distinct (taddrs t) \<and> root s = addr t"

text \<open>The two states agree outside a set of addresses, on the counter and on the root pointer.\<close>

definition same_but :: "ptr set \<Rightarrow> ('k, 'v) cpp_map \<Rightarrow> ('k, 'v) cpp_map \<Rightarrow> bool" where
  "same_but A s s' \<longleftrightarrow> mcount s' = mcount s \<and> (\<forall>a. a \<notin> A \<longrightarrow> mheap s' a = mheap s a)"

lemma same_but_trans: "same_but A s s' \<Longrightarrow> same_but B s' s'' \<Longrightarrow> A \<union> B \<subseteq> C \<Longrightarrow> same_but C s s''"
  unfolding same_but_def by (metis Un_iff subset_iff)

lemma same_but_tree: "same_but A s s' \<Longrightarrow> A \<inter> set (taddrs t) = {} \<Longrightarrow> tree_at (mheap s') par t = tree_at (mheap s) par t"
  by (rule tree_at_cong) (auto simp: same_but_def)

lemma same_but_path: "same_but A s s' \<Longrightarrow> A \<inter> set (crumb_addrs ps) = {} \<Longrightarrow> path_at (mheap s') ps x = path_at (mheap s) ps x"
  by (rule path_at_cong) (auto simp: same_but_def)

lemma upd_Some:
  "p \<noteq> 0 \<Longrightarrow> mheap s p = Some n \<Longrightarrow> upd p f s = Some (s\<lparr>mheap := (mheap s)(p \<mapsto> f n)\<rparr>)"
  by (simp add: upd_def node_def load_def)

lemma adopt:
  assumes "tree_at h q t" "distinct (taddrs t)" "t \<noteq> Tip"
  obtains n where "h (addr t) = Some n" "addr t \<noteq> 0" "tree_at (h(addr t \<mapsto> n\<lparr>Parent := q'\<rparr>)) q' t"
  using assms by (cases t) (auto simp: heap_frame)

lemma set_left_tree:
  assumes "mheap s this = Some tn" "this \<noteq> 0" "this \<notin> set (taddrs t)"
    "tree_at (mheap s) q t" "distinct (taddrs t)"
  obtains s' where "set_left this (addr t) s = Some s'" "mheap s' this = Some (tn\<lparr>Left := addr t\<rparr>)"
    "tree_at (mheap s') this t" "same_but (insert this (set (taddrs t))) s s'" "root s' = root s"
proof (cases "t = Tip")
  case True
  then show ?thesis using that assms by (simp add: set_left_def upd_Some same_but_def)
next
  case False
  let ?h = "(mheap s)(this \<mapsto> tn\<lparr>Left := addr t\<rparr>)"
  have "tree_at ?h q t" using assms by (simp add: heap_frame)
  then obtain n where n: "?h (addr t) = Some n" "addr t \<noteq> 0"
    "tree_at (?h(addr t \<mapsto> n\<lparr>Parent := this\<rparr>)) this t"
    using adopt [OF _ assms(5) False] by metis
  have "addr t \<noteq> this" using addr_in [OF False] assms(3) by auto
  with n show ?thesis using assms(1,2) addr_in [OF False] that [of "s\<lparr>mheap := ?h(addr t \<mapsto> n\<lparr>Parent := this\<rparr>)\<rparr>"]
    by (auto simp: set_left_def upd_Some same_but_def)
qed

lemma set_right_tree:
  assumes "mheap s this = Some tn" "this \<noteq> 0" "this \<notin> set (taddrs t)"
    "tree_at (mheap s) q t" "distinct (taddrs t)"
  obtains s' where "set_right this (addr t) s = Some s'" "mheap s' this = Some (tn\<lparr>Right := addr t\<rparr>)"
    "tree_at (mheap s') this t" "same_but (insert this (set (taddrs t))) s s'" "root s' = root s"
proof (cases "t = Tip")
  case True
  then show ?thesis using that assms by (simp add: set_right_def upd_Some same_but_def)
next
  case False
  let ?h = "(mheap s)(this \<mapsto> tn\<lparr>Right := addr t\<rparr>)"
  have "tree_at ?h q t" using assms by (simp add: heap_frame)
  then obtain n where n: "?h (addr t) = Some n" "addr t \<noteq> 0"
    "tree_at (?h(addr t \<mapsto> n\<lparr>Parent := this\<rparr>)) this t"
    using adopt [OF _ assms(5) False] by metis
  have "addr t \<noteq> this" using addr_in [OF False] assms(3) by auto
  with n show ?thesis using assms(1,2) addr_in [OF False] that [of "s\<lparr>mheap := ?h(addr t \<mapsto> n\<lparr>Parent := this\<rparr>)\<rparr>"]
    by (auto simp: set_right_def upd_Some same_but_def)
qed

lemma i_am_left_path:
  assumes "path_at (mheap s) (p # ps) n" "mheap s n = Some nn" "Parent nn = caddr p" "n \<noteq> 0"
    "n \<notin> set (crumb_addrs (p # ps))"
  shows "i_am_left n s = Some (case p of InLeft a c k v r \<Rightarrow> True | InRight l a c k v \<Rightarrow> False)"
proof (cases p)
  case (InRight l a c k v)
  then have "n \<noteq> addr l" using assms(4,5) addr_in [of l] by (cases "l = Tip") auto
  then show ?thesis using assms InRight by (simp add: i_am_left_def node_def load_def)
qed (use assms in \<open>simp add: i_am_left_def node_def load_def\<close>)

lemma replace_child_tree:
  assumes path: "path_at (mheap s) ps n" and n: "mheap s n = Some nn" "Parent nn = par_of ps" "n \<noteq> 0"
    and t: "tree_at (mheap s) n t" "t \<noteq> Tip" and d: "distinct (taddrs t @ crumb_addrs ps)"
    and nd: "n \<notin> set (crumb_addrs ps)"
  obtains s' where "replace_child n (addr t) s = Some s'" "path_at (mheap s') ps (addr t)"
    "tree_at (mheap s') (par_of ps) t" "same_but (set (taddrs t) \<union> set (crumb_addrs ps)) s s'"
    "root s' = (if ps = [] then addr t else root s)"
proof (cases ps)
  case Nil
  obtain m where "mheap s (addr t) = Some m" "addr t \<noteq> 0" "tree_at ((mheap s)(addr t \<mapsto> m\<lparr>Parent := 0\<rparr>)) 0 t"
    using adopt [OF t(1) _ t(2), of 0] d by auto
  then show ?thesis using Nil n addr_in [OF t(2)]
      that [of "s\<lparr>root := addr t, mheap := (mheap s)(addr t \<mapsto> m\<lparr>Parent := 0\<rparr>)\<rparr>"]
    by (auto simp: replace_child_def node_def load_def upd_def same_but_def)
next
  case (Cons p ps')
  have pn: "mheap s (caddr p) = Some (crumb_node p (par_of ps') n)" "caddr p \<noteq> 0"
    and sib: "tree_at (mheap s) (caddr p) (sibling p)" and path': "path_at (mheap s) ps' (caddr p)"
    using path Cons by auto
  have dd: "caddr p \<notin> set (taddrs t)" "distinct (taddrs t)"
    "set (taddrs t) \<inter> set (taddrs (sibling p)) = {}" "set (taddrs t) \<inter> set (crumb_addrs ps') = {}"
    "caddr p \<notin> set (taddrs (sibling p))" "caddr p \<notin> set (crumb_addrs ps')"
    using d Cons by auto
  note left = i_am_left_path [of s p ps' n nn] and obt = that
  have fin: thesis if s': "replace_child n (addr t) s = Some s'"
    "mheap s' (caddr p) = Some (crumb_node p (par_of ps') (addr t))" "tree_at (mheap s') (caddr p) t"
    "same_but (insert (caddr p) (set (taddrs t))) s s'" "root s' = root s" for s'
  proof -
    have "tree_at (mheap s') (caddr p) (sibling p)" "path_at (mheap s') ps' (caddr p)"
      using same_but_tree [OF s'(4)] same_but_path [OF s'(4)] dd sib path' by auto
    moreover have "same_but (set (taddrs t) \<union> set (crumb_addrs ps)) s s'"
      using s'(4) Cons by (auto simp: same_but_def)
    ultimately show thesis by (intro obt [of s']) (use s' Cons pn(2) in auto)
  qed
  show ?thesis
  proof (cases p)
    case (InLeft a c k v r)
    from set_left_tree [OF pn dd(1) t(1) dd(2)] obtain s1 where
      "set_left (caddr p) (addr t) s = Some s1" "tree_at (mheap s1) (caddr p) t"
      "mheap s1 (caddr p) = Some ((crumb_node p (par_of ps') n)\<lparr>Left := addr t\<rparr>)"
      "same_but (insert (caddr p) (set (taddrs t))) s s1" "root s1 = root s" by metis
    then show thesis
      by (intro fin [of s1]) (use left n nd path Cons InLeft in \<open>auto simp: replace_child_def node_def load_def\<close>)
  next
    case (InRight l a c k v)
    from set_right_tree [OF pn dd(1) t(1) dd(2)] obtain s1 where
      "set_right (caddr p) (addr t) s = Some s1" "tree_at (mheap s1) (caddr p) t"
      "mheap s1 (caddr p) = Some ((crumb_node p (par_of ps') n)\<lparr>Right := addr t\<rparr>)"
      "same_but (insert (caddr p) (set (taddrs t))) s s1" "root s1 = root s" by metis
    then show thesis
      by (intro fin [of s1]) (use left n nd path Cons InRight in \<open>auto simp: replace_child_def node_def load_def\<close>)
  qed
qed

lemma rotate_right_tree:
  assumes rep: "tree_rep s (plug (Br (Br A p cp kp vp B) n cn kn vn C) ps)"
  obtains s' where "rotate_right n s = Some s'"
    "tree_rep s' (plug (Br A p cp kp vp (Br B n cn kn vn C)) ps)"
    "same_but (set (taddrs (plug (Br (Br A p cp kp vp B) n cn kn vn C) ps))) s s'"
proof -
  let ?T = "Br A p cp kp vp B" and ?nn = "\<lparr>Key = kn, Value = vn, Colour = cn, Parent = par_of ps, Left = p, Right = addr C\<rparr>"
  let ?all = "set (taddrs (plug (Br ?T n cn kn vn C) ps))"
  have path: "path_at (mheap s) ps n" and n: "mheap s n = Some ?nn" "n \<noteq> 0"
    and T: "tree_at (mheap s) n ?T" and C: "tree_at (mheap s) n C"
    using rep by (auto simp: tree_rep_def tree_at_plug)
  have d: "distinct (taddrs A @ p # taddrs B @ n # taddrs C @ crumb_addrs ps)"
    using rep by (auto simp: tree_rep_def distinct_plug)
  then have dB: "set (taddrs B) \<inter> set (taddrs A) = {}" "set (taddrs B) \<inter> set (taddrs C) = {}"
    "set (taddrs B) \<inter> set (crumb_addrs ps) = {}" by auto
  have p: "p \<noteq> 0" using T by simp
  obtain s1 where s1: "replace_child n p s = Some s1" "path_at (mheap s1) ps p" "tree_at (mheap s1) (par_of ps) ?T"
    "same_but (set (taddrs ?T) \<union> set (crumb_addrs ps)) s s1" "root s1 = (if ps = [] then p else root s)"
    by (rule replace_child_tree [OF path n(1) _ n(2) T]) (use d in auto)
  have n1: "mheap s1 n = Some ?nn" and C1: "tree_at (mheap s1) n C"
    using s1(4) n(1) C d by (auto simp: same_but_def) (subst tree_at_cong [of C _ "mheap s"]; auto)
  obtain s2 where s2: "set_left n (addr B) s1 = Some s2" "mheap s2 n = Some (?nn\<lparr>Left := addr B\<rparr>)"
    "tree_at (mheap s2) n B" "same_but (insert n (set (taddrs B))) s1 s2" "root s2 = root s1"
    by (rule set_left_tree [OF n1 n(2), of B p]) (use s1(3) d in auto)
  have p2: "mheap s2 p = Some \<lparr>Key = kp, Value = vp, Colour = cp, Parent = par_of ps, Left = addr A, Right = addr B\<rparr>"
    and A2: "tree_at (mheap s2) p A" and C2: "tree_at (mheap s2) n C" and path2: "path_at (mheap s2) ps p"
    using s1(2,3) C1 d dB same_but_tree [OF s2(4)] same_but_path [OF s2(4)] s2(4) by (auto simp: same_but_def)
  obtain s3 where s3: "set_right p n s2 = Some s3"
    "mheap s3 p = Some \<lparr>Key = kp, Value = vp, Colour = cp, Parent = par_of ps, Left = addr A, Right = n\<rparr>"
    "tree_at (mheap s3) p (Br B n cn kn vn C)" "same_but (insert p (set (taddrs (Br B n cn kn vn C)))) s2 s3" "root s3 = root s2"
    by (rule set_right_tree [OF p2 p, of "Br B n cn kn vn C" "par_of ps"]) (use s2(2,3) C2 n(2) d in auto)
  have "tree_at (mheap s3) p A" "path_at (mheap s3) ps p"
  proof -
    have "(set (taddrs B) \<union> set (taddrs C)) \<inter> set (taddrs A) = {}"
      "(set (taddrs B) \<union> set (taddrs C)) \<inter> set (crumb_addrs ps) = {}" using d by auto
    then show "tree_at (mheap s3) p A" "path_at (mheap s3) ps p"
      using A2 path2 d same_but_tree [OF s3(4)] same_but_path [OF s3(4)] by auto
  qed
  then have "tree_rep s3 (plug (Br A p cp kp vp (Br B n cn kn vn C)) ps)"
    using s3 s2(5) s1(5) d p rep by (auto simp: tree_rep_def tree_at_plug distinct_plug addr_plug)
  moreover have "rotate_right n s = Some s3"
    using n p s1(1,3) s2(1) s3(1) by (simp add: rotate_right_def node_def load_def)
  moreover have "same_but ?all s s3"
    using s1(4) s2(4) s3(4) by (auto simp: same_but_def set_plug)
  ultimately show thesis using that by blast
qed

lemma rotate_left_tree:
  assumes rep: "tree_rep s (plug (Br A n cn kn vn (Br B p cp kp vp C)) ps)"
  obtains s' where "rotate_left n s = Some s'"
    "tree_rep s' (plug (Br (Br A n cn kn vn B) p cp kp vp C) ps)"
    "same_but (set (taddrs (plug (Br A n cn kn vn (Br B p cp kp vp C)) ps))) s s'"
proof -
  let ?T = "Br B p cp kp vp C" and ?nn = "\<lparr>Key = kn, Value = vn, Colour = cn, Parent = par_of ps, Left = addr A, Right = p\<rparr>"
  let ?all = "set (taddrs (plug (Br A n cn kn vn ?T) ps))"
  have path: "path_at (mheap s) ps n" and n: "mheap s n = Some ?nn" "n \<noteq> 0"
    and T: "tree_at (mheap s) n ?T" and A: "tree_at (mheap s) n A"
    using rep by (auto simp: tree_rep_def tree_at_plug)
  have d: "distinct (taddrs A @ n # taddrs B @ p # taddrs C @ crumb_addrs ps)"
    using rep by (auto simp: tree_rep_def distinct_plug)
  then have dB: "set (taddrs B) \<inter> set (taddrs A) = {}" "set (taddrs B) \<inter> set (taddrs C) = {}"
    "set (taddrs B) \<inter> set (crumb_addrs ps) = {}" by auto
  have p: "p \<noteq> 0" using T by simp
  obtain s1 where s1: "replace_child n p s = Some s1" "path_at (mheap s1) ps p" "tree_at (mheap s1) (par_of ps) ?T"
    "same_but (set (taddrs ?T) \<union> set (crumb_addrs ps)) s s1" "root s1 = (if ps = [] then p else root s)"
    by (rule replace_child_tree [OF path n(1) _ n(2) T]) (use d in auto)
  have n1: "mheap s1 n = Some ?nn" and A1: "tree_at (mheap s1) n A"
    using s1(4) n(1) A d by (auto simp: same_but_def) (subst tree_at_cong [of A _ "mheap s"]; auto)
  obtain s2 where s2: "set_right n (addr B) s1 = Some s2" "mheap s2 n = Some (?nn\<lparr>Right := addr B\<rparr>)"
    "tree_at (mheap s2) n B" "same_but (insert n (set (taddrs B))) s1 s2" "root s2 = root s1"
    by (rule set_right_tree [OF n1 n(2), of B p]) (use s1(3) d in auto)
  have p2: "mheap s2 p = Some \<lparr>Key = kp, Value = vp, Colour = cp, Parent = par_of ps, Left = addr B, Right = addr C\<rparr>"
    and C2: "tree_at (mheap s2) p C" and A2: "tree_at (mheap s2) n A" and path2: "path_at (mheap s2) ps p"
    using s1(2,3) A1 d dB same_but_tree [OF s2(4)] same_but_path [OF s2(4)] s2(4) by (auto simp: same_but_def)
  obtain s3 where s3: "set_left p n s2 = Some s3"
    "mheap s3 p = Some \<lparr>Key = kp, Value = vp, Colour = cp, Parent = par_of ps, Left = n, Right = addr C\<rparr>"
    "tree_at (mheap s3) p (Br A n cn kn vn B)" "same_but (insert p (set (taddrs (Br A n cn kn vn B)))) s2 s3" "root s3 = root s2"
    by (rule set_left_tree [OF p2 p, of "Br A n cn kn vn B" "par_of ps"]) (use s2(2,3) A2 n(2) d in auto)
  have "tree_at (mheap s3) p C" "path_at (mheap s3) ps p"
  proof -
    have "(set (taddrs A) \<union> set (taddrs B)) \<inter> set (taddrs C) = {}"
      "(set (taddrs A) \<union> set (taddrs B)) \<inter> set (crumb_addrs ps) = {}" using d by auto
    then show "tree_at (mheap s3) p C" "path_at (mheap s3) ps p"
      using C2 path2 d same_but_tree [OF s3(4)] same_but_path [OF s3(4)] by auto
  qed
  then have "tree_rep s3 (plug (Br (Br A n cn kn vn B) p cp kp vp C) ps)"
    using s3 s2(5) s1(5) d p rep by (auto simp: tree_rep_def tree_at_plug distinct_plug addr_plug)
  moreover have "rotate_left n s = Some s3"
    using n p s1(1,3) s2(1) s3(1) by (simp add: rotate_left_def node_def load_def)
  moreover have "same_but ?all s s3"
    using s1(4) s2(4) s3(4) by (auto simp: same_but_def set_plug)
  ultimately show thesis using that by blast
qed

subsection \<open>Rebalancing\<close>

text \<open>The map holds the tree \<open>t\<close> and the counter \<open>m\<close>; outside the tree the heap is \<open>F\<close>.\<close>

definition holds :: "(ptr \<rightharpoonup> ('k, 'v) map_node) \<Rightarrow> u32 \<Rightarrow> ('k, 'v) cpp_map \<Rightarrow> ('k, 'v) mtree \<Rightarrow> bool" where
  "holds F m s t \<longleftrightarrow> tree_rep s t \<and> mcount s = m \<and> (\<forall>a. a \<notin> set (taddrs t) \<longrightarrow> mheap s a = F a)"

lemma holds_step:
  "holds F m s t \<Longrightarrow> tree_rep s' t' \<Longrightarrow> same_but (set (taddrs t)) s s' \<Longrightarrow> set (taddrs t') = set (taddrs t)
    \<Longrightarrow> holds F m s' t'"
  by (auto simp: holds_def same_but_def)

lemma holds_rotate_right:
  assumes "holds F m s (plug (Br (Br A p cp kp vp B) n cn kn vn C) ps)"
  obtains s' where "rotate_right n s = Some s'" "holds F m s' (plug (Br A p cp kp vp (Br B n cn kn vn C)) ps)"
proof -
  have "tree_rep s (plug (Br (Br A p cp kp vp B) n cn kn vn C) ps)" using assms by (simp add: holds_def)
  then show thesis
    by (rule rotate_right_tree) (rule that, assumption, rule holds_step [OF assms], auto simp: set_plug)
qed

lemma holds_rotate_left:
  assumes "holds F m s (plug (Br A n cn kn vn (Br B p cp kp vp C)) ps)"
  obtains s' where "rotate_left n s = Some s'" "holds F m s' (plug (Br (Br A n cn kn vn B) p cp kp vp C) ps)"
proof -
  have "tree_rep s (plug (Br A n cn kn vn (Br B p cp kp vp C)) ps)" using assms by (simp add: holds_def)
  then show thesis
    by (rule rotate_left_tree) (rule that, assumption, rule holds_step [OF assms], auto simp: set_plug)
qed

lemma holds_node:
  assumes "holds F m s (plug (Br l a c k v r) ps)"
  shows "a \<noteq> 0" "mheap s a = Some \<lparr>Key = k, Value = v, Colour = c, Parent = par_of ps, Left = addr l, Right = addr r\<rparr>"
    "node a s = Some \<lparr>Key = k, Value = v, Colour = c, Parent = par_of ps, Left = addr l, Right = addr r\<rparr>"
  using assms by (auto simp: holds_def tree_rep_def tree_at_plug node_def load_def)

lemma holds_upd:
  assumes "holds F m s (plug (Br l a c k v r) ps)"
    "\<And>q x y. f \<lparr>Key = k, Value = v, Colour = c, Parent = q, Left = x, Right = y\<rparr>
      = \<lparr>Key = k, Value = v', Colour = c', Parent = q, Left = x, Right = y\<rparr>"
  obtains s' where "upd a f s = Some s'" "holds F m s' (plug (Br l a c' k v' r) ps)" "root s' = root s"
proof -
  note n = holds_node [OF assms(1)]
  let ?s = "s\<lparr>mheap := (mheap s)(a \<mapsto> f \<lparr>Key = k, Value = v, Colour = c, Parent = par_of ps, Left = addr l, Right = addr r\<rparr>)\<rparr>"
  have d: "distinct (taddrs l @ a # taddrs r @ crumb_addrs ps)"
    using assms(1) by (auto simp: holds_def tree_rep_def distinct_plug)
  have "holds F m ?s (plug (Br l a c' k v' r) ps)"
    using assms n(1) d
    by (auto simp: holds_def tree_rep_def tree_at_plug distinct_plug addr_plug set_plug heap_frame)
  then show thesis using that [of ?s] n by (simp add: upd_Some)
qed

lemma holds_paint:
  assumes "holds F m s (plug (Br l a c k v r) ps)"
  obtains s' where "paint a c' s = Some s'" "holds F m s' (plug (Br l a c' k v r) ps)" "root s' = root s"
  by (rule holds_upd [OF assms, of "Colour_update (\<lambda>_. c')" v c']) (auto intro: that)

lemma holds_crumb:
  assumes "holds F m s (plug t (p # ps))"
  shows "caddr p \<noteq> 0" "mheap s (caddr p) = Some (crumb_node p (par_of ps) (addr t))"
    "node (caddr p) s = Some (crumb_node p (par_of ps) (addr t))"
  using assms by (auto simp: holds_def tree_rep_def tree_at_plug tree_at_plug1 node_def load_def)

lemma crumb_node_sel [simp]:
  "Parent (crumb_node p q x) = q" "Colour (crumb_node p q x) = ccol p"
  by (cases p; simp)+

lemma holds_family:
  assumes "holds F m s (plug x (p # g # ps))" "x \<noteq> Tip"
  shows "parent_of (addr x) s = Some (caddr p)" "grandparent (addr x) s = Some (caddr g)"
  using assms holds_crumb [OF assms(1)]
  by (cases x; use holds_node [of F m s _ _ _ _ _ _ "p # g # ps"] in \<open>force simp: parent_of_def grandparent_def\<close>)+

fun cset :: "colour \<Rightarrow> ('k, 'v) crumb \<Rightarrow> ('k, 'v) crumb" where
  "cset c (InLeft a c' k v r) = InLeft a c k v r"
| "cset c (InRight l a c' k v) = InRight l a c k v"

fun sblack :: "('k, 'v) crumb \<Rightarrow> ('k, 'v) crumb" where
  "sblack (InLeft a c k v r) = InLeft a c k v (blacken r)"
| "sblack (InRight l a c k v) = InRight (blacken l) a c k v"

lemma caddr_cset [simp]: "caddr (cset c p) = caddr p" "caddr (sblack p) = caddr p"
  by (cases p; simp)+

lemma sibling_cset [simp]: "sibling (cset c p) = sibling p"
  by (cases p) simp_all

lemma addr_blacken [simp]: "addr (blacken t) = addr t"
  by (cases t) simp_all

lemma flipped_alt: "flipped x p g = plug1 (plug1 x (cset BLACK p)) (cset RED (sblack g))"
  by (cases p; cases g) simp_all

lemma holds_paint_crumb:
  assumes "holds F m s (plug t (p # ps))"
  obtains s' where "paint (caddr p) c s = Some s'" "holds F m s' (plug t (cset c p # ps))" "root s' = root s"
proof (cases p)
  case (InLeft a c' k v r)
  then show thesis using holds_paint [of F m s t a c' k v r ps c thesis] assms that by simp
next
  case (InRight l a c' k v)
  then show thesis using holds_paint [of F m s l a c' k v t ps c thesis] assms that by simp
qed

lemma holds_paint_sibling:
  assumes "holds F m s (plug t (g # ps))" "sibling g \<noteq> Tip"
  obtains s' where "paint (addr (sibling g)) BLACK s = Some s'" "holds F m s' (plug t (sblack g # ps))"
proof (cases g)
  case (InLeft a c k v r)
  then obtain rl ra rc rk rv rr where r: "r = Br rl ra rc rk rv rr" using assms(2) by (cases r) auto
  have "holds F m s (plug r (InRight t a c k v # ps))" using assms(1) InLeft by simp
  then show thesis
    using holds_paint [of F m s rl ra rc rk rv rr "InRight t a c k v # ps" BLACK thesis] r that InLeft by simp
next
  case (InRight l a c k v)
  then obtain ll la lc lk lv lr where l: "l = Br ll la lc lk lv lr" using assms(2) by (cases l) auto
  have "holds F m s (plug l (InLeft a c k v t # ps))" using assms(1) InRight by simp
  then show thesis
    using holds_paint [of F m s ll la lc lk lv lr "InLeft a c k v t # ps" BLACK thesis] l that InRight by simp
qed

lemma recolour_flip:
  assumes h: "holds F m s (plug x (p # g # ps))" and x: "x \<noteq> Tip" and y: "sibling g \<noteq> Tip"
  obtains s' where "recolour (addr x) (addr (sibling g)) s = Some (caddr g, s')"
    "holds F m s' (plug (flipped x p g) ps)"
proof -
  obtain s1 where s1: "paint (caddr p) BLACK s = Some s1" "holds F m s1 (plug x (cset BLACK p # g # ps))"
    using holds_paint_crumb [OF h] by metis
  then have "holds F m s1 (plug (plug1 x (cset BLACK p)) (g # ps))" by simp
  from holds_paint_sibling [OF this y] obtain s2 where s2: "paint (addr (sibling g)) BLACK s1 = Some s2"
    "holds F m s2 (plug (plug1 x (cset BLACK p)) (sblack g # ps))" by metis
  from holds_paint_crumb [OF this(2), of RED] obtain s3 where s3: "paint (caddr g) RED s2 = Some s3"
    "holds F m s3 (plug (plug1 x (cset BLACK p)) (cset RED (sblack g) # ps))" by auto
  have s2': "holds F m s2 (plug x (cset BLACK p # sblack g # ps))" using s2 by simp
  have s3': "holds F m s3 (plug x (cset BLACK p # cset RED (sblack g) # ps))" using s3 by simp
  have "recolour (addr x) (addr (sibling g)) s = Some (caddr g, s3)"
    using holds_family [OF h x] s1(1) s2(1) s3(1) holds_family [OF s2' x] holds_family [OF s3' x]
    by (simp add: recolour_def)
  then show thesis using that s3(2) by (simp add: flipped_alt)
qed

lemma finish_left_tree:
  assumes h: "holds F m s (plug x (InLeft pa pc pk pv pr # InLeft ga gc gk gv u # ps))" and x: "x \<noteq> Tip"
  obtains s' where "finish_left (addr x) s = Some s'"
    "holds F m s' (plug (Br x pa BLACK pk pv (Br pr ga RED gk gv u)) ps)"
proof -
  let ?p = "InLeft pa pc pk pv pr" and ?g = "InLeft ga gc gk gv u"
  obtain s1 where s1: "paint pa BLACK s = Some s1" "holds F m s1 (plug x (cset BLACK ?p # ?g # ps))"
    using holds_paint_crumb [OF h] by (metis caddr.simps(1))
  then have "holds F m s1 (plug (plug1 x (cset BLACK ?p)) (?g # ps))" by simp
  from holds_paint_crumb [OF this, of RED] obtain s2 where s2: "paint ga RED s1 = Some s2"
    "holds F m s2 (plug (plug1 x (cset BLACK ?p)) (cset RED ?g # ps))" by auto
  then have "holds F m s2 (plug (Br (Br x pa BLACK pk pv pr) ga RED gk gv u) ps)" by simp
  then obtain s3 where s3: "rotate_right ga s2 = Some s3"
    "holds F m s3 (plug (Br x pa BLACK pk pv (Br pr ga RED gk gv u)) ps)" by (rule holds_rotate_right)
  have s2': "holds F m s2 (plug x (cset BLACK ?p # cset RED ?g # ps))" using s2 by simp
  have "finish_left (addr x) s = Some s3"
    using holds_family [OF h x] s1(1) holds_family [OF s1(2) x] s2(1) holds_family [OF s2' x] s3(1)
    by (simp add: finish_left_def)
  then show thesis using that s3(2) by simp
qed

lemma finish_right_tree:
  assumes h: "holds F m s (plug x (InRight pl pa pc pk pv # InRight u ga gc gk gv # ps))" and x: "x \<noteq> Tip"
  obtains s' where "finish_right (addr x) s = Some s'"
    "holds F m s' (plug (Br (Br u ga RED gk gv pl) pa BLACK pk pv x) ps)"
proof -
  let ?p = "InRight pl pa pc pk pv" and ?g = "InRight u ga gc gk gv"
  obtain s1 where s1: "paint pa BLACK s = Some s1" "holds F m s1 (plug x (cset BLACK ?p # ?g # ps))"
    using holds_paint_crumb [OF h] by (metis caddr.simps(2))
  then have "holds F m s1 (plug (plug1 x (cset BLACK ?p)) (?g # ps))" by simp
  from holds_paint_crumb [OF this, of RED] obtain s2 where s2: "paint ga RED s1 = Some s2"
    "holds F m s2 (plug (plug1 x (cset BLACK ?p)) (cset RED ?g # ps))" by auto
  then have "holds F m s2 (plug (Br u ga RED gk gv (Br pl pa BLACK pk pv x)) ps)" by simp
  then obtain s3 where s3: "rotate_left ga s2 = Some s3"
    "holds F m s3 (plug (Br (Br u ga RED gk gv pl) pa BLACK pk pv x) ps)" by (rule holds_rotate_left)
  have s2': "holds F m s2 (plug x (cset BLACK ?p # cset RED ?g # ps))" using s2 by simp
  have "finish_right (addr x) s = Some s3"
    using holds_family [OF h x] s1(1) holds_family [OF s1(2) x] s2(1) holds_family [OF s2' x] s3(1)
    by (simp add: finish_right_def)
  then show thesis using that s3(2) by simp
qed

lemma holds_parent: "holds F m s (plug x ps) \<Longrightarrow> x \<noteq> Tip \<Longrightarrow> parent_of (addr x) s = Some (par_of ps)"
  by (cases x) (auto dest: holds_node simp: parent_of_def)

lemma holds_is_red:
  assumes "holds F m s (plug t ps)"
  shows "is_red (addr t) s = Some (col t = RED)"
proof (cases t)
  case (Br l a c k v r)
  then show ?thesis using holds_node [of F m s l a c k v r ps] assms by (simp add: is_red_def)
qed (simp add: is_red_def)

lemma holds_is_red_crumb: "holds F m s (plug t (p # ps)) \<Longrightarrow> is_red (caddr p) s = Some (ccol p = RED)"
  using holds_crumb [of F m s t p ps] by (simp add: is_red_def)

lemma holds_is_red_sibling:
  assumes "holds F m s (plug t (g # ps))"
  shows "is_red (addr (sibling g)) s = Some (col (sibling g) = RED)"
proof (cases g)
  case (InLeft a c k v r)
  then show ?thesis using assms holds_is_red [of F m s r "InRight t a c k v # ps"] by simp
next
  case (InRight l a c k v)
  then show ?thesis using assms holds_is_red [of F m s l "InLeft a c k v t # ps"] by simp
qed

lemma holds_child_neq:
  assumes "holds F m s (plug x (p # ps))" "x \<noteq> Tip"
  shows "addr x \<noteq> addr (sibling p)"
proof
  assume e: "addr x = addr (sibling p)"
  have "distinct (taddrs x @ crumb_addrs (p # ps))" and "tree_at (mheap s) (caddr p) x"
    using assms(1) by (auto simp: holds_def tree_rep_def tree_at_plug tree_at_plug1 distinct_plug [of x "p # ps", simplified])
  then have "addr x \<notin> set (taddrs (sibling p))" "addr x \<noteq> 0"
    using addr_in [OF assms(2)] tree_at_nonnull by auto
  then show False using e addr_in [of "sibling p"] by (cases "sibling p = Tip") auto
qed

lemma rebalance_step_side:
  assumes "holds F m s (plug x (p # g # ps))" "x \<noteq> Tip"
  shows "rebalance_step (addr x) s =
    (case g of InLeft a c k v u \<Rightarrow> rebalance_left (addr x) (addr u) s
     | InRight u a c k v \<Rightarrow> rebalance_right (addr x) (addr u) s)"
proof -
  have h: "holds F m s (plug (plug1 x p) (g # ps))" using assms(1) by simp
  have "caddr p \<noteq> addr (sibling g)" using holds_child_neq [OF h] by (cases p) auto
  then show ?thesis using holds_family [OF assms] holds_crumb [OF h]
    by (cases g) (auto simp: rebalance_step_def)
qed

lemma rebalance_step_flip:
  assumes h: "holds F m s (plug x (p # g # ps))" and x: "x \<noteq> Tip" and u: "col (sibling g) = RED"
  obtains s' where "rebalance_step (addr x) s = Some (caddr g, s')" "holds F m s' (plug (flipped x p g) ps)"
proof -
  have h': "holds F m s (plug (plug1 x p) (g # ps))" using h by simp
  have "sibling g \<noteq> Tip" using u by auto
  from recolour_flip [OF h x this] obtain s' where
    s': "recolour (addr x) (addr (sibling g)) s = Some (caddr g, s')" "holds F m s' (plug (flipped x p g) ps)"
    by metis
  have "rebalance_step (addr x) s = Some (caddr g, s')"
    using s'(1) rebalance_step_side [OF h x] holds_is_red_sibling [OF h'] u
    by (cases g) (auto simp: rebalance_left_def rebalance_right_def)
  then show thesis using that s'(2) by blast
qed

lemma rebalance_left_rotated:
  assumes h: "holds F m s (plug x (p # InLeft ga gc gk gv u # ps))" and x: "x \<noteq> Tip" and u: "col u = BLACK"
  obtains x' s' where "rebalance_left (addr x) (addr u) s = Some (x', s')"
    "holds F m s' (plug (rotated x p (InLeft ga gc gk gv u)) ps)"
    "parent_of x' s' = Some (addr (rotated x p (InLeft ga gc gk gv u)))"
proof -
  let ?g = "InLeft ga gc gk gv u"
  have red: "is_red (addr u) s = Some False"
    using holds_is_red_sibling [of F m s "plug1 x p" ?g ps] h u by simp
  show thesis
  proof (cases p)
    case (InLeft pa pc pk pv pr)
    from finish_left_tree [OF h [unfolded InLeft] x] obtain s' where s': "finish_left (addr x) s = Some s'"
      "holds F m s' (plug (rotated x p ?g) ps)" using InLeft by auto
    have "holds F m s' (plug x (InLeft pa BLACK pk pv (Br pr ga RED gk gv u) # ps))" using s'(2) InLeft by simp
    from holds_parent [OF this x] have "parent_of (addr x) s' = Some (addr (rotated x p ?g))" using InLeft by simp
    moreover have "rebalance_left (addr x) (addr u) s = Some (addr x, s')"
      using red holds_family [OF h x] holds_crumb [OF h] holds_child_neq [OF h x] s'(1) InLeft
      by (simp add: rebalance_left_def)
    ultimately show thesis using that s'(2) by blast
  next
    case (InRight pl pa pc pk pv)
    obtain xl xa xc xk xv xr where X: "x = Br xl xa xc xk xv xr" using x by (cases x) auto
    let ?P = "Br pl pa pc pk pv xl"
    have "holds F m s (plug (Br pl pa pc pk pv (Br xl xa xc xk xv xr)) (?g # ps))" using h InRight X by simp
    then obtain s1 where s1: "rotate_left pa s = Some s1"
      "holds F m s1 (plug (Br ?P xa xc xk xv xr) (?g # ps))" by (rule holds_rotate_left)
    then have "holds F m s1 (plug ?P (InLeft xa xc xk xv xr # ?g # ps))" by simp
    from finish_left_tree [OF this] obtain s' where s': "finish_left pa s1 = Some s'"
      "holds F m s' (plug (Br ?P xa BLACK xk xv (Br xr ga RED gk gv u)) ps)" by auto
    then have "holds F m s' (plug ?P (InLeft xa BLACK xk xv (Br xr ga RED gk gv u) # ps))" by simp
    from holds_parent [OF this] have "parent_of pa s' = Some xa" by simp
    moreover have "rebalance_left (addr x) (addr u) s = Some (pa, s')"
      using red holds_family [OF h x] holds_crumb [OF h] s1(1) s'(1) InRight X
      by (simp add: rebalance_left_def)
    ultimately show thesis using that [of pa s'] s'(2) InRight X by simp
  qed
qed

lemma rebalance_right_rotated:
  assumes h: "holds F m s (plug x (p # InRight u ga gc gk gv # ps))" and x: "x \<noteq> Tip" and u: "col u = BLACK"
  obtains x' s' where "rebalance_right (addr x) (addr u) s = Some (x', s')"
    "holds F m s' (plug (rotated x p (InRight u ga gc gk gv)) ps)"
    "parent_of x' s' = Some (addr (rotated x p (InRight u ga gc gk gv)))"
proof -
  let ?g = "InRight u ga gc gk gv"
  have red: "is_red (addr u) s = Some False"
    using holds_is_red_sibling [of F m s "plug1 x p" ?g ps] h u by simp
  show thesis
  proof (cases p)
    case (InRight pl pa pc pk pv)
    from finish_right_tree [OF h [unfolded InRight] x] obtain s' where s': "finish_right (addr x) s = Some s'"
      "holds F m s' (plug (rotated x p ?g) ps)" using InRight by auto
    have "holds F m s' (plug x (InRight (Br u ga RED gk gv pl) pa BLACK pk pv # ps))" using s'(2) InRight by simp
    from holds_parent [OF this x] have "parent_of (addr x) s' = Some (addr (rotated x p ?g))" using InRight by simp
    moreover have "rebalance_right (addr x) (addr u) s = Some (addr x, s')"
      using red holds_family [OF h x] holds_crumb [OF h] holds_child_neq [OF h x] s'(1) InRight
      by (simp add: rebalance_right_def)
    ultimately show thesis using that s'(2) by blast
  next
    case (InLeft pa pc pk pv pr)
    obtain xl xa xc xk xv xr where X: "x = Br xl xa xc xk xv xr" using x by (cases x) auto
    let ?P = "Br xr pa pc pk pv pr"
    have "holds F m s (plug (Br (Br xl xa xc xk xv xr) pa pc pk pv pr) (?g # ps))" using h InLeft X by simp
    then obtain s1 where s1: "rotate_right pa s = Some s1"
      "holds F m s1 (plug (Br xl xa xc xk xv ?P) (?g # ps))" by (rule holds_rotate_right)
    then have "holds F m s1 (plug ?P (InRight xl xa xc xk xv # ?g # ps))" by simp
    from finish_right_tree [OF this] obtain s' where s': "finish_right pa s1 = Some s'"
      "holds F m s' (plug (Br (Br u ga RED gk gv xl) xa BLACK xk xv ?P) ps)" by auto
    then have "holds F m s' (plug ?P (InRight (Br u ga RED gk gv xl) xa BLACK xk xv # ps))" by simp
    from holds_parent [OF this] have "parent_of pa s' = Some xa" by simp
    moreover have "rebalance_right (addr x) (addr u) s = Some (pa, s')"
      using red holds_family [OF h x] holds_crumb [OF h] s1(1) s'(1) InLeft X
      by (simp add: rebalance_right_def)
    ultimately show thesis using that [of pa s'] s'(2) InLeft X by simp
  qed
qed

lemma rebalance_step_rotated:
  assumes h: "holds F m s (plug x (p # g # ps))" and x: "x \<noteq> Tip" and u: "col (sibling g) = BLACK"
  obtains x' s' where "rebalance_step (addr x) s = Some (x', s')" "holds F m s' (plug (rotated x p g) ps)"
    "parent_of x' s' = Some (addr (rotated x p g))"
proof (cases g)
  case (InLeft ga gc gk gv v)
  from rebalance_left_rotated [OF h [unfolded InLeft] x] u InLeft that show thesis
    using rebalance_step_side [OF h x] by auto
next
  case (InRight v ga gc gk gv)
  from rebalance_right_rotated [OF h [unfolded InRight] x] u InRight that show thesis
    using rebalance_step_side [OF h x] by auto
qed

lemma rotated_root: "x \<noteq> Tip \<Longrightarrow> col (rotated x p g) = BLACK"
  by (cases x; cases p; cases g) auto

lemma addr_flipped [simp]: "addr (flipped x p g) = caddr g" "flipped x p g \<noteq> Tip"
  by (cases g; simp)+

lemma rebalance_loop_fixup:
  assumes "holds F m s (plug x ps)" "x \<noteq> Tip" "ps = [] \<or> ccol (last ps) = BLACK"
  shows "\<exists>s'. rebalance_loop (addr x) s = Some s' \<and> holds F m s' (fixup x ps)"
  using assms
proof (induction x ps arbitrary: s rule: fixup.induct)
  case (1 x)
  then show ?case using holds_parent [OF 1(1)]
    by (subst rebalance_loop.simps) (simp add: is_red_def)
next
  case (2 x p)
  then show ?case using holds_parent [OF 2(1)] holds_is_red_crumb [OF 2(1)]
    by (subst rebalance_loop.simps) simp
next
  case (3 x p g ps)
  note h = 3(2) and x = 3(3)
  note par = holds_family(1) [OF h x] and red = holds_is_red_crumb [OF h]
  consider "ccol p = BLACK" | "ccol p = RED" "col (sibling g) = RED" | "ccol p = RED" "col (sibling g) = BLACK"
    by (meson colour.exhaust)
  then show ?case
  proof cases
    case 1
    then show ?thesis using par red h by (subst rebalance_loop.simps) simp
  next
    case 2
    from rebalance_step_flip [OF h x 2(2)] obtain s1 where
      s1: "rebalance_step (addr x) s = Some (caddr g, s1)" "holds F m s1 (plug (flipped x p g) ps)" by metis
    have "ps = [] \<or> ccol (last ps) = BLACK" using 3(4) by (auto split: if_splits)
    then show ?thesis using 3(1) [OF _ _ s1(2)] 2 par red s1(1)
      by (subst rebalance_loop.simps) simp
  next
    case rot: 3
    from rebalance_step_rotated [OF h x rot(2)] obtain x' s1 where s1: "rebalance_step (addr x) s = Some (x', s1)"
      "holds F m s1 (plug (rotated x p g) ps)" "parent_of x' s1 = Some (addr (rotated x p g))" by metis
    have "rebalance_loop x' s1 = Some s1"
      using s1(3) holds_is_red [OF s1(2)] rotated_root [OF x] by (subst rebalance_loop.simps) simp
    then show ?thesis using rot par red s1 by (subst rebalance_loop.simps) simp
  qed
qed

lemma fixup_not_Tip: "x \<noteq> Tip \<Longrightarrow> fixup x ps \<noteq> Tip"
  using arg_cong [OF inorder_fixup, of length x ps] by (cases x) (auto simp: inorder_plug)

lemma rebalance_insert_fixup:
  assumes "holds F m s (plug (Br Tip nw c k v Tip) ps)" "ps = [] \<or> ccol (last ps) = BLACK"
  shows "\<exists>s'. rebalance_insert nw s = Some s' \<and> holds F m s' (blacken (fixup (Br Tip nw RED k v Tip) ps))"
proof -
  from assms(1) obtain s1 where s1: "paint nw RED s = Some s1" "holds F m s1 (plug (Br Tip nw RED k v Tip) ps)"
    by (rule holds_paint)
  then obtain s2 where s2: "rebalance_loop nw s1 = Some s2" "holds F m s2 (fixup (Br Tip nw RED k v Tip) ps)"
    using rebalance_loop_fixup [OF s1(2)] assms(2) by auto
  obtain l a c' k' v' r where t: "fixup (Br Tip nw RED k v Tip) ps = Br l a c' k' v' r"
    using fixup_not_Tip [of "Br Tip nw RED k v Tip" ps] by (cases "fixup (Br Tip nw RED k v Tip) ps") auto
  have "holds F m s2 (plug (Br l a c' k' v' r) [])" using s2(2) t by simp
  then obtain s3 where "paint a BLACK s2 = Some s3" "holds F m s3 (plug (Br l a BLACK k' v' r) [])"
    by (rule holds_paint)
  moreover have "root s2 = a" using s2(2) t by (simp add: holds_def tree_rep_def)
  ultimately show ?thesis using s1(1) s2(1) t by (simp add: rebalance_insert_def)
qed

subsection \<open>Adding a key\<close>

lemma holds_addr0:
  assumes "holds F m s (plug t ps)"
  shows "addr t = 0 \<longleftrightarrow> t = Tip"
  using assms by (cases t) (auto simp: holds_def tree_rep_def tree_at_plug)

lemma holds_left: "holds F m s (plug (Br l a c k v r) ps) \<longleftrightarrow> holds F m s (plug l (InLeft a c k v r # ps))"
  and holds_right: "holds F m s (plug (Br l a c k v r) ps) \<longleftrightarrow> holds F m s (plug r (InRight l a c k v # ps))"
  by simp_all

lemma find_owner_descend:
  "holds F m s (plug t ps) \<Longrightarrow> descend key t ps = (t', ps') \<Longrightarrow> find_owner key s (addr t) = Some (addr t')"
proof (induction key t ps rule: descend.induct)
  case (1 key ps)
  then show ?case by (subst find_owner.simps) auto
next
  case (2 key l a c k v r ps)
  note n = holds_node [OF 2(3)]
  have "addr l = 0 \<longleftrightarrow> l = Tip" "addr r = 0 \<longleftrightarrow> r = Tip"
    using 2(3) holds_addr0 [of F m s l "InLeft a c k v r # ps"] holds_addr0 [of F m s r "InRight l a c k v # ps"] by auto
  then show ?case using n 2 by (subst find_owner.simps) (auto split: if_splits)
qed

lemma col_plug: "col (plug t ps) = (if ps = [] then col t else ccol (last ps))"
  by (induction ps arbitrary: t) (auto simp: plug1_inv)

lemma map_add_attach:
  assumes h: "holds F m s (plug (plug1 Tip p) ps)" and nw: "nw \<noteq> 0" "nw \<notin> set (taddrs (plug (plug1 Tip p) ps))"
  shows "\<exists>s1 s2. map_new nw key val s = Some s1 \<and>
    (case p of InLeft a c k v r \<Rightarrow> set_left (caddr p) nw s1 | InRight l a c k v \<Rightarrow> set_right (caddr p) nw s1) = Some s2
    \<and> holds F m s2 (plug (Br Tip nw RED key val Tip) (p # ps))"
proof -
  let ?t = "Br Tip nw RED key val Tip" and ?s1 = "s\<lparr>mheap := (mheap s)(nw \<mapsto> map_node_init key val)\<rparr>"
  have h': "holds F m s (plug Tip (p # ps))" using h by simp
  note c = holds_crumb [OF h']
  have t: "tree_at (mheap ?s1) 0 ?t" using nw(1) by (simp add: map_node_init_def)
  have sib: "tree_at (mheap s) (caddr p) (sibling p)" and path: "path_at (mheap s) ps (caddr p)"
    and d: "distinct (crumb_addrs (p # ps))" and rt: "root s = addr (plug (plug1 Tip p) ps)"
    using h by (auto simp: holds_def tree_rep_def tree_at_plug tree_at_plug1 distinct_plug [of Tip "p # ps", simplified])
  have new: "nw \<notin> set (crumb_addrs (p # ps))" using nw(2) by (simp add: set_plug [of Tip "p # ps", simplified])
  have at: "mheap ?s1 (caddr p) = Some (crumb_node p (par_of ps) 0)" using c(2) new by simp
  have fin: "holds F m s2 (plug ?t (p # ps))"
    if s2: "mheap s2 (caddr p) = Some (crumb_node p (par_of ps) nw)" "tree_at (mheap s2) (caddr p) ?t"
      "same_but {caddr p, nw} ?s1 s2" "root s2 = root ?s1" for s2
  proof -
    have eq: "mheap s2 a = mheap s a" if "a \<noteq> caddr p" "a \<noteq> nw" for a
      using s2(3) that by (auto simp: same_but_def)
    have "tree_at (mheap s2) (caddr p) (sibling p)"
      using sib new d by (subst tree_at_cong [of "sibling p" _ "mheap s"]) (auto intro!: eq)
    moreover have "path_at (mheap s2) ps (caddr p)"
      using path new d by (subst path_at_cong [of ps _ "mheap s"]) (auto intro!: eq)
    moreover have "mheap s2 a = F a" if "a \<notin> set (taddrs (plug ?t (p # ps)))" for a
      using eq [of a] h that set_plug [of ?t "p # ps"] set_plug [of Tip "p # ps"] by (auto simp: holds_def)
    moreover have "mcount s2 = m" using s2(3) h by (simp add: same_but_def holds_def)
    moreover have "distinct (taddrs (plug ?t (p # ps)))" unfolding distinct_plug using d new by simp
    moreover have "tree_at (mheap s2) 0 (plug ?t (p # ps))"
      unfolding tree_at_plug using calculation(1,2) s2(1,2) c(1) by simp
    ultimately show ?thesis using s2(4) rt by (simp add: holds_def tree_rep_def addr_plug)
  qed
  have nt: "caddr p \<notin> set (taddrs ?t)" using new by auto
  show ?thesis
  proof (cases p)
    case (InLeft a cl k v r)
    show ?thesis
      by (rule set_left_tree [OF at c(1) nt t])
        (use fin nw(1) InLeft in \<open>auto simp: map_new_def\<close>)
  next
    case (InRight l a cl k v)
    show ?thesis
      by (rule set_right_tree [OF at c(1) nt t])
        (use fin nw(1) InRight in \<open>auto simp: map_new_def\<close>)
  qed
qed

lemma holds_count: "holds F m s t \<Longrightarrow> holds F m' (s\<lparr>mcount := m'\<rparr>) t"
  by (simp add: holds_def tree_rep_def)

lemma map_add_insert:
  assumes h: "holds F m s (plug (plug1 Tip p) ps)" and nw: "nw \<noteq> 0" "nw \<notin> set (taddrs (plug (plug1 Tip p) ps))"
    and black: "col (plug (plug1 Tip p) ps) = BLACK"
    and owner: "find_owner key s (root s) = Some (caddr p)"
    and side: "case p of InLeft a c k v r \<Rightarrow> key < k | InRight l a c k v \<Rightarrow> k < key"
  shows "\<exists>s'. add_key nw key val s = Some s'
    \<and> holds F (m + 1) s' (blacken (fixup (Br Tip nw RED key val Tip) (p # ps)))"
proof -
  have "holds F m s (plug Tip (p # ps))" using h by simp
  note c = holds_crumb [OF this]
  obtain s1 s2 where s12: "map_new nw key val s = Some s1"
    "(case p of InLeft a c k v r \<Rightarrow> set_left (caddr p) nw s1 | InRight l a c k v \<Rightarrow> set_right (caddr p) nw s1) = Some s2"
    "holds F m s2 (plug (Br Tip nw RED key val Tip) (p # ps))"
    using map_add_attach [OF h nw] by blast
  have "ccol (last (p # ps)) = BLACK" using black by (auto simp: col_plug plug1_inv split: if_splits)
  then obtain s3 where s3: "rebalance_insert nw s2 = Some s3"
    "holds F m s3 (blacken (fixup (Br Tip nw RED key val Tip) (p # ps)))"
    using rebalance_insert_fixup [OF s12(3)] by auto
  have "mcount s3 = m" using s3(2) by (simp add: holds_def)
  then have "add_key nw key val s = Some (s3\<lparr>mcount := m + 1\<rparr>)"
    using owner c s12 s3(1) side by (cases p) (auto simp: add_key_def)
  then show ?thesis using holds_count [OF s3(2)] by blast
qed

lemma map_add_tree:
  assumes h: "holds F m s t" and black: "col t = BLACK" and nw: "nw \<noteq> 0" "nw \<notin> set (taddrs t)"
  shows "\<exists>s'. add_key nw key val s = Some s'
    \<and> holds F (m + of_nat (length (inorder (tree_add nw key val t)) - length (inorder t))) s' (tree_add nw key val t)"
proof -
  obtain t' ps where d: "descend key t [] = (t', ps)" by fastforce
  note pl = descend_plug [OF d, simplified]
  have rt: "root s = addr t" using h by (simp add: holds_def tree_rep_def)
  have owner: "find_owner key s (root s) = Some (addr t')"
    using find_owner_descend [of F m s t "[]" key t' ps] h d rt by simp
  have h': "holds F m s (plug t' ps)" using h pl by simp
  show ?thesis
  proof (cases t')
    case Tip
    then have t: "t = Tip" using d by (simp add: descend_Tip)
    have "add_key nw key val s = Some \<lparr>mheap = (mheap s)(nw \<mapsto> (map_node_init key val)\<lparr>Colour := BLACK\<rparr>), root = nw, mcount = m + 1\<rparr>"
      using owner Tip nw(1) h by (simp add: add_key_def map_new_def upd_def node_def load_def holds_def)
    then show ?thesis using t nw(1) h
      by (simp add: holds_def tree_rep_def tree_add_def map_node_init_def)
  next
    case (Br l a c k v r)
    note n = holds_node [OF h' [unfolded Br]]
    have len: "length (inorder (blacken (fixup (Br Tip nw RED key val Tip) (p # ps)))) = Suc (length (inorder t))"
      if "plug1 Tip p = t'" for p using that pl
      by (cases p) (auto simp: inorder_fixup inorder_plug simp flip: pl)
    consider "key = k" | "key < k" "l = Tip" | "k < key" "r = Tip"
      using descend_stop d Br by metis
    then show ?thesis
    proof cases
      case 1
      from h' [unfolded Br] obtain s' where s': "upd a (Value_update (\<lambda>_. val)) s = Some s'"
        "holds F m s' (plug (Br l a c k val r) ps)" by (rule holds_upd [where f = "Value_update (\<lambda>_. val)" and v' = val and c' = c]) (simp, blast)
      have "tree_add nw key val t = plug (Br l a c k val r) ps" using d Br 1 by (simp add: tree_add_def)
      moreover have "length (inorder (plug (Br l a c k val r) ps)) = length (inorder t)"
        using Br by (simp add: inorder_plug flip: pl)
      moreover have "add_key nw key val s = Some s'" using owner n s'(1) Br 1 by (simp add: add_key_def)
      ultimately show ?thesis using s'(2) by simp
    next
      case 2
      have "tree_add nw key val t = blacken (fixup (Br Tip nw RED key val Tip) (InLeft a c k v r # ps))"
        using d Br 2 by (auto simp: tree_add_def)
      then show ?thesis using map_add_insert [of F m s "InLeft a c k v r" ps nw key val] h' nw black owner len 2 Br pl
        by simp
    next
      case 3
      have "tree_add nw key val t = blacken (fixup (Br Tip nw RED key val Tip) (InRight l a c k v # ps))"
        using d Br 3 by (auto simp: tree_add_def)
      then show ?thesis using map_add_insert [of F m s "InRight l a c k v" ps nw key val] h' nw black owner len 3 Br pl
        by simp
    qed
  qed
qed

subsection \<open>Lookup, iteration and deletion\<close>

lemma find_node_tree:
  "tree_at (mheap s) q t \<Longrightarrow> find_node key s (addr t) = Some (addr (tree_find key t))"
proof (induction key t arbitrary: q rule: tree_find.induct)
  case (1 key)
  then show ?case by (subst find_node.simps) simp
next
  case (2 key l a c k v r)
  then show ?case by (subst find_node.simps) (auto simp: node_def load_def)
qed

lemma tree_find_at:
  "tree_at h q t \<Longrightarrow> tree_find key t = Br l a c k v r \<Longrightarrow>
   a \<noteq> 0 \<and> (\<exists>q' x y. h a = Some \<lparr>Key = k, Value = v, Colour = c, Parent = q', Left = x, Right = y\<rparr>)"
  by (induction key t arbitrary: q rule: tree_find.induct) (auto split: if_splits)

lemma lookup_tree:
  assumes "tree_at (mheap s) 0 t" "root s = addr t" "bst t"
  shows "contains_key key s = Some (map_of (kvs t) key \<noteq> None)"
    "try_get_value key s = Some (map_of (kvs t) key)"
    "get_value key s = map_of (kvs t) key"
proof -
  note f = find_node_tree [OF assms(1), of key]
  note m = map_of_tree_find [OF assms(3), of key]
  show "contains_key key s = Some (map_of (kvs t) key \<noteq> None)"
    "try_get_value key s = Some (map_of (kvs t) key)"
    "get_value key s = map_of (kvs t) key"
    using f m assms(2) tree_find_at [OF assms(1), of key]
    by (cases "tree_find key t"; force simp: contains_key_def try_get_value_def get_value_def node_def load_def)+
qed

lemma subtrees_at:
  "tree_at h q t \<Longrightarrow> u \<in> set (subtrees t) \<Longrightarrow> u \<noteq> Tip \<and> (\<exists>q. tree_at h q u)"
  by (cases t) (auto split: if_splits)

lemma advance_tree:
  assumes "tree_at (mheap s) q t" "t \<noteq> Tip"
  shows "advance s \<lparr>iqueue = addr t # map addr ts, icurrent = c\<rparr>
    = Some \<lparr>iqueue = map addr (ts @ subtrees t), icurrent = addr t\<rparr>"
proof (cases t)
  case (Br l a cl k v r)
  have "addr l = 0 \<longleftrightarrow> l = Tip" "addr r = 0 \<longleftrightarrow> r = Tip"
    using assms(1) Br by (cases l; cases r; simp)+
  then show ?thesis using assms Br by (auto simp: advance_def node_def load_def)
qed (use assms in simp)

lemma iterate_from_tree:
  assumes "ts = t # us" "\<forall>u \<in> set ts. u \<noteq> Tip \<and> (\<exists>q. tree_at (mheap s) q u)"
  shows "iterate_from s \<lparr>iqueue = map addr (us @ subtrees t), icurrent = addr t\<rparr> = Some (level_order ts)"
  using assms
proof (induction ts arbitrary: t us rule: level_order.induct)
  case (3 l a c k v r ts)
  have t: "t = Br l a c k v r" and us: "us = ts" using 3(2) by simp_all
  have tail: "\<forall>u \<in> set ts. u \<noteq> Tip \<and> (\<exists>q. tree_at (mheap s) q u)" using 3(3) by simp
  from 3(3) t obtain q where at: "tree_at (mheap s) q t" by (metis list.set_intros(1))
  then have n: "a \<noteq> 0" "node a s = Some \<lparr>Key = k, Value = v, Colour = c, Parent = q, Left = addr l, Right = addr r\<rparr>"
    using t by (auto simp: node_def load_def)
  have all: "\<forall>u \<in> set (ts @ subtrees t). u \<noteq> Tip \<and> (\<exists>q. tree_at (mheap s) q u)"
    using tail subtrees_at [OF at] unfolding set_append by blast
  show ?case
  proof (cases "ts @ subtrees t")
    case Nil
    then have "iterate_from s \<lparr>iqueue = [], icurrent = 0\<rparr> = Some []" by (subst iterate_from.simps) simp
    then show ?thesis using Nil n t us by (subst iterate_from.simps) (simp add: advance_def)
  next
    case (Cons w ws)
    then have "w \<in> set (ts @ subtrees t)" by simp
    then obtain qw where "tree_at (mheap s) qw w" "w \<noteq> Tip" using all by blast
    note adv = advance_tree [OF this, of ws a]
    have IH: "iterate_from s \<lparr>iqueue = map addr (ws @ subtrees w), icurrent = addr w\<rparr> = Some (level_order (ts @ subtrees t))"
      using 3(1) [OF Cons [unfolded t] all [unfolded t]] t by (simp only:)
    have q: "map addr (us @ subtrees t) = addr w # map addr ws" using Cons us by simp
    show ?thesis unfolding q unfolding t addr.simps level_order.simps
      by (subst iterate_from.simps) (simp add: n adv IH [unfolded t] del: subtrees.simps map_append)
  qed
qed auto

lemma map_iterate_tree:
  assumes "tree_at (mheap s) 0 t" "root s = addr t"
  shows "map_iterate s = Some (level_order [t])"
proof (cases t)
  case Tip
  then show ?thesis using assms by (simp add: map_iterate_def map_begin_def) (subst iterate_from.simps, simp)
next
  case (Br l a c k v r)
  have "advance s \<lparr>iqueue = [addr t], icurrent = addr t\<rparr> = Some \<lparr>iqueue = map addr (subtrees t), icurrent = addr t\<rparr>"
    using advance_tree [OF assms(1), of "[]" "addr t"] Br by simp
  moreover have "iterate_from s \<lparr>iqueue = map addr (subtrees t), icurrent = addr t\<rparr> = Some (level_order [t])"
    using iterate_from_tree [of "[t]" t "[]" s] assms(1) Br by auto
  ultimately show ?thesis using assms Br by (simp add: map_iterate_def map_begin_def)
qed

lemma delete_tree_at:
  "tree_at h q t \<Longrightarrow> distinct (taddrs t) \<Longrightarrow> t \<noteq> Tip
    \<Longrightarrow> delete_tree (addr t) h = Some (\<lambda>a. if a \<in> set (taddrs t) then None else h a)"
proof (induction t arbitrary: q h)
  case (Br l a c k v r)
  have a0: "addr l = 0 \<longleftrightarrow> l = Tip" "addr r = 0 \<longleftrightarrow> r = Tip"
    using Br.prems(1) by (cases l; cases r; simp)+
  let ?h1 = "\<lambda>b. if b \<in> set (taddrs l) then None else h b"
  let ?h2 = "\<lambda>b. if b \<in> set (taddrs r) then None else ?h1 b"
  have 1: "(if addr l \<noteq> 0 then delete_tree (addr l) h else Some h) = Some ?h1"
    using Br.IH(1) [of h a] Br.prems a0 by auto
  have "tree_at ?h1 a r" using Br.prems by (subst tree_at_cong [of r _ h]) auto
  then have 2: "(if addr r \<noteq> 0 then delete_tree (addr r) ?h1 else Some ?h1) = Some ?h2"
    using Br.IH(2) [of ?h1 a] Br.prems a0 by auto
  have ld: "load h a = Some \<lparr>Key = k, Value = v, Colour = c, Parent = q, Left = addr l, Right = addr r\<rparr>"
    using Br.prems(1) by (simp add: load_def)
  have eq: "(?h2)(a := None) = (\<lambda>b. if b \<in> set (taddrs (Br l a c k v r)) then None else h b)" by auto
  show ?case
    by (subst delete_tree.simps) (simp only: addr.simps ld Option.bind.simps map_node.select_convs 1 2 eq)
qed simp

subsection \<open>Refinement of finite maps\<close>

text \<open>
  A well-formed map object: its nodes form a red-black search tree, the counter is the number
  of entries (modulo the width of the counter), and its heap has no other node.
\<close>

definition map_rep :: "('k::linorder, 'v) cpp_map \<Rightarrow> ('k, 'v) mtree \<Rightarrow> bool" where
  "map_rep s t \<longleftrightarrow> holds Map.empty (of_nat (length (inorder t))) s t \<and> bst t \<and> rbt t"

definition map_abs :: "('k::linorder, 'v) cpp_map \<Rightarrow> ('k \<rightharpoonup> 'v) \<Rightarrow> bool" where
  "map_abs s M \<longleftrightarrow> (\<exists>t. map_rep s t \<and> map_of (kvs t) = M)"

datatype ('k, 'v) map_op =
    is_MAdd: MAdd ptr 'k 'v | MRemove 'k | MClear | MContains 'k | MTryGet 'k | MGet 'k | MCount

datatype 'v map_res = MDone | MBool bool | MOpt "'v option" | MVal 'v | MNum u32

fun map_step :: "('k::linorder, 'v) map_op \<Rightarrow> ('k, 'v) cpp_map \<Rightarrow> ('v map_res \<times> ('k, 'v) cpp_map) option" where
  "map_step (MAdd nw k v) s = map_option (Pair MDone) (add_key nw k v s)"
| "map_step (MRemove k) s = Some (MDone, map_remove k s)"
| "map_step MClear s = map_option (Pair MDone) (map_clear s)"
| "map_step (MContains k) s = map_option (\<lambda>b. (MBool b, s)) (contains_key k s)"
| "map_step (MTryGet k) s = map_option (\<lambda>r. (MOpt r, s)) (try_get_value k s)"
| "map_step (MGet k) s = map_option (\<lambda>v. (MVal v, s)) (get_value k s)"
| "map_step MCount s = Some (MNum (map_count s), s)"

fun map_spec :: "('k, 'v) map_op \<Rightarrow> ('k \<rightharpoonup> 'v) \<Rightarrow> ('v map_res \<times> ('k \<rightharpoonup> 'v)) option" where
  "map_spec (MAdd nw k v) M = Some (MDone, M(k \<mapsto> v))"
| "map_spec (MRemove k) M = Some (MDone, M)"
| "map_spec MClear M = Some (MDone, Map.empty)"
| "map_spec (MContains k) M = Some (MBool (M k \<noteq> None), M)"
| "map_spec (MTryGet k) M = Some (MOpt (M k), M)"
| "map_spec (MGet k) M = map_option (\<lambda>v. (MVal v, M)) (M k)"
| "map_spec MCount M = Some (MNum (of_nat (card (dom M))), M)"

fun map_fresh_ok :: "('k, 'v) map_op \<Rightarrow> ('k, 'v) cpp_map \<Rightarrow> bool" where
  "map_fresh_ok (MAdd nw k v) s \<longleftrightarrow> nw \<noteq> 0 \<and> mheap s nw = None"
| "map_fresh_ok _ s \<longleftrightarrow> True"

lemma mheap_map_init [simp]: "mheap map_init = Map.empty"
  by (simp add: map_init_def)

lemma map_init_rep: "map_rep map_init Tip"
  by (simp add: map_rep_def map_init_def holds_def tree_rep_def bst_def rbt_def)

lemma map_absI: "map_rep s t \<Longrightarrow> map_of (kvs t) = M \<Longrightarrow> map_abs s M"
  by (auto simp: map_abs_def)

lemma map_add_rep [infos_inv]:
  assumes "map_rep s t" "nw \<noteq> 0" "mheap s nw = None"
  shows "\<exists>s'. add_key nw key val s = Some s' \<and> map_rep s' (tree_add nw key val t)"
proof -
  have h: "holds Map.empty (of_nat (length (inorder t))) s t" and t: "bst t" "rbt t"
    using assms(1) by (auto simp: map_rep_def)
  have "nw \<notin> set (taddrs t)" using h tree_at_nonnull [of "mheap s" 0 t nw] assms(3)
    by (auto simp: holds_def tree_rep_def)
  then obtain s' where s': "add_key nw key val s = Some s'"
    "holds Map.empty (of_nat (length (inorder t))
      + of_nat (length (inorder (tree_add nw key val t)) - length (inorder t))) s' (tree_add nw key val t)"
    using map_add_tree [OF h _ assms(2)] t(2) by (auto simp: rbt_def)
  have "length (inorder t) \<le> length (inorder (tree_add nw key val t))"
    using arg_cong [OF addrs_tree_add [OF t(1)], of size nw key val] by (auto split: if_splits)
  then show ?thesis using s' bst_tree_add [OF t(1)] rbt_tree_add [OF t(2)]
    by (auto simp: map_rep_def simp flip: of_nat_add)
qed

lemma map_clear_rep [infos_inv]:
  assumes "map_rep s t"
  shows "map_clear s = Some map_init"
proof -
  have at: "tree_at (mheap s) 0 t" "distinct (taddrs t)" "root s = addr t"
    and out: "\<forall>a. a \<notin> set (taddrs t) \<longrightarrow> mheap s a = None"
    using assms by (auto simp: map_rep_def holds_def tree_rep_def)
  have "(\<lambda>a. if a \<in> set (taddrs t) then None else mheap s a) = Map.empty" using out by auto
  then show ?thesis using delete_tree_at [OF at(1,2)] at out
    by (cases t) (auto simp: map_clear_def map_init_def)
qed

lemma map_step_refines:
  assumes "map_abs s M" "map_fresh_ok op s"
  shows "rel_option (rel_prod (=) map_abs) (map_step op s) (map_spec op M)"
proof -
  from assms(1) obtain t where rep: "map_rep s t" and M: "map_of (kvs t) = M" by (auto simp: map_abs_def)
  then have at: "tree_at (mheap s) 0 t" "root s = addr t" and b: "bst t"
    by (auto simp: map_rep_def holds_def tree_rep_def)
  note look = lookup_tree [OF at b]
  show ?thesis
  proof (cases op)
    case (MAdd nw k v)
    then have "nw \<noteq> 0" "mheap s nw = None" using assms(2) by simp_all
    then obtain s' where s': "add_key nw k v s = Some s'" "map_rep s' (tree_add nw k v t)"
      using map_add_rep [OF rep] by blast
    then have "map_abs s' (M(k \<mapsto> v))" using map_of_tree_add [OF b, of nw k v] M by (simp add: map_absI)
    then show ?thesis using MAdd s'(1) by simp
  next
    case MClear
    then show ?thesis using map_clear_rep [OF rep] map_absI [OF map_init_rep] by simp
  next
    case MCount
    have "card (dom M) = length (inorder t)"
      using bst_distinct [OF b] M by (auto simp: dom_map_of_conv_image_fst distinct_card simp flip: set_map)
    then show ?thesis using rep assms(1) MCount
      by (simp add: map_count_def map_rep_def holds_def)
  next
    case (MGet k)
    then show ?thesis using look(3) [of k] M assms(1) by (cases "M k") auto
  qed (use look M assms(1) in \<open>simp_all add: map_remove_def\<close>)
qed

lemma reads_ok: "list_all (\<lambda>op. \<not> is_MAdd op) ops \<Longrightarrow> ops_ok map_fresh_ok map_step ops s"
proof (induction ops arbitrary: s)
  case (Cons op ops)
  then show ?case by (cases op) (auto split: option.splits)
qed simp

lemma adds_then_reads_ok:
  "map_rep s t \<Longrightarrow> distinct (map fst es) \<Longrightarrow> set (map fst es) \<inter> insert 0 (dom (mheap s)) = {}
    \<Longrightarrow> list_all (\<lambda>op. \<not> is_MAdd op) reads
    \<Longrightarrow> ops_ok map_fresh_ok map_step (map (\<lambda>(a, k, v). MAdd a k v) es @ reads) s"
proof (induction es arbitrary: s t)
  case Nil
  then show ?case by (simp add: reads_ok)
next
  case (Cons e es)
  obtain a k v where e: "e = (a, k, v)" by (cases e)
  have a: "a \<noteq> 0" "mheap s a = None" using Cons.prems(3) e by auto
  then obtain s' where s': "add_key a k v s = Some s'" "map_rep s' (tree_add a k v t)"
    using map_add_rep [OF Cons.prems(1)] by blast
  have sub: "set (addrs (tree_add a k v t)) \<subseteq> insert a (set (addrs t))"
    using arg_cong [OF addrs_tree_add [of t a k v], of set_mset] Cons.prems(1)
    by (auto simp: map_rep_def split: if_splits)
  have "dom (mheap s') \<subseteq> insert a (dom (mheap s))"
  proof
    fix b assume "b \<in> dom (mheap s')"
    then have "b \<in> set (taddrs (tree_add a k v t))" using s'(2) by (auto simp: map_rep_def holds_def)
    then have "b = a \<or> b \<in> set (taddrs t)" using sub by (auto simp: taddrs_inorder)
    then show "b \<in> insert a (dom (mheap s))"
      using tree_at_nonnull [of "mheap s" 0 t b] Cons.prems(1) by (auto simp: map_rep_def holds_def tree_rep_def)
  qed
  then have "set (map fst es) \<inter> insert 0 (dom (mheap s')) = {}"
  proof -
    have "a \<notin> set (map fst es)" "set (map fst es) \<inter> insert 0 (dom (mheap s)) = {}"
      using Cons.prems(2,3) e by auto
    with \<open>dom (mheap s') \<subseteq> _\<close> show ?thesis by blast
  qed
  then show ?case using Cons.IH [OF s'(2)] Cons.prems(2,4) s'(1) a e by simp
qed

interpretation rbmap: simulation map_abs map_fresh_ok map_step map_spec
  by unfold_locales (rule map_step_refines)

subsection \<open>Properties\<close>

text \<open>
  C1. The red-black tree implements a finite map: from a well-formed map with contents \<open>M\<close>, every
  sequence of \<^verbatim>\<open>add\<close>, \<^verbatim>\<open>remove\<close>, \<^verbatim>\<open>clear\<close>, \<^verbatim>\<open>contains_key\<close>, \<^verbatim>\<open>try_get_value\<close>, \<^verbatim>\<open>get_value\<close> and
  \<^verbatim>\<open>count\<close> returns the results of the same sequence on \<open>M\<close> (with \<^verbatim>\<open>remove\<close> doing nothing, as in the
  source) and ends in a well-formed map with the same contents; it gets stuck only at a
  \<^verbatim>\<open>get_value\<close> of a key that is not there. In particular every loop of \<^verbatim>\<open>add\<close> and
  \<^verbatim>\<open>rebalance_insert\<close> ends, and none of them follows a null pointer.
\<close>

theorem map_refines:
  assumes "map_abs s M" "ops_ok map_fresh_ok map_step ops s"
  shows "rel_option (rel_prod (=) map_abs) (run_ops map_step ops s) (run_ops map_spec ops M)"
  using assms by (rule rbmap.runs)

theorem map_refines_witness:
  "\<exists>s. run_ops map_step [MAdd 1 (10::nat) ''a'', MAdd 2 20 ''b'', MAdd 3 30 ''c'', MAdd 4 20 ''d'',
      MContains 20, MTryGet 25, MGet 20, MCount] map_init
    = Some ([MDone, MDone, MDone, MDone, MBool True, MOpt None, MVal ''d'', MNum 3], s)
    \<and> map_abs s [10 \<mapsto> ''a'', 20 \<mapsto> ''d'', 30 \<mapsto> ''c'']"
proof -
  let ?ops = "[MAdd 1 (10::nat) ''a'', MAdd 2 20 ''b'', MAdd 3 30 ''c'', MAdd 4 20 ''d'',
    MContains 20, MTryGet 25, MGet 20, MCount]"
  have "ops_ok map_fresh_ok map_step ?ops map_init"
    using adds_then_reads_ok [OF map_init_rep, of "[(1, 10 :: nat, ''a''), (2, 20, ''b''), (3, 30, ''c''), (4, 20, ''d'')]"
      "[MContains 20, MTryGet 25, MGet 20, MCount]"] by simp
  then have "rel_option (rel_prod (=) map_abs) (run_ops map_step ?ops map_init) (run_ops map_spec ?ops Map.empty)"
    by (intro map_refines map_absI [OF map_init_rep]) simp
  moreover have "run_ops map_spec ?ops Map.empty
    = Some ([MDone, MDone, MDone, MDone, MBool True, MOpt None, MVal ''d'', MNum 3], [10 \<mapsto> ''a'', 20 \<mapsto> ''d'', 30 \<mapsto> ''c''])"
    by (auto simp: fun_upd_twist card_insert_if)
  ultimately show ?thesis by (auto simp: option_rel_Some2 simp del: run_ops.simps)
qed

text \<open>
  C13. The tree stays balanced: whatever sequence of operations led to it, the nodes of the map
  form a binary search tree and a red-black tree (no red node has a red child, all paths have
  the same number of black nodes), so that with \<open>n\<close> entries the depth \<open>d\<close> of a search satisfies
  \<open>2^d \<le> (n+1)^2\<close>.
\<close>

theorem map_stays_balanced:
  assumes "ops_ok map_fresh_ok map_step ops map_init" "run_ops map_step ops map_init = Some (rs, s)"
  shows "\<exists>t. tree_rep s t \<and> bst t \<and> rbt t \<and> 2 ^ height t \<le> (length (inorder t) + 1)\<^sup>2"
proof -
  have "map_abs map_init Map.empty" by (rule map_absI [OF map_init_rep]) simp
  from rbmap.runs [OF this assms(1)] obtain M where "map_abs s M"
    using assms(2) by (auto simp: option_rel_Some1)
  then obtain t where "tree_rep s t" "bst t" "rbt t" by (auto simp: map_abs_def map_rep_def holds_def)
  then show ?thesis using rbt_depth by blast
qed

theorem map_stays_balanced_witness:
  "\<exists>rs s t. run_ops map_step [MAdd 1 (10::nat) ''a'', MAdd 2 20 ''b'', MAdd 3 30 ''c''] map_init = Some (rs, s)
    \<and> tree_rep s t \<and> bst t \<and> rbt t \<and> 2 ^ height t \<le> (length (inorder t) + 1)\<^sup>2"
proof -
  let ?ops = "[MAdd 1 (10::nat) ''a'', MAdd 2 20 ''b'', MAdd 3 30 ''c'']"
  have ok: "ops_ok map_fresh_ok map_step ?ops map_init"
    using adds_then_reads_ok [OF map_init_rep, of "[(1, 10 :: nat, ''a''), (2, 20, ''b''), (3, 30, ''c'')]" "[]"] by simp
  have "map_abs (map_init :: (nat, string) cpp_map) Map.empty" by (rule map_absI [OF map_init_rep]) simp
  from rbmap.runs_Some [OF this ok] obtain rs s where "run_ops map_step ?ops map_init = Some (rs, s)" by auto
  then show ?thesis using map_stays_balanced [OF ok] by blast
qed

text \<open>
  C20. Iterating over a map visits every entry exactly once: the breadth-first loop ends, the
  keys it yields are distinct, and the pairs are those of the map.
\<close>

theorem map_iterate_complete:
  assumes "map_abs s M"
  shows "\<exists>es. map_iterate s = Some es \<and> distinct (map fst es) \<and> map_of es = M"
proof -
  from assms obtain t where rep: "map_rep s t" and M: "map_of (kvs t) = M" by (auto simp: map_abs_def)
  then have at: "tree_at (mheap s) 0 t" "root s = addr t" and b: "bst t"
    by (auto simp: map_rep_def holds_def tree_rep_def)
  have ms: "mset (level_order [t]) = mset (kvs t)" by (simp add: mset_level_order)
  then have d: "distinct (map fst (level_order [t]))"
    using bst_distinct [OF b] distinct_mset [of "map fst (level_order [t])" "map fst (kvs t)"]
    by (simp only: mset_map)
  moreover have "map_of (level_order [t]) = map_of (kvs t)"
    using mset_eq_setD [OF ms] d bst_distinct [OF b] map_of_inject_set by blast
  ultimately show ?thesis using map_iterate_tree [OF at] M by blast
qed

theorem map_iterate_complete_witness:
  "\<exists>es. map_iterate \<lparr>mheap = [1 \<mapsto> \<lparr>Key = 5, Value = 50, Colour = BLACK, Parent = 0, Left = 2, Right = 3\<rparr>,
        2 \<mapsto> \<lparr>Key = 1, Value = 10, Colour = RED, Parent = 1, Left = 0, Right = 0\<rparr>,
        3 \<mapsto> \<lparr>Key = 9, Value = 90, Colour = RED, Parent = 1, Left = 0, Right = 0\<rparr>], root = 1, mcount = 3\<rparr> = Some es
    \<and> distinct (map fst es) \<and> map_of es = [1 \<mapsto> 10, 5 \<mapsto> 50, 9::nat \<mapsto> 90::nat]"
proof -
  let ?t = "Br (Br Tip 2 RED 1 10 Tip) 1 BLACK 5 50 (Br Tip 3 RED (9::nat) (90::nat) Tip)"
  show ?thesis
    by (rule map_iterate_complete, rule map_absI [of _ ?t])
      (auto simp: map_rep_def holds_def tree_rep_def bst_def rbt_def fun_upd_twist)
qed

end
