(* ===== verification/Kernel_Map.thy ===== *)
theory Kernel_Map
  imports Util_Map
begin

text \<open>
  The map that the clients of \<^verbatim>\<open>util::Map\<close> see: the search trees of \<open>Map_Tree\<close> as a type, with the
  operations that \<open>Util_Map\<close> proves the linked nodes to implement. The order in which the
  iterator visits the entries is kept.
\<close>

typedef (overloaded) ('k::linorder, 'v) kmap = "{t :: ('k, 'v) mtree. bst t}"
  by (rule exI [of _ Tip]) (simp add: bst_def)

setup_lifting type_definition_kmap

lift_definition kempty :: "('k::linorder, 'v) kmap" is Tip
  by (simp add: bst_def)

lift_definition kadd :: "'k::linorder \<Rightarrow> 'v \<Rightarrow> ('k, 'v) kmap \<Rightarrow> ('k, 'v) kmap" is "tree_add 0"
  by (rule bst_tree_add)

lift_definition kget :: "('k::linorder, 'v) kmap \<Rightarrow> 'k \<Rightarrow> 'v option"
  is "\<lambda>t k. case tree_find k t of Tip \<Rightarrow> None | Br l a c k' v r \<Rightarrow> Some v" .

lift_definition kentries :: "('k::linorder, 'v) kmap \<Rightarrow> ('k \<times> 'v) list" is "\<lambda>t. level_order [t]" .

text \<open>What clients rely on.\<close>

locale map_interface =
  fixes emp :: 'm
    and get :: "'m \<Rightarrow> 'k \<Rightarrow> 'v option"
    and add :: "'k \<Rightarrow> 'v \<Rightarrow> 'm \<Rightarrow> 'm"
    and entries :: "'m \<Rightarrow> ('k \<times> 'v) list"
  assumes get_emp: "get emp k = None"
    and get_add: "get (add k v m) k' = (if k' = k then Some v else get m k')"
    and entries_get: "distinct (map fst (entries m)) \<and> map_of (entries m) = get m"
begin

lemma entries_iff: "(k, v) \<in> set (entries m) \<longleftrightarrow> get m k = Some v"
  using entries_get [of m] by (metis map_of_eq_Some_iff)

lemma dom_get: "{k. get m k \<noteq> None} = fst ` set (entries m)"
  using entries_get [of m] by (metis dom_def dom_map_of_conv_image_fst)

lemma entries_emp: "entries emp = []"
  using entries_iff [of _ _ emp] get_emp by (metis list.set_intros(1) neq_Nil_conv option.distinct(1) surj_pair)

lemma length_entries_add: "get m k = None \<Longrightarrow> length (entries (add k v m)) = Suc (length (entries m))"
proof -
  assume new: "get m k = None"
  have d: "distinct (map fst (entries m'))" for m' using entries_get [of m'] by simp
  have "fst ` set (entries (add k v m)) = insert k (fst ` set (entries m))"
    unfolding dom_get [symmetric] by (auto simp: get_add)
  moreover have "k \<notin> fst ` set (entries m)" unfolding dom_get [symmetric] using new by simp
  ultimately have "card (set (map fst (entries (add k v m)))) = Suc (card (set (map fst (entries m))))" by simp
  then show ?thesis using distinct_card [OF d] by simp
qed

end

lemma kmap_get_add:
  fixes m :: "('k :: linorder, 'v) kmap"
  shows "kget (kadd k v m) k' = (if k' = k then Some v else kget m k')"
proof transfer
  fix k k' :: 'k and v :: 'v and t :: "('k, 'v) mtree" assume b: "bst t"
  show "(case tree_find k' (tree_add 0 k v t) of Tip \<Rightarrow> None | Br l a c k' v r \<Rightarrow> Some v)
    = (if k' = k then Some v else case tree_find k' t of Tip \<Rightarrow> None | Br l a c k' v r \<Rightarrow> Some v)"
    using map_of_tree_find [OF bst_tree_add [OF b, of 0 k v], of k'] map_of_tree_find [OF b, of k'] map_of_tree_add [OF b, of 0 k v]
    by (auto split: if_splits)
qed

lemma kmap_entries:
  fixes m :: "('k :: linorder, 'v) kmap"
  shows "distinct (map fst (kentries m)) \<and> map_of (kentries m) = kget m"
proof transfer
  fix t :: "('k, 'v) mtree" assume b: "bst t"
  have ms: "mset (level_order [t]) = mset (kvs t)" by (simp add: mset_level_order)
  then have d: "distinct (map fst (level_order [t]))"
    using bst_distinct [OF b] distinct_mset [of "map fst (level_order [t])" "map fst (kvs t)"] by (simp only: mset_map)
  moreover have "map_of (level_order [t]) = map_of (kvs t)"
    using mset_eq_setD [OF ms] d bst_distinct [OF b] map_of_inject_set by blast
  ultimately show "distinct (map fst (level_order [t])) \<and> map_of (level_order [t]) = (\<lambda>k. case tree_find k t of Tip \<Rightarrow> None | Br l a c k' v r \<Rightarrow> Some v)"
    using map_of_tree_find [OF b] by auto
qed

interpretation kmaps: map_interface kempty kget kadd kentries
proof
  show "kget kempty k = None" for k by transfer simp
qed (auto simp: kmap_get_add kmap_entries)

declare kmaps.get_emp [simp] kmaps.get_add [simp] kmaps.entries_emp [simp]

end
