(* ===== verification/Util_String.thy ===== *)
theory Util_String
  imports Prelude
begin

text \<open>
  C strings and the class \<^verbatim>\<open>String\<close>, from \<^verbatim>\<open>util/string.cpp\<close> and \<^verbatim>\<open>include/infos/util/string.h\<close>.

  A C string is the memory from its pointer on, a list of bytes that ends where the object
  ends; a null pointer is \<open>None\<close>. Reading or writing beyond the end gives the result \<open>None\<close>.
  The characters of a \<^verbatim>\<open>String\<close> are a block on a heap, since copies, moves and destruction differ
  in who owns the block; address 0 is the null pointer.
\<close>

type_synonym chars = "u8 list"
type_synonym char_ptr = "chars option"

definition put :: "nat \<Rightarrow> u8 \<Rightarrow> chars \<Rightarrow> chars option" where
  "put i c b = (if i < length b then Some (b[i := c]) else None)"

subsection \<open>C strings\<close>

fun strlen_from :: "chars \<Rightarrow> nat option" where
  "strlen_from [] = None"
| "strlen_from (c # cs) = (if c = 0 then Some 0 else map_option Suc (strlen_from cs))"

definition strlen :: "char_ptr \<Rightarrow> nat option" where
  "strlen str = (case str of None \<Rightarrow> Some 0 | Some b \<Rightarrow> strlen_from b)"

fun strncmp_loop :: "chars \<Rightarrow> chars \<Rightarrow> nat \<Rightarrow> int option" where
  "strncmp_loop (c # cs) (d # ds) n =
     (if c \<noteq> 0 \<and> d \<noteq> 0 \<and> n \<noteq> 0 then if c \<noteq> d then Some (- 1) else strncmp_loop cs ds (n - 1)
      else Some 0)"
| "strncmp_loop [] ds n = None"
| "strncmp_loop (c # cs) [] n = (if c = 0 then Some 0 else None)"

definition strncmp :: "char_ptr \<Rightarrow> char_ptr \<Rightarrow> nat \<Rightarrow> int option" where
  "strncmp str1 str2 n = do {
     l1 \<leftarrow> strlen str1;
     l2 \<leftarrow> strlen str2;
     if l1 \<noteq> l2 then Some (- 1)
     else do { s1 \<leftarrow> str1; s2 \<leftarrow> str2; strncmp_loop s1 s2 n } }"

text \<open>The result of \<^verbatim>\<open>strncpy\<close> is the destination and the position of the pointer it returns.\<close>

fun strncpy_loop :: "chars \<Rightarrow> nat \<Rightarrow> chars \<Rightarrow> u64 \<Rightarrow> (chars \<times> nat) option" where
  "strncpy_loop dest i [] n = (if n - 1 \<noteq> 0 then None else map_option (\<lambda>d. (d, i)) (put i 0 dest))"
| "strncpy_loop dest i (c # src) n =
     (if n - 1 \<noteq> 0 \<and> c \<noteq> 0 then do {
        dest \<leftarrow> put i c dest;
        strncpy_loop dest (Suc i) src (n - 1) }
      else map_option (\<lambda>d. (d, i)) (put i 0 dest))"

definition strncpy :: "chars \<Rightarrow> chars \<Rightarrow> u64 \<Rightarrow> (chars \<times> nat) option" where
  "strncpy dest src n = strncpy_loop dest 0 src n"

subsection \<open>The class String\<close>

type_synonym char_heap = "nat \<rightharpoonup> chars"

record cpp_string =
  str_size :: nat
  str_data :: nat
  has_hash :: bool
  str_hash :: u64

text \<open>
  \<^verbatim>\<open>new char[k]\<close> at the address \<open>a\<close> chosen by the heap (all bytes are written before they are
  read), and \<^verbatim>\<open>delete\<close>, which accepts the null pointer and otherwise needs a live block.
\<close>

definition new_chars :: "nat \<Rightarrow> nat \<Rightarrow> char_heap \<Rightarrow> char_heap" where
  "new_chars a k h = h(a \<mapsto> replicate k 0)"

definition delete_chars :: "nat \<Rightarrow> char_heap \<Rightarrow> char_heap option" where
  "delete_chars p h = (if p = 0 then Some h else do { b \<leftarrow> h p; Some (h(p := None)) })"

text \<open>The copying loops: write the characters from position \<open>off\<close> on.\<close>

fun fill :: "nat \<Rightarrow> chars \<Rightarrow> chars \<Rightarrow> chars option" where
  "fill off [] d = Some d"
| "fill off (x # xs) d = do { d \<leftarrow> put off x d; fill (Suc off) xs d }"

definition take_chars :: "nat \<Rightarrow> chars \<Rightarrow> chars option" where
  "take_chars n b = (if n \<le> length b then Some (take n b) else None)"

definition string_empty :: "nat \<Rightarrow> char_heap \<Rightarrow> cpp_string \<times> char_heap" where
  "string_empty a h = (\<lparr>str_size = 0, str_data = a, has_hash = False, str_hash = 0\<rparr>, h(a \<mapsto> [0]))"

text \<open>The private constructor with a size.\<close>

definition string_sized :: "nat \<Rightarrow> nat \<Rightarrow> char_heap \<Rightarrow> cpp_string \<times> char_heap" where
  "string_sized a n h =
     (\<lparr>str_size = n, str_data = a, has_hash = False, str_hash = 0\<rparr>, new_chars a (n + 1) h)"

definition write_chars :: "nat \<Rightarrow> nat \<Rightarrow> chars \<Rightarrow> char_heap \<Rightarrow> char_heap option" where
  "write_chars p off xs h = do { d \<leftarrow> h p; d \<leftarrow> fill off xs d; Some (h(p \<mapsto> d)) }"

definition string_of_cstr :: "nat \<Rightarrow> char_ptr \<Rightarrow> char_heap \<Rightarrow> (cpp_string \<times> char_heap) option" where
  "string_of_cstr a str h = do {
     n \<leftarrow> strlen str;
     let (s, h) = string_sized a n h;
     xs \<leftarrow> (case str of None \<Rightarrow> Some [] | Some b \<Rightarrow> take_chars n b);
     h \<leftarrow> write_chars a 0 xs h;
     h \<leftarrow> write_chars a n [0] h;
     Some (s, h) }"

definition string_copy :: "nat \<Rightarrow> cpp_string \<Rightarrow> char_heap \<Rightarrow> (cpp_string \<times> char_heap) option" where
  "string_copy a str h = do {
     src \<leftarrow> h (str_data str);
     xs \<leftarrow> take_chars (str_size str) src;
     h \<leftarrow> write_chars a 0 xs (new_chars a (str_size str + 1) h);
     h \<leftarrow> write_chars a (str_size str) [0] h;
     Some (str\<lparr>str_data := a\<rparr>, h) }"

text \<open>The move constructor: the result shares the block with its argument, and its hash is \<^verbatim>\<open>_has_hash\<close>.\<close>

definition string_move :: "cpp_string \<Rightarrow> cpp_string" where
  "string_move str = str\<lparr>str_hash := of_bool (has_hash str)\<rparr>"

definition string_destroy :: "cpp_string \<Rightarrow> char_heap \<Rightarrow> char_heap option" where
  "string_destroy s h = delete_chars (str_data s) h"

definition string_plus :: "nat \<Rightarrow> cpp_string \<Rightarrow> cpp_string \<Rightarrow> char_heap \<Rightarrow> (cpp_string \<times> char_heap) option" where
  "string_plus a l r h = do {
     let (n, h) = string_sized a (str_size l + str_size r) h;
     ld \<leftarrow> h (str_data l); xs \<leftarrow> take_chars (str_size l) ld;
     h \<leftarrow> write_chars a 0 xs h;
     rd \<leftarrow> h (str_data r); ys \<leftarrow> take_chars (str_size r) rd;
     h \<leftarrow> write_chars a (str_size l) ys h;
     h \<leftarrow> write_chars a (str_size n) [0] h;
     Some (n, h) }"

definition string_plus_char :: "nat \<Rightarrow> cpp_string \<Rightarrow> u8 \<Rightarrow> char_heap \<Rightarrow> (cpp_string \<times> char_heap) option" where
  "string_plus_char a l c h = do {
     let (n, h) = string_sized a (str_size l + 1) h;
     ld \<leftarrow> h (str_data l); xs \<leftarrow> take_chars (str_size l) ld;
     h \<leftarrow> write_chars a 0 xs h;
     h \<leftarrow> write_chars a (str_size n - 1) [c] h;
     h \<leftarrow> write_chars a (str_size n) [0] h;
     Some (n, h) }"

text \<open>Assignment from a different object: the old block is deleted first.\<close>

definition string_assign :: "nat \<Rightarrow> cpp_string \<Rightarrow> cpp_string \<Rightarrow> char_heap \<Rightarrow> (cpp_string \<times> char_heap) option" where
  "string_assign a this s h = do {
     h \<leftarrow> delete_chars (str_data this) h;
     src \<leftarrow> h (str_data s);
     xs \<leftarrow> take_chars (str_size s) src;
     h \<leftarrow> write_chars a 0 xs (new_chars a (str_size s + 1) h);
     h \<leftarrow> write_chars a (str_size s) [0] h;
     Some (this\<lparr>str_size := str_size s, str_data := a, has_hash := False\<rparr>, h) }"

text \<open>Move assignment; the argument is left empty with a null pointer.\<close>

definition string_move_assign :: "cpp_string \<Rightarrow> cpp_string \<Rightarrow> char_heap \<Rightarrow> (cpp_string \<times> cpp_string \<times> char_heap) option" where
  "string_move_assign this s h = do {
     h \<leftarrow> delete_chars (str_data this) h;
     Some (s, s\<lparr>str_data := 0, str_size := 0\<rparr>, h) }"

definition string_index :: "cpp_string \<Rightarrow> nat \<Rightarrow> char_heap \<Rightarrow> u8 option" where
  "string_index s i h =
     (if str_size s \<le> i then Some 0
      else do { d \<leftarrow> h (str_data s); if i < length d then Some (d ! i) else None })"

fun eq_loop :: "nat \<Rightarrow> nat \<Rightarrow> chars \<Rightarrow> chars \<Rightarrow> bool option" where
  "eq_loop 0 i l r = Some True"
| "eq_loop (Suc k) i l r =
     (if length l \<le> i \<or> length r \<le> i then None
      else if l ! i \<noteq> r ! i then Some False else eq_loop k (Suc i) l r)"

definition string_eq :: "cpp_string \<Rightarrow> cpp_string \<Rightarrow> char_heap \<Rightarrow> bool option" where
  "string_eq l r h =
     (if str_size l \<noteq> str_size r then Some False
      else do { ld \<leftarrow> h (str_data l); rd \<leftarrow> h (str_data r); eq_loop (str_size l) 0 ld rd })"

text \<open>The FNV-1a hash; a \<^verbatim>\<open>char\<close> is signed, so it is extended with its sign.\<close>

fun fnv_loop :: "u64 \<Rightarrow> chars \<Rightarrow> u64" where
  "fnv_loop hash [] = hash"
| "fnv_loop hash (c # cs) = fnv_loop ((hash XOR scast c) * 1099511628211) cs"

definition compute_hash :: "cpp_string \<Rightarrow> char_heap \<Rightarrow> u64 option" where
  "compute_hash s h = do {
     d \<leftarrow> h (str_data s);
     xs \<leftarrow> take_chars (str_size s) d;
     Some (fnv_loop 14695981039346656037 xs) }"

definition get_hash :: "cpp_string \<Rightarrow> char_heap \<Rightarrow> (u64 \<times> cpp_string) option" where
  "get_hash s h =
     (if has_hash s then Some (str_hash s, s)
      else do { x \<leftarrow> compute_hash s h; Some (x, s\<lparr>str_hash := x, has_hash := True\<rparr>) })"

subsection \<open>Numbers and splitting\<close>

text \<open>\<^verbatim>\<open>ToString\<close>: the digits are written from the end of a buffer of 16 bytes and a terminator.\<close>

function ToString_loop :: "u32 \<Rightarrow> nat \<Rightarrow> chars \<Rightarrow> (nat \<times> chars) option" where
  "ToString_loop v i buffer =
     (if 0 < v then
        if i = 0 then None
        else do {
          buffer \<leftarrow> put (i - 1) (48 + ucast (v mod 10)) buffer;
          ToString_loop (v div 10) (i - 1) buffer }
      else Some (i, buffer))"
  by pat_completeness auto
termination by (relation "measure (\<lambda>(v, i, b). i)") auto

definition ToString :: "u32 \<Rightarrow> chars option" where
  "ToString v = do {
     let buffer = replicate 17 0;
     (i, buffer) \<leftarrow> (if v = 0 then do { b \<leftarrow> put 15 48 buffer; Some (15, b) } else ToString_loop v 16 buffer);
     n \<leftarrow> strlen (Some (drop i buffer));
     take_chars n (drop i buffer) }"

text \<open>
  \<^verbatim>\<open>String::split\<close>, on the contents of the strings. When an empty part is to be removed the loop
  continues without advancing, so it may not end: then the result is \<open>None\<close>.
\<close>

partial_function (option) split_loop :: "chars \<Rightarrow> u8 \<Rightarrow> bool \<Rightarrow> nat \<Rightarrow> chars \<Rightarrow> chars list \<Rightarrow> chars list option" where
  "split_loop s delim remove_empty start current r =
     (if start < length s then
        if s ! start = delim then
          if current = [] \<and> remove_empty then split_loop s delim remove_empty start current r
          else split_loop s delim remove_empty (Suc start) [] (r @ [current])
        else split_loop s delim remove_empty (Suc start) (current @ [s ! start]) r
      else Some (if current \<noteq> [] \<or> \<not> remove_empty then r @ [current] else r))"

definition split :: "chars \<Rightarrow> u8 \<Rightarrow> bool \<Rightarrow> chars list option" where
  "split s delim remove_empty = split_loop s delim remove_empty 0 [] []"

subsection \<open>Reading and copying C strings\<close>

definition cstr :: "chars \<Rightarrow> chars \<Rightarrow> bool" where
  "cstr b xs \<longleftrightarrow> 0 \<notin> set xs \<and> (\<exists>rest. b = xs @ 0 # rest)"

lemma cstr_simps [simp]:
  "\<not> cstr [] xs" "cstr (c # b) [] \<longleftrightarrow> c = 0" "cstr (c # b) (x # xs) \<longleftrightarrow> x = c \<and> c \<noteq> 0 \<and> cstr b xs"
  by (auto simp: cstr_def)

lemma strlen_from_cstr: "cstr b xs \<Longrightarrow> strlen_from b = Some (length xs)"
proof (induction b arbitrary: xs)
  case (Cons c b)
  then show ?case by (cases xs) auto
qed simp

lemma take_chars_cstr: "cstr b xs \<Longrightarrow> take_chars (length xs) b = Some xs"
  by (auto simp: cstr_def take_chars_def)

lemma strncmp_loop_cstr:
  "cstr b xs \<Longrightarrow> cstr d ys \<Longrightarrow> length xs = length ys \<Longrightarrow>
    strncmp_loop b d n = Some (if take n xs = take n ys then 0 else - 1)"
proof (induction b d n arbitrary: xs ys rule: strncmp_loop.induct)
  case (1 c cs d ds n)
  then show ?case by (cases xs; cases ys; cases n) auto
qed auto

lemma put_mid [simp]: "put (length pre) c (pre @ x # post) = Some (pre @ c # post)"
  by (simp add: put_def)

lemma put_at: "length pre = i \<Longrightarrow> put i c (pre @ x # post) = Some (pre @ c # post)"
  by auto

lemma strncpy_loop_cstr:
  assumes "cstr src xs" "length pre = i" "k = min (unat (n - 1)) (length xs)" "k < length d"
  shows "strncpy_loop (pre @ d) i src n = Some (pre @ take k xs @ 0 # drop (Suc k) d, i + k)"
  using assms
proof (induction src arbitrary: xs pre i k n d)
  case (Cons c src)
  obtain x d' where d: "d = x # d'" using Cons.prems(4) by (cases d) auto
  show ?case
  proof (cases "n - 1 \<noteq> 0 \<and> c \<noteq> 0")
    case True
    then obtain ys where xs: "xs = c # ys" "cstr src ys" using Cons.prems(1) by (cases xs) auto
    have "unat (n - 1) \<noteq> 0" using True by (simp add: unat_eq_zero)
    then have "unat (n - 1 - 1) = unat (n - 1) - 1" using True by (metis unat_minus_one)
    then have k: "k = Suc (min (unat (n - 1 - 1)) (length ys))"
      using Cons.prems(3) xs(1) \<open>unat (n - 1) \<noteq> 0\<close> by (simp add: min_def) arith
    have "strncpy_loop ((pre @ [c]) @ d') (Suc i) src (n - 1) =
        Some ((pre @ [c]) @ take (k - 1) ys @ 0 # drop (Suc (k - 1)) d', Suc i + (k - 1))"
      using Cons.prems(2,4) k d by (intro Cons.IH [OF xs(2)]) auto
    then show ?thesis using True Cons.prems(2) d xs(1) k by (simp add: put_at)
  next
    case False
    then have "k = 0" using Cons.prems(1,3) by (cases xs) auto
    then show ?thesis using False Cons.prems(2) d by (auto simp: put_at)
  qed
qed simp

subsection \<open>Numerals\<close>

definition digit :: "nat \<Rightarrow> u8" where
  "digit d = (if d < 10 then 48 + of_nat d else 87 + of_nat d)"

text \<open>The reference: the usual positional notation of a number in base \<open>b\<close>.\<close>

function numeral_in :: "nat \<Rightarrow> nat \<Rightarrow> chars" where
  "numeral_in b n = (if b < 2 \<or> n < b then [digit n] else numeral_in b (n div b) @ [digit (n mod b)])"
  by pat_completeness auto
termination by (relation "measure snd") (auto simp: div_less_dividend)

declare numeral_in.simps [simp del]

lemma numeral_in_length: "2 \<le> b \<Longrightarrow> n < b ^ Suc k \<Longrightarrow> length (numeral_in b n) \<le> Suc k"
proof (induction k arbitrary: n)
  case 0
  then show ?case by (simp add: numeral_in.simps [of b n])
next
  case (Suc k)
  show ?case
  proof (cases "n < b")
    case False
    then have "length (numeral_in b (n div b)) \<le> Suc k"
      using Suc by (intro Suc.IH) (simp_all add: div_less_iff_less_mult mult.commute)
    then show ?thesis using False Suc.prems(1) by (simp add: numeral_in.simps [of b n])
  qed (simp add: numeral_in.simps [of b n])
qed

lemma digit_nonzero: "d < 36 \<Longrightarrow> digit d \<noteq> 0"
  by (auto simp: digit_def word_unat_eq_iff unat_word_ariths unat_of_nat)

lemma numeral_in_nonzero: "2 \<le> b \<Longrightarrow> b \<le> 36 \<Longrightarrow> 0 \<notin> set (numeral_in b n)"
proof (induction b n rule: numeral_in.induct)
  case (1 b n)
  have "n mod b < b" using 1(2) by simp
  then have "digit (n mod b) \<noteq> 0" "n < b \<longrightarrow> digit n \<noteq> 0" using 1(3) digit_nonzero [of "n mod b"] digit_nonzero [of n] by auto
  then show ?case using 1 by (auto simp: numeral_in.simps [of b n])
qed

lemma ucast_of_unat: "(ucast (w :: 'a::len word) :: u8) = of_nat (unat w)"
  by (simp add: word_unat_eq_iff unsigned_ucast_eq unsigned_of_nat)

declare ToString_loop.simps [simp del]

lemma ToString_loop_numeral:
  assumes "0 < v" "length (numeral_in 10 (unat v)) \<le> length pre"
  shows "ToString_loop v (length pre) (pre @ acc) =
    Some (length pre - length (numeral_in 10 (unat v)),
          take (length pre - length (numeral_in 10 (unat v))) pre @ numeral_in 10 (unat v) @ acc)"
  using assms
proof (induction "unat v" arbitrary: v pre acc rule: less_induct)
  case less
  let ?d = "digit (unat v mod 10)" and ?ds = "numeral_in 10 (unat v)"
  have d: "48 + ucast (v mod 10) = ?d" by (simp add: digit_def ucast_of_unat unat_mod_distrib)
  have "?ds \<noteq> []" by (simp add: numeral_in.simps [of 10 "unat v"])
  then obtain q x where pre: "pre = q @ [x]" using less.prems(2) by (cases pre rule: rev_cases) auto
  have step: "ToString_loop v (length pre) (pre @ acc) = ToString_loop (v div 10) (length q) (q @ ?d # acc)"
    using less.prems(1) pre d by (simp add: ToString_loop.simps [of v])
  have dv: "unat (v div 10) = unat v div 10" by (simp add: unat_div_distrib)
  show ?case
  proof (cases "v div 10 = 0")
    case True
    then have "unat v < 10" using dv by (simp add: div_eq_0_iff)
    then have "?ds = [?d]" by (simp add: numeral_in.simps [of 10 "unat v"])
    then show ?thesis using True step pre by (simp add: ToString_loop.simps [of 0])
  next
    case False
    then have v: "10 \<le> unat v" "unat (v div 10) < unat v" "0 < v div 10"
      using dv less.prems(1) by (auto simp: word_gt_0 div_eq_0_iff unat_eq_zero [symmetric] word_less_nat_alt)
    then have ds: "?ds = numeral_in 10 (unat (v div 10)) @ [?d]" using dv by (simp add: numeral_in.simps [of 10 "unat v"])
    then show ?thesis
      using less.hyps [OF v(2,3), of q "?d # acc"] less.prems(2) step pre by simp
  qed
qed

lemma ToString_numeral: "ToString v = Some (numeral_in 10 (unat v))"
proof (cases "v = 0")
  case True
  have r: "replicate 17 (0::u8) = replicate 15 0 @ [0, 0]" by (simp add: numeral_eq_Suc)
  then show ?thesis
    using True by (simp add: ToString_def r put_at strlen_def take_chars_def numeral_in.simps [of 10 0] digit_def)
next
  case False
  let ?ds = "numeral_in 10 (unat v)"
  have r: "replicate 17 (0::u8) = replicate 16 0 @ [0]" by (simp add: numeral_eq_Suc)
  have "unat v < 10 ^ Suc 9" using unsigned_less [where 'a = nat, of v] by simp
  then have len: "length ?ds \<le> 10" using numeral_in_length [of 10 "unat v" 9] by simp
  have "ToString_loop v 16 (replicate 17 0) = Some (16 - length ?ds, replicate (16 - length ?ds) 0 @ ?ds @ [0])"
    using ToString_loop_numeral [of v "replicate 16 0" "[0]"] False len
    by (simp add: word_gt_0 r)
  moreover have "cstr (?ds @ [0]) ?ds" using numeral_in_nonzero [of 10 "unat v"] by (simp add: cstr_def)
  ultimately show ?thesis using False
    by (simp add: ToString_def strlen_def strlen_from_cstr take_chars_cstr)
qed

subsection \<open>Splitting\<close>

fun join :: "u8 \<Rightarrow> chars list \<Rightarrow> chars" where
  "join d [] = []"
| "join d [p] = p"
| "join d (p # q # ps) = p @ d # join d (q # ps)"

lemma split_loop_chars:
  "d \<notin> set x \<Longrightarrow> split_loop (pre @ x @ post) d e (length pre) cur r =
     split_loop (pre @ x @ post) d e (length pre + length x) (cur @ x) r"
proof (induction x arbitrary: pre cur)
  case (Cons c x)
  have "split_loop (pre @ (c # x) @ post) d e (length pre) cur r =
      split_loop ((pre @ [c]) @ x @ post) d e (length (pre @ [c])) (cur @ [c]) r"
    using Cons.prems by (subst split_loop.simps) auto
  also have "\<dots> = split_loop ((pre @ [c]) @ x @ post) d e (length (pre @ [c]) + length x) ((cur @ [c]) @ x) r"
    using Cons.prems by (intro Cons.IH) simp
  finally show ?case by simp
qed simp

lemma split_loop_stuck:
  assumes "start < length s" "s ! start = d"
  shows "split_loop s d True start [] r = None"
proof -
  have "\<not> (s = s' \<and> d = d' \<and> e \<and> start = start' \<and> cur = [])" if "split_loop s' d' e start' cur r' = Some y" for s' d' e start' cur r' y
    by (rule split_loop.raw_induct [OF _ that]) (use assms in \<open>fastforce split: if_splits\<close>)
  then show ?thesis by (cases "split_loop s d True start [] r") blast+
qed

lemma split_loop_join:
  assumes "ps \<noteq> []" "\<forall>p \<in> set ps. d \<notin> set p"
  shows "split_loop (pre @ join d ps) d e (length pre) [] r =
    (if e then if [] \<in> set (butlast ps) then None else Some (r @ filter (\<lambda>p. p \<noteq> []) ps)
     else Some (r @ ps))"
  using assms
proof (induction ps arbitrary: pre r rule: join.induct)
  case (2 d p)
  then show ?case using split_loop_chars [of d p pre "[]" e "[]" r] by (auto simp: split_loop.simps)
next
  case (3 d p q ps)
  let ?s = "pre @ join d (p # q # ps)"
  have s: "split_loop ?s d e (length pre) [] r = split_loop ?s d e (length pre + length p) p r"
    using split_loop_chars [of d p pre "d # join d (q # ps)" e "[]" r] 3(3) by simp
  have at: "length pre + length p < length ?s" "?s ! (length pre + length p) = d" by (auto simp: nth_append)
  show ?case
  proof (cases "p = [] \<and> e")
    case True
    then show ?thesis using s at split_loop_stuck [of "length pre" ?s d r] by simp
  next
    case False
    then have "split_loop ?s d e (length pre + length p) p r =
        split_loop ((pre @ p @ [d]) @ join d (q # ps)) d e (length (pre @ p @ [d])) [] (r @ [p])"
      using at by (subst split_loop.simps) auto
    then show ?thesis using s False 3(1) [of "pre @ p @ [d]" "r @ [p]"] 3(3) by auto
  qed
qed simp

subsection \<open>Contents of strings\<close>

definition holds :: "char_heap \<Rightarrow> cpp_string \<Rightarrow> chars \<Rightarrow> bool" where
  "holds h s xs \<longleftrightarrow> h (str_data s) = Some (xs @ [0]) \<and> length xs = str_size s \<and> str_data s \<noteq> 0
     \<and> (has_hash s \<longrightarrow> str_hash s = fnv_loop 14695981039346656037 xs)"

lemma fill_mid: "length ys = length xs \<Longrightarrow> fill (length pre) xs (pre @ ys @ post) = Some (pre @ xs @ post)"
proof (induction xs arbitrary: pre ys)
  case (Cons x xs)
  then obtain y zs where ys: "ys = y # zs" "length zs = length xs" by (cases ys) auto
  then have "fill (length pre) (x # xs) (pre @ ys @ post) = fill (length (pre @ [x])) xs ((pre @ [x]) @ zs @ post)"
    by simp
  also have "\<dots> = Some ((pre @ [x]) @ xs @ post)" using ys(2) by (rule Cons.IH)
  finally show ?case by simp
qed simp

lemma write_chars_mid:
  "h p = Some (pre @ ys @ post) \<Longrightarrow> length pre = off \<Longrightarrow> length ys = length xs \<Longrightarrow>
    write_chars p off xs h = Some (h(p \<mapsto> pre @ xs @ post))"
  using fill_mid [of ys xs pre post] by (auto simp: write_chars_def)

lemma take_chars_holds: "holds h s xs \<Longrightarrow> take_chars (str_size s) (xs @ [0]) = Some xs"
  by (simp add: holds_def take_chars_def)

lemma replicate_split: "k + m = n \<Longrightarrow> replicate n x = replicate k x @ replicate m x"
  by (auto simp: replicate_add)

lemma holds_fresh: "holds h s xs \<Longrightarrow> h a = None \<Longrightarrow> str_data s \<noteq> a"
  by (auto simp: holds_def)

lemma write_terminated:
  assumes "h a = Some (replicate (Suc (length xs)) 0)"
  shows "do { h \<leftarrow> write_chars a 0 xs h; write_chars a (length xs) [0] h } = Some (h(a \<mapsto> xs @ [0]))"
proof -
  have "h a = Some ([] @ replicate (length xs) 0 @ [0])" using assms by (simp add: replicate_append_same)
  then have "write_chars a 0 xs h = Some (h(a \<mapsto> xs @ [0]))"
    using write_chars_mid [of h a "[]" "replicate (length xs) 0" "[0]" 0 xs] by simp
  moreover have "write_chars a (length xs) [0] (h(a \<mapsto> xs @ [0])) = Some (h(a \<mapsto> xs @ [0]))"
    using write_chars_mid [of "h(a \<mapsto> xs @ [0])" a xs "[0]" "[]" "length xs" "[0]"] by simp
  ultimately show ?thesis by simp
qed

lemma string_copy_holds:
  assumes "holds h s xs" "h a = None"
  shows "string_copy a s h = Some (s\<lparr>str_data := a\<rparr>, h(a \<mapsto> xs @ [0]))"
proof -
  have n: "length xs = str_size s" "h (str_data s) = Some (xs @ [0])" using assms(1) by (auto simp: holds_def)
  have "do { h \<leftarrow> write_chars a 0 xs (new_chars a (Suc (str_size s)) h); write_chars a (str_size s) [0] h } = Some (h(a \<mapsto> xs @ [0]))"
    using write_terminated [of "new_chars a (Suc (str_size s)) h" a xs] n(1) by (simp add: new_chars_def)
  then show ?thesis using n take_chars_holds [OF assms(1)] by (auto simp: string_copy_def bind_eq_Some_iff)
qed

lemma string_plus_holds:
  assumes l: "holds h l xs" and r: "holds h r ys" and a: "h a = None"
  shows "string_plus a l r h = Some (\<lparr>str_size = length xs + length ys, str_data = a, has_hash = False, str_hash = 0\<rparr>,
    h(a \<mapsto> xs @ ys @ [0]))"
proof -
  have n: "length xs = str_size l" "h (str_data l) = Some (xs @ [0])" "length ys = str_size r" "h (str_data r) = Some (ys @ [0])"
    using l r by (auto simp: holds_def)
  have ne: "str_data l \<noteq> a" "str_data r \<noteq> a" using holds_fresh l r a by auto
  let ?h0 = "h(a \<mapsto> replicate (Suc (length xs + length ys)) 0)"
  have "write_chars a 0 xs ?h0 = Some (h(a \<mapsto> xs @ replicate (Suc (length ys)) 0))"
    by (subst write_chars_mid [where pre = "[]" and ys = "replicate (length xs) 0" and post = "replicate (Suc (length ys)) 0"])
      (simp_all add: replicate_add replicate_app_Cons_same)
  moreover have "write_chars a (length xs) ys (h(a \<mapsto> xs @ replicate (Suc (length ys)) 0)) = Some (h(a \<mapsto> xs @ ys @ [0]))"
    by (subst write_chars_mid [where pre = xs and ys = "replicate (length ys) 0" and post = "[0]"])
      (simp_all add: replicate_append_same)
  moreover have "write_chars a (length xs + length ys) [0] (h(a \<mapsto> xs @ ys @ [0])) = Some (h(a \<mapsto> xs @ ys @ [0]))"
    by (subst write_chars_mid [where pre = "xs @ ys" and ys = "[0]" and post = "[]"]) simp_all
  ultimately show ?thesis
    using n(2,4) ne take_chars_holds [OF l] take_chars_holds [OF r]
    by (simp add: string_plus_def string_sized_def new_chars_def n(1,3) [symmetric])
qed

lemma string_plus_char_holds:
  assumes l: "holds h l xs" and a: "h a = None"
  shows "string_plus_char a l c h = Some (\<lparr>str_size = Suc (length xs), str_data = a, has_hash = False, str_hash = 0\<rparr>,
    h(a \<mapsto> xs @ [c, 0]))"
proof -
  have n: "length xs = str_size l" "h (str_data l) = Some (xs @ [0])" using l by (auto simp: holds_def)
  have ne: "str_data l \<noteq> a" using holds_fresh l a by auto
  let ?h0 = "h(a \<mapsto> replicate (Suc (Suc (length xs))) 0)"
  have "write_chars a 0 xs ?h0 = Some (h(a \<mapsto> xs @ [0, 0]))"
    by (subst write_chars_mid [where pre = "[]" and ys = "replicate (length xs) 0" and post = "[0, 0]"])
      (simp_all add: replicate_app_Cons_same)
  moreover have "write_chars a (length xs) [c] (h(a \<mapsto> xs @ [0, 0])) = Some (h(a \<mapsto> xs @ [c, 0]))"
    by (subst write_chars_mid [where pre = xs and ys = "[0]" and post = "[0]"]) simp_all
  moreover have "write_chars a (Suc (length xs)) [0] (h(a \<mapsto> xs @ [c, 0])) = Some (h(a \<mapsto> xs @ [c, 0]))"
    by (subst write_chars_mid [where pre = "xs @ [c]" and ys = "[0]" and post = "[]"]) simp_all
  ultimately show ?thesis
    using n(2) ne take_chars_holds [OF l]
    by (simp add: string_plus_char_def string_sized_def new_chars_def n(1) [symmetric])
qed

lemma eq_loop_iff:
  "i + k \<le> length l \<Longrightarrow> i + k \<le> length r \<Longrightarrow> eq_loop k i l r = Some (take k (drop i l) = take k (drop i r))"
proof (induction k i l r rule: eq_loop.induct)
  case (2 k i l r)
  then have "drop i l = l ! i # drop (Suc i) l" "drop i r = r ! i # drop (Suc i) r"
    by (simp_all add: Cons_nth_drop_Suc)
  then show ?case using 2 by auto
qed simp

lemma string_eq_holds: "holds h l xs \<Longrightarrow> holds h r ys \<Longrightarrow> string_eq l r h = Some (xs = ys)"
  using eq_loop_iff [of 0 "length xs" "xs @ [0]" "ys @ [0]"] by (auto simp: string_eq_def holds_def)

lemma string_index_holds: "holds h s xs \<Longrightarrow> string_index s i h = Some (if i < length xs then xs ! i else 0)"
  by (auto simp: string_index_def holds_def nth_append)

lemma get_hash_holds:
  "holds h s xs \<Longrightarrow> \<exists>s'. get_hash s h = Some (fnv_loop 14695981039346656037 xs, s') \<and> holds h s' xs"
  using take_chars_holds [of h s xs] by (auto simp: get_hash_def compute_hash_def holds_def)

subsection \<open>Properties\<close>



text \<open>
  The move constructor leaves two owners of one block and forgets the hash: destroying the
  new string and then the old one frees the block twice, and a string whose hash was known
  reports 1 as its hash after the move.
\<close>

theorem string_move_double_free:
  assumes "holds h s xs"
  shows "do { h \<leftarrow> string_destroy (string_move s) h; string_destroy s h } = None
    \<and> (has_hash s \<longrightarrow> map_option fst (get_hash (string_move s) h) = Some 1)"
  using assms by (simp add: string_destroy_def string_move_def delete_chars_def holds_def get_hash_def)

theorem string_move_double_free_witness:
  "do { h \<leftarrow> string_destroy (string_move \<lparr>str_size = 1, str_data = 1, has_hash = False, str_hash = 0\<rparr>) [1 \<mapsto> [97, 0]];
        string_destroy \<lparr>str_size = 1, str_data = 1, has_hash = False, str_hash = 0\<rparr> h } = None"
  using string_move_double_free [of "[1 \<mapsto> [97, 0]]" "\<lparr>str_size = 1, str_data = 1, has_hash = False, str_hash = 0\<rparr>" "[97]"]
  by (simp add: holds_def)

text \<open>
  C31. Splitting inverts joining: a string made of parts that do not contain the delimiter is
  split into these parts. When empty parts are to be removed, the empty last part is, but an
  empty part before it makes the loop run forever.
\<close>

theorem split_join:
  assumes "ps \<noteq> []" "\<forall>p \<in> set ps. d \<notin> set p"
  shows "split (join d ps) d False = Some ps
    \<and> split (join d ps) d True = (if [] \<in> set (butlast ps) then None else Some (filter (\<lambda>p. p \<noteq> []) ps))"
  using split_loop_join [OF assms, of "[]"] by (simp add: split_def)

theorem split_join_witness:
  "split [97, 47, 98] 47 False = Some [[97], [98]] \<and> split [47, 97] 47 True = None"
  using split_join [of "[[97], [98]]" 47] split_join [of "[[], [97]]" 47] by simp

text \<open>
  \<^verbatim>\<open>ToString\<close> is the decimal numeral of its argument, for every 32-bit number: the buffer is
  never overrun.
\<close>

theorem to_string_decimal: "ToString v = Some (numeral_in 10 (unat v))"
  by (rule ToString_numeral)

text \<open>
  \<^verbatim>\<open>strncpy\<close> writes at most \<^verbatim>\<open>n\<close> bytes, always a terminator, and returns a pointer to it; the
  bound is computed modulo \<open>2 ^ 64\<close>, so with \<^verbatim>\<open>n\<close> zero it copies the whole source.
\<close>

theorem strncpy_bounded:
  assumes "cstr src xs" "k = min (unat (n - 1)) (length xs)" "k < length dest"
  shows "strncpy dest src n = Some (take k xs @ 0 # drop (Suc k) dest, k) \<and> (n \<noteq> 0 \<longrightarrow> k < unat n)"
proof -
  have "unat (n - 1) < unat n" if "n \<noteq> 0" using that by (metis unat_minus_one diff_less unat_gt_0 zero_less_one)
  then show ?thesis using strncpy_loop_cstr [OF assms(1) _ assms(2,3), of "[]" 0] assms(2) by (auto simp: strncpy_def)
qed

theorem strncpy_bounded_witness: "strncpy [1, 2, 3] [97, 98, 99, 0] 2 = Some ([97, 0, 3], 1)"
proof -
  have "cstr [97, 98, 99, 0] [97, 98, 99 :: u8]" by simp
  moreover have "(1::nat) = min (unat (2 - 1 :: u64)) (length [97, 98, 99 :: u8])" by simp
  ultimately show ?thesis using strncpy_bounded [of "[97, 98, 99, 0]" "[97, 98, 99]" 1 2 "[1, 2, 3]"] by simp
qed

end
