(* ===== verification/Device.thy ===== *)
theory Device
  imports Kernel_Map Util_String
begin

text \<open>
  Devices: the classes of \<^verbatim>\<open>drivers/device.h\<close>, the registry of \<^verbatim>\<open>kernel/device-manager.cpp\<close> and the
  block devices and partitions of \<^verbatim>\<open>drivers/block\<close>. Devices are numbers, the indices of a table.
\<close>

subsection \<open>Device classes\<close>

text \<open>A class is a static object; its parent and name identify it.\<close>

datatype device_class = Device_Class (class_parent: "device_class option") (class_name: chars)

fun class_is :: "device_class \<Rightarrow> device_class \<Rightarrow> bool" where
  "class_is (Device_Class p n) t \<longleftrightarrow>
     (if Device_Class p n = t then True
      else case p of None \<Rightarrow> False | Some q \<Rightarrow> class_is q t)"

definition RootDeviceClass :: device_class where
  "RootDeviceClass = Device_Class None []"

definition BlockDeviceClass :: device_class where
  "BlockDeviceClass = Device_Class (Some RootDeviceClass) (map (of_nat \<circ> of_char) ''block'')"

definition BlockDevicePartitionClass :: device_class where
  "BlockDevicePartitionClass = Device_Class (Some BlockDeviceClass) (map (of_nat \<circ> of_char) ''block-partition'')"

subsection \<open>Block devices\<close>

text \<open>
  A block device is what its virtual functions compute: \<open>blk_read off n\<close> are the bytes of \<open>n\<close>
  blocks, or \<open>None\<close> when the read fails.
\<close>

record block_device =
  blk_size :: u64
  blk_count :: u64
  blk_read :: "u64 \<Rightarrow> u64 \<Rightarrow> chars option"

definition partition_device :: "block_device \<Rightarrow> u64 \<Rightarrow> u64 \<Rightarrow> block_device" where
  "partition_device dev block_offset block_count =
     \<lparr>blk_size = blk_size dev, blk_count = block_count, blk_read = (\<lambda>off n. blk_read dev (block_offset + off) n)\<rparr>"

subsection \<open>The device manager\<close>

record device =
  dev_name :: chars
  dev_class :: device_class
  dev_opens_as_file :: bool
  dev_block :: "block_device option"

record device_manager =
  device_table :: "device list"
  devices :: "(u64, nat) kmap"
  instance_count :: "device_class \<Rightarrow> u64"

definition name_hash :: "chars \<Rightarrow> u64" where
  "name_hash xs = fnv_loop 14695981039346656037 xs"

definition acquire_instance :: "device_class \<Rightarrow> device_manager \<Rightarrow> u64 \<times> device_manager" where
  "acquire_instance c dm = (instance_count dm c, dm\<lparr>instance_count := (instance_count dm)(c := instance_count dm c + 1)\<rparr>)"

definition assign_name :: "nat \<Rightarrow> chars \<Rightarrow> device_manager \<Rightarrow> device_manager" where
  "assign_name d n dm = dm\<lparr>device_table := (device_table dm)[d := (device_table dm ! d)\<lparr>dev_name := n\<rparr>]\<rparr>"

text \<open>
  \<^verbatim>\<open>init\<close> is the virtual function of the device, which may register further devices; its default
  returns true.
\<close>

definition register_device :: "(nat \<Rightarrow> device_manager \<Rightarrow> bool \<times> device_manager) \<Rightarrow> nat \<Rightarrow> device_manager
    \<Rightarrow> (bool \<times> device_manager) option" where
  "register_device init d dm = do {
     let c = dev_class (device_table dm ! d);
     let (instance', dm) = acquire_instance c dm;
     digits \<leftarrow> ToString (ucast instance');
     let dm = assign_name d (class_name c @ digits) dm;
     let dm = dm\<lparr>devices := kadd (name_hash (dev_name (device_table dm ! d))) d (devices dm)\<rparr>;
     let (ok, dm) = init d dm;
     if \<not> ok then Some (False, dm) else Some (True, dm) }"

definition add_device_alias :: "chars \<Rightarrow> nat \<Rightarrow> device_manager \<Rightarrow> bool \<times> device_manager" where
  "add_device_alias name d dm = (True, dm\<lparr>devices := kadd (name_hash name) d (devices dm)\<rparr>)"

definition try_get_device_by_name :: "chars \<Rightarrow> device_manager \<Rightarrow> nat option" where
  "try_get_device_by_name name dm = kget (devices dm) (name_hash name)"

definition try_get_device_by_class :: "device_class \<Rightarrow> device_manager \<Rightarrow> nat option" where
  "try_get_device_by_class c dm =
     map_option snd (List.find (\<lambda>(k, d). class_is (dev_class (device_table dm ! d)) c) (kentries (devices dm)))"

definition Device_init :: "nat \<Rightarrow> device_manager \<Rightarrow> bool \<times> device_manager" where
  "Device_init d dm = (True, dm)"

subsection \<open>Looking devices up\<close>

lemma find_Some_sat: "List.find P xs = Some x \<Longrightarrow> P x \<and> x \<in> set xs"
  by (auto simp: find_Some_iff)

lemma by_class_Some:
  "try_get_device_by_class c dm = Some d \<Longrightarrow> class_is (dev_class (device_table dm ! d)) c \<and> (\<exists>k. kget (devices dm) k = Some d)"
  by (auto simp: try_get_device_by_class_def kmaps.entries_iff dest!: find_Some_sat)

lemma by_class_None:
  assumes "kget (devices dm) k = Some d" "class_is (dev_class (device_table dm ! d)) c"
  shows "try_get_device_by_class c dm \<noteq> None"
  using assms kmaps.entries_iff [of k d "devices dm"] by (auto simp: try_get_device_by_class_def find_None_iff)

text \<open>
  A registered device gets the name of its class with the number of the instance, is found
  under that name and by its class or any class above it; lookups of names with another hash, and
  the other devices, are as before.
\<close>

theorem register_device_found:
  assumes "d < length (device_table dm)"
  shows "\<exists>dm' c n. register_device Device_init d dm = Some (True, dm')
    \<and> c = dev_class (device_table dm ! d) \<and> n = class_name c @ numeral_in 10 (unat (ucast (instance_count dm c) :: u32))
    \<and> dev_name (device_table dm' ! d) = n \<and> try_get_device_by_name n dm' = Some d
    \<and> (\<forall>m. name_hash m \<noteq> name_hash n \<longrightarrow> try_get_device_by_name m dm' = try_get_device_by_name m dm)
    \<and> (\<forall>e. e \<noteq> d \<longrightarrow> device_table dm' ! e = device_table dm ! e)
    \<and> (\<forall>t. class_is c t \<longrightarrow> (\<exists>e. try_get_device_by_class t dm' = Some e \<and> class_is (dev_class (device_table dm' ! e)) t))"
proof -
  define c where "c = dev_class (device_table dm ! d)"
  define n where "n = class_name c @ numeral_in 10 (unat (ucast (instance_count dm c) :: u32))"
  define dm' where "dm' = dm\<lparr>instance_count := (instance_count dm)(c := instance_count dm c + 1),
    device_table := (device_table dm)[d := (device_table dm ! d)\<lparr>dev_name := n\<rparr>], devices := kadd (name_hash n) d (devices dm)\<rparr>"
  have r: "register_device Device_init d dm = Some (True, dm')"
    using assms by (simp add: register_device_def acquire_instance_def assign_name_def Device_init_def ToString_numeral
        c_def [symmetric] n_def [symmetric] dm'_def)
  have t: "device_table dm' = (device_table dm)[d := (device_table dm ! d)\<lparr>dev_name := n\<rparr>]" "devices dm' = kadd (name_hash n) d (devices dm)"
    by (auto simp: dm'_def)
  have "\<exists>e. try_get_device_by_class u dm' = Some e \<and> class_is (dev_class (device_table dm' ! e)) u" if "class_is c u" for u
  proof -
    have "class_is (dev_class (device_table dm' ! d)) u" "kget (devices dm') (name_hash n) = Some d" using that assms by (simp_all add: t c_def)
    then obtain e where "try_get_device_by_class u dm' = Some e" using by_class_None by blast
    then show ?thesis using by_class_Some by blast
  qed
  then show ?thesis using r assms
    by (intro exI [of _ dm'] exI [of _ c] exI [of _ n]) (auto simp: t c_def n_def try_get_device_by_name_def)
qed

theorem register_device_found_witness:
  "\<exists>dm'. register_device Device_init 0 \<lparr>device_table = [\<lparr>dev_name = [], dev_class = BlockDevicePartitionClass,
        dev_opens_as_file = False, dev_block = None\<rparr>], devices = kempty, instance_count = (\<lambda>_. 7)\<rparr> = Some (True, dm')
    \<and> try_get_device_by_name (map (of_nat \<circ> of_char) ''block-partition7'') dm' = Some 0
    \<and> (\<exists>e. try_get_device_by_class BlockDeviceClass dm' = Some e)"
proof -
  let ?dm = "\<lparr>device_table = [\<lparr>dev_name = [], dev_class = BlockDevicePartitionClass,
        dev_opens_as_file = False, dev_block = None\<rparr>], devices = kempty, instance_count = (\<lambda>_. 7)\<rparr>"
  have "class_is BlockDevicePartitionClass BlockDeviceClass"
    by (simp add: BlockDevicePartitionClass_def BlockDeviceClass_def RootDeviceClass_def)
  moreover have "class_name BlockDevicePartitionClass @ numeral_in 10 (unat (ucast (7 :: u64) :: u32))
      = map (of_nat \<circ> of_char) ''block-partition7''"
    by (simp add: BlockDevicePartitionClass_def numeral_in.simps digit_def)
  ultimately show ?thesis using register_device_found [of 0 ?dm] by auto
qed

end
