(* ===== verification/Machine_Addr.thy ===== *)
theory Machine_Addr
  imports Prelude
begin

text \<open>
  The address arithmetic of \<^verbatim>\<open>include/infos/define.h\<close>: the two kernel windows onto
  physical memory, page numbers and offsets, alignment and the page-order computation
  \<^verbatim>\<open>__log2ceil\<close>. Addresses are 64-bit words; an \<^verbatim>\<open>assert\<close> that fails is \<open>None\<close>.
\<close>

type_synonym phys_addr = u64
type_synonym virt_addr = u64
type_synonym pfn = u64

definition KERNEL_VMEM_START :: u64 where
  "KERNEL_VMEM_START = 0xFFFFFFFF80000000"

definition KERNEL_VMEM_END :: u64 where
  "KERNEL_VMEM_END = 0xFFFFFFFFFFFFFFFF"

definition KERNEL_VMEM_SIZE :: u64 where
  "KERNEL_VMEM_SIZE = KERNEL_VMEM_END - KERNEL_VMEM_START + 1"

definition PMEM_VA_START :: u64 where
  "PMEM_VA_START = 0xFFFF800000000000"

definition PMEM_VA_END :: u64 where
  "PMEM_VA_END = 0xFFFF800100000000"

definition PMEM_VA_SIZE :: u64 where
  "PMEM_VA_SIZE = PMEM_VA_END - PMEM_VA_START"

definition page_bits :: nat where
  "page_bits = 12"

definition page_size :: u64 where
  "page_size = push_bit page_bits 1"

definition page_offset :: "u64 \<Rightarrow> u64" where
  "page_offset a = a AND (page_size - 1)"

definition page_base :: "u64 \<Rightarrow> u64" where
  "page_base a = a AND NOT (page_size - 1)"

definition page_index :: "u64 \<Rightarrow> u64" where
  "page_index a = drop_bit page_bits a"

definition pa_to_kva :: "phys_addr \<Rightarrow> virt_addr option" where
  "pa_to_kva pa = do {
     guard (pa < KERNEL_VMEM_SIZE);
     Some (KERNEL_VMEM_START + pa) }"

definition kva_to_pa :: "virt_addr \<Rightarrow> phys_addr option" where
  "kva_to_pa va = do {
     guard (va \<ge> KERNEL_VMEM_START \<and> va \<le> KERNEL_VMEM_END);
     Some (va - KERNEL_VMEM_START) }"

definition pa_to_vpa :: "phys_addr \<Rightarrow> virt_addr option" where
  "pa_to_vpa pa = do {
     guard (pa < PMEM_VA_SIZE);
     Some (PMEM_VA_START + pa) }"

definition vpa_to_pa :: "virt_addr \<Rightarrow> phys_addr option" where
  "vpa_to_pa va = do {
     guard (va \<ge> PMEM_VA_START \<and> va < PMEM_VA_END);
     Some (va - PMEM_VA_START) }"

definition pa_to_pfn :: "phys_addr \<Rightarrow> pfn" where
  "pa_to_pfn pa = drop_bit page_bits pa"

definition pfn_to_pa :: "pfn \<Rightarrow> phys_addr" where
  "pfn_to_pa pfn = push_bit page_bits pfn"

text \<open>The macro \<^verbatim>\<open>__align_up\<close>, on 64-bit values.\<close>

definition align_up :: "u64 \<Rightarrow> u64 \<Rightarrow> u64" where
  "align_up v al = v + (if v mod al = 0 then 0 else al - v mod al)"

definition align_up_page :: "u64 \<Rightarrow> u64" where
  "align_up_page v = align_up v page_size"

text \<open>
  \<^verbatim>\<open>__builtin_clzll\<close> (a compiler builtin) counts the zero bits above the highest set bit.
\<close>

definition clzll :: "u64 \<Rightarrow> nat" where
  "clzll x = length (takeWhile (\<lambda>i. \<not> bit x i) (rev [0..<64]))"

definition log2ceil :: "u64 \<Rightarrow> nat" where
  "log2ceil x =
     (if x = 0 then 0
      else (63 - clzll x) + (if x AND (x - 1) \<noteq> 0 then 1 else 0))"

definition min64 :: "u64 \<Rightarrow> u64 \<Rightarrow> u64" where
  "min64 x y = (if x < y then x else y)"

definition max64 :: "u64 \<Rightarrow> u64 \<Rightarrow> u64" where
  "max64 x y = (if x < y then y else x)"

lemmas addr_consts =
  KERNEL_VMEM_START_def KERNEL_VMEM_END_def KERNEL_VMEM_SIZE_def
  PMEM_VA_START_def PMEM_VA_END_def PMEM_VA_SIZE_def page_bits_def page_size_def

subsection \<open>The address windows and page arithmetic\<close>

lemma pa_to_kva_Some: "pa_to_kva pa = Some va \<longleftrightarrow> unat pa < 2 ^ 31 \<and> va = KERNEL_VMEM_START + pa"
  by (auto simp: pa_to_kva_def addr_consts bind_eq_Some_iff word_less_nat_alt)

lemma kva_roundtrip: "pa_to_kva pa = Some va \<longleftrightarrow> kva_to_pa va = Some pa"
proof -
  have "pa < 0x80000000 \<and> va = KERNEL_VMEM_START + pa \<longleftrightarrow>
        va \<ge> KERNEL_VMEM_START \<and> pa = va - KERNEL_VMEM_START"
    unfolding KERNEL_VMEM_START_def by unat_arith (simp, arith?)
  moreover have "va \<le> KERNEL_VMEM_END"
    by (simp add: KERNEL_VMEM_END_def word_le_nat_alt) (use unsigned_less [where 'a=nat, of va] in simp)
  ultimately show ?thesis
    by (auto simp: pa_to_kva_def kva_to_pa_def bind_eq_Some_iff KERNEL_VMEM_SIZE_def KERNEL_VMEM_START_def KERNEL_VMEM_END_def)
qed

lemma vpa_roundtrip: "pa_to_vpa pa = Some va \<longleftrightarrow> vpa_to_pa va = Some pa"
proof -
  have "pa < 0x100000000 \<and> va = PMEM_VA_START + pa \<longleftrightarrow>
        va \<ge> PMEM_VA_START \<and> va < PMEM_VA_END \<and> pa = va - PMEM_VA_START"
    unfolding PMEM_VA_START_def PMEM_VA_END_def by unat_arith (simp, arith?)
  then show ?thesis
    by (auto simp: pa_to_vpa_def vpa_to_pa_def bind_eq_Some_iff PMEM_VA_SIZE_def PMEM_VA_START_def PMEM_VA_END_def)
qed

lemma page_size_eq: "page_size = 4096"
  by (simp add: addr_consts)

lemma page_offset_mask: "page_offset a = take_bit 12 a"
  by (simp add: page_offset_def page_size_eq take_bit_eq_mask mask_eq_exp_minus_1)

lemma page_base_offset: "page_base a OR page_offset a = a"
  by (simp add: page_base_def page_offset_def bit_eq_iff bit_simps) auto

lemma page_base_mask: "page_base a = a AND NOT (mask 12)"
  by (simp add: page_base_def page_size_eq mask_eq_exp_minus_1)

lemma bit_page_offset: "bit (page_offset a) n \<longleftrightarrow> bit a n \<and> n < 12"
  by (auto simp: page_offset_mask bit_take_bit_iff)

lemma bit_page_base: "bit (page_base a) n \<longleftrightarrow> bit a n \<and> 12 \<le> n"
  unfolding page_base_mask bit_and_iff bit_not_iff_eq bit_mask_iff
  using bit_imp_le_length [of a n] by auto

lemma pfn_to_pa_of_pa: "pfn_to_pa (pa_to_pfn pa) = page_base pa"
  by (rule bit_word_eqI) (auto simp: pfn_to_pa_def pa_to_pfn_def page_bits_def bit_simps bit_page_base)

lemma pa_to_pfn_of_pfn:
  assumes "unat p < 2 ^ 52"
  shows "pa_to_pfn (pfn_to_pa p) = p"
proof (rule bit_word_eqI)
  fix n
  have "take_bit 52 p = p"
    using assms by (simp add: word_unat_eq_iff unsigned_take_bit_eq take_bit_nat_eq_self)
  then have "bit p n \<Longrightarrow> n < 52"
    by (metis bit_take_bit_iff)
  then show "bit (pa_to_pfn (pfn_to_pa p)) n = bit p n"
    by (auto simp: pfn_to_pa_def pa_to_pfn_def page_bits_def bit_simps)
qed

lemma takeWhile_rev_upt:
  assumes "P k" "\<forall>i. k < i \<longrightarrow> i < n \<longrightarrow> \<not> P i" "k < n"
  shows "length (takeWhile (\<lambda>i. \<not> P i) (rev [0..<n])) = n - Suc k"
  using assms
proof (induction n)
  case (Suc n)
  then show ?case by (cases "k = n") (auto simp: Suc_diff_Suc)
qed simp

lemma bit_word_nat: "bit (x::u64) k \<longleftrightarrow> odd (unat x div 2 ^ k)"
proof -
  have "bit (unat x) k \<longleftrightarrow> bit x k" by (auto simp: bit_unsigned_iff)
  then show ?thesis by (simp add: bit_iff_odd)
qed

lemma top_bit_clzll:
  assumes "2 ^ k \<le> unat x" "unat x < 2 ^ Suc k"
  shows "clzll x = 63 - k" "k < 64" "bit x k"
proof -
  have "unat x < 2 ^ 64" using unsigned_less [where 'a=nat, of x] by simp
  then have "(2::nat) ^ k < 2 ^ 64" using assms(1) by linarith
  then show k: "k < 64" by (simp only: power_strict_increasing_iff one_less_numeral_iff semiring_norm)
  have "unat x div 2 ^ k = 1" using assms by (intro div_nat_eqI) auto
  then show b: "bit x k" by (simp add: bit_word_nat)
  have "\<not> bit x i" if "k < i" for i
  proof -
    have "(2::nat) ^ Suc k \<le> 2 ^ i" using that by (intro power_increasing) auto
    then have "unat x div 2 ^ i = 0" using assms(2) by simp
    then show ?thesis by (simp add: bit_word_nat)
  qed
  then show "clzll x = 63 - k"
    unfolding clzll_def using takeWhile_rev_upt [of "bit x" k 64] b k by simp
qed

lemma pow2_test:
  fixes x :: u64
  assumes "2 ^ k \<le> unat x" "unat x < 2 ^ Suc k"
  shows "x AND (x - 1) = 0 \<longleftrightarrow> unat x = 2 ^ k"
proof
  assume z: "x AND (x - 1) = 0"
  show "unat x = 2 ^ k"
  proof (rule ccontr)
    assume "unat x \<noteq> 2 ^ k"
    moreover have "unat (x - 1) = unat x - 1"
      using assms(1) by (intro unat_minus_one) auto
    ultimately have "2 ^ k \<le> unat (x - 1)" "unat (x - 1) < 2 ^ Suc k" using assms by auto
    then have "bit (x - 1) k" by (rule top_bit_clzll(3))
    moreover have "bit x k" using assms by (rule top_bit_clzll(3))
    ultimately have "bit (x AND (x - 1)) k" by (simp add: bit_and_iff)
    then show False by (simp add: z)
  qed
next
  assume e: "unat x = 2 ^ k"
  have "(of_nat (unat x) :: u64) = x" by (simp add: of_nat_unat)
  then have "x = 2 ^ k" unfolding e by simp
  then have "x - 1 = mask k" by (simp add: mask_eq_exp_minus_1)
  then show "x AND (x - 1) = 0" using \<open>x = 2 ^ k\<close>
    by (auto intro!: bit_word_eqI simp: bit_simps)
qed

lemma log2_bracket: "0 < n \<Longrightarrow> \<exists>k. 2 ^ k \<le> n \<and> n < 2 ^ Suc (k::nat)" for n :: nat
  using ex_power_ivl1 [of 2 n] by (auto)

lemma log2ceil_bracket:
  assumes "2 ^ k \<le> unat x" "unat x < 2 ^ Suc k"
  shows "log2ceil x = (if unat x = 2 ^ k then k else Suc k)"
proof -
  have "x \<noteq> 0" using assms(1) by auto
  moreover have "63 - (63 - k) = k" using top_bit_clzll(2) [OF assms] by simp
  ultimately show ?thesis
    using top_bit_clzll(1) [OF assms] pow2_test [OF assms] by (simp add: log2ceil_def)
qed

lemma log2ceil_least:
  assumes "0 < x"
  shows "log2ceil x \<le> k \<longleftrightarrow> unat x \<le> 2 ^ k"
proof -
  from assms have "0 < unat x" by (simp add: word_less_nat_alt)
  then obtain j where j: "2 ^ j \<le> unat x" "unat x < 2 ^ Suc j" using log2_bracket by blast
  have "j \<le> k" if "(2::nat) ^ j \<le> 2 ^ k" using that by (simp add: power_increasing_iff)
  moreover have "Suc j \<le> k" if "unat x \<le> 2 ^ k" "unat x \<noteq> 2 ^ j"
  proof -
    have "(2::nat) ^ j < 2 ^ k" using that j by linarith
    then show ?thesis by simp
  qed
  moreover have "unat x \<le> 2 ^ k" if "Suc j \<le> k"
    using power_increasing [OF that, of "2::nat"] j by linarith
  moreover have "(2::nat) ^ j \<le> 2 ^ k" if "j \<le> k" using that by simp
  ultimately show ?thesis using log2ceil_bracket [OF j] j by auto
qed

lemma align_dvd_aux: "(a::nat) dvd v + a - v mod a" if "v mod a < a"
proof -
  have "v + a - v mod a = v div a * a + a"
    using that div_mult_mod_eq [of v a] by linarith
  then show ?thesis by simp
qed

lemma align_up_dvd:
  assumes "0 < al" "unat v + unat al < 2 ^ 64"
  shows "unat al dvd unat (align_up v al)" "unat v \<le> unat (align_up v al)"
        "unat (align_up v al) < unat v + unat al"
proof -
  have m: "unat (v mod al) = unat v mod unat al" by (simp add: unat_mod_distrib)
  have lt: "unat v mod unat al < unat al" using assms(1) by (simp add: word_less_nat_alt)
  have s: "unat (al - v mod al) = unat al - unat v mod unat al"
    by (subst unat_sub) (use lt m in \<open>auto simp: word_le_nat_alt\<close>)
  have "unat (align_up v al) = unat v + (if unat v mod unat al = 0 then 0 else unat al - unat v mod unat al)"
    using assms(2) lt m s unfolding align_up_def
    by (auto simp: unat_add_small word_unat_eq_iff)
  then show "unat al dvd unat (align_up v al)" "unat v \<le> unat (align_up v al)"
        "unat (align_up v al) < unat v + unat al"
    using lt div_mult_mod_eq [of "unat v" "unat al"] by (auto simp: align_dvd_aux)
qed

end
