(* ===== verification/Pfs.thy ===== *)
theory Pfs
  imports Device Machine_Addr
begin

text \<open>
  The file systems below the virtual file system: the nodes of \<^verbatim>\<open>rootfs\<close>, \<^verbatim>\<open>tmpfs\<close>, \<^verbatim>\<open>devfs\<close> and
  \<^verbatim>\<open>vfat\<close>, and of the archive file system of \<^verbatim>\<open>fs/internal-driver.cpp\<close>, which the kernel boots
  from (its identifiers are unreadable; the names here say what they stand for). Nodes are numbers,
  the indices of a list of all nodes. The result \<open>None\<close> of a function stands for a fault.
\<close>

subsection \<open>Nodes, files and directories\<close>

record tar_node =
  tn_name :: chars
  tn_children :: "(u64, nat) kmap"
  tn_size :: u32
  tn_is_file :: bool
  tn_block :: u32

datatype pfs_node =
    RootFSNode
  | TempFSNode chars "(u64, nat) kmap"
  | DeviceFSRootNode
  | DeviceFSNode nat
  | VFATNode
  | TarNode block_device tar_node

record fsys =
  pnodes :: "pfs_node list"
  devmgr :: device_manager

record directory_entry =
  de_name :: chars
  de_size :: u32

datatype directory =
    SimpleDirectory "directory_entry list" u32
  | TarDirectory "directory_entry list" u32

record tar_file =
  tf_dev :: block_device
  tf_block :: u32
  tf_pos :: u32
  tf_size :: u32

datatype fs_file = DeviceFile nat | TarFile tar_file

fun read_entry :: "directory \<Rightarrow> directory_entry option \<times> directory" where
  "read_entry (SimpleDirectory es cur) =
     (if unat cur < length es then (Some (es ! unat cur), SimpleDirectory es (cur + 1)) else (None, SimpleDirectory es cur))"
| "read_entry (TarDirectory es cur) =
     (if unat cur < length es then (Some (es ! unat cur), TarDirectory es (cur + 1)) else (None, TarDirectory es cur))"

fun dir_close :: "directory \<Rightarrow> directory" where
  "dir_close (SimpleDirectory es cur) = SimpleDirectory [] cur"
| "dir_close (TarDirectory es cur) = TarDirectory es cur"

definition new_pnode :: "pfs_node \<Rightarrow> 'a fsys_scheme \<Rightarrow> nat \<times> 'a fsys_scheme" where
  "new_pnode x s = (length (pnodes s), s\<lparr>pnodes := pnodes s @ [x]\<rparr>)"

definition set_pnode :: "nat \<Rightarrow> pfs_node \<Rightarrow> 'a fsys_scheme \<Rightarrow> 'a fsys_scheme" where
  "set_pnode n x s = s\<lparr>pnodes := (pnodes s)[n := x]\<rparr>"

subsection \<open>The archive file system\<close>

text \<open>
  The size in a header: octal digits from the last one down to the second one; the first is never read.
\<close>

fun octal_loop :: "u32 \<Rightarrow> chars \<Rightarrow> u32" where
  "octal_loop w [] = 0"
| "octal_loop w (c # cs) = w * (scast c - 48) + octal_loop (push_bit 3 w) cs"

definition octal_value :: "chars \<Rightarrow> u32 option" where
  "octal_value field = do { n \<leftarrow> strlen_from field; Some (octal_loop 1 (rev (drop 1 (take n field)))) }"

definition header_name :: "chars \<Rightarrow> chars option" where
  "header_name blk = do { n \<leftarrow> strlen_from blk; Some (take n blk) }"

definition header_size :: "chars \<Rightarrow> u32 option" where
  "header_size blk = octal_value (drop 124 blk)"

definition header_is_file :: "chars \<Rightarrow> bool" where
  "header_is_file blk \<longleftrightarrow> blk ! 156 = 48"

definition is_zero_block :: "chars \<Rightarrow> bool" where
  "is_zero_block blk \<longleftrightarrow> (\<forall>c \<in> set blk. c = 0)"

text \<open>\<^verbatim>\<open>add_node\<close>: walk down the components of the name, making nodes on the way.\<close>

fun tar_path :: "block_device \<Rightarrow> chars list \<Rightarrow> nat \<Rightarrow> 'a fsys_scheme \<Rightarrow> (nat \<times> 'a fsys_scheme) option" where
  "tar_path dev [] n s = Some (n, s)"
| "tar_path dev (c # cs) n s =
     (case pnodes s ! n of
        TarNode d t \<Rightarrow>
          (case kget (tn_children t) (name_hash c) of
             Some child \<Rightarrow> tar_path dev cs child s
           | None \<Rightarrow>
               let (child, s) = new_pnode (TarNode dev \<lparr>tn_name = c, tn_children = kempty, tn_size = 0, tn_is_file = False, tn_block = 0\<rparr>) s
               in tar_path dev cs child (set_pnode n (TarNode d (t\<lparr>tn_children := kadd (name_hash c) child (tn_children t)\<rparr>)) s))
      | _ \<Rightarrow> None)"

definition tar_add_node :: "block_device \<Rightarrow> nat \<Rightarrow> chars \<Rightarrow> u32 \<Rightarrow> 'a fsys_scheme \<Rightarrow> 'a fsys_scheme option" where
  "tar_add_node dev r hdr block s = do {
     name \<leftarrow> header_name hdr;
     parts \<leftarrow> split name 47 False;
     (n, s) \<leftarrow> tar_path dev parts r s;
     size' \<leftarrow> header_size hdr;
     case pnodes s ! n of
       TarNode d t \<Rightarrow> Some (set_pnode n (TarNode d (t\<lparr>tn_is_file := True, tn_block := block, tn_size := size'\<rparr>)) s)
     | _ \<Rightarrow> None }"

text \<open>
  The scan over the headers, which starts again at a wrapped block number when the device is that
  large. A block must fill the buffer of 512 bytes exactly. The result says whether all reads succeeded.
\<close>

partial_function (option) tar_scan :: "block_device \<Rightarrow> nat \<Rightarrow> u32 \<Rightarrow> 'a fsys_scheme \<Rightarrow> (bool \<times> 'a fsys_scheme) option" where
  "tar_scan dev r i s =
     (if (ucast i :: u64) < blk_count dev then
        case blk_read dev (ucast i) 1 of
          None \<Rightarrow> Some (False, s)
        | Some blk \<Rightarrow>
            if length blk \<noteq> 512 then None
            else if is_zero_block blk then Some (True, s)
            else do {
              size' \<leftarrow> header_size blk;
              s \<leftarrow> (if header_is_file blk then tar_add_node dev r blk i s else Some s);
              tar_scan dev r (i + (size' div 512 + (if size' mod 512 \<noteq> 0 then 1 else 0)) + 1) s }
      else Some (True, s))"

definition tar_build :: "block_device \<Rightarrow> 'a fsys_scheme \<Rightarrow> (nat option \<times> 'a fsys_scheme) option" where
  "tar_build dev s = do {
     let (r, s) = new_pnode (TarNode dev \<lparr>tn_name = [], tn_children = kempty, tn_size = 0, tn_is_file = False, tn_block = 0\<rparr>) s;
     (ok, s) \<leftarrow> tar_scan dev r 0 s;
     Some (if ok then Some r else None, s) }"

text \<open>An open file reads its header again; an empty file starts at position \<open>-1\<close>.\<close>

definition tar_open :: "block_device \<Rightarrow> u32 \<Rightarrow> tar_file option" where
  "tar_open dev block = do {
     hdr \<leftarrow> blk_read dev (ucast block) 1;
     size' \<leftarrow> header_size hdr;
     Some \<lparr>tf_dev = dev, tf_block = block + 1, tf_pos = (if size' = 0 then - 1 else 0), tf_size = size'\<rparr> }"

text \<open>
  \<^verbatim>\<open>pread\<close> copies block by block; \<open>n\<close> bytes are copied already. The bytes that were written to the
  buffer are the result.
\<close>

partial_function (option) tar_pread_loop :: "block_device \<Rightarrow> u32 \<Rightarrow> u64 \<Rightarrow> u64 \<Rightarrow> u32 \<Rightarrow> chars \<Rightarrow> chars option" where
  "tar_pread_loop dev block size' off n buffer =
     (if (ucast n :: u64) < size' then
        let bs = scast (ucast (blk_size dev) :: u32) :: u64
        in if bs = 0 then None
           else
             let k = ucast (off div bs) :: u32; m = ucast (off mod bs) :: u32
             in case blk_read dev (ucast (block + k)) 1 of
                  None \<Rightarrow> Some buffer
                | Some blk \<Rightarrow>
                    let c = min64 (ucast (512 - m)) (size' - ucast n)
                    in if length blk < unat m + unat c then None
                       else tar_pread_loop dev block size' (off + c) (n + ucast c) (buffer @ take (unat c) (drop (unat m) blk))
      else Some buffer)"

definition tar_pread :: "tar_file \<Rightarrow> u64 \<Rightarrow> u64 \<Rightarrow> chars option" where
  "tar_pread f size' off =
     (if ucast (tf_size f) \<le> off then Some [] else tar_pread_loop (tf_dev f) (tf_block f) size' off 0 [])"

definition tar_read :: "tar_file \<Rightarrow> u64 \<Rightarrow> (chars \<times> tar_file) option" where
  "tar_read f size' = do {
     xs \<leftarrow> tar_pread f size' (ucast (tf_pos f));
     Some (xs, f\<lparr>tf_pos := tf_pos f + of_nat (length xs)\<rparr>) }"

datatype seek_type = SeekAbsolute | SeekRelative

definition tar_seek :: "tar_file \<Rightarrow> u64 \<Rightarrow> seek_type \<Rightarrow> tar_file" where
  "tar_seek f off ty =
     (let pos = (case ty of SeekAbsolute \<Rightarrow> ucast off | SeekRelative \<Rightarrow> ucast (ucast (tf_pos f) + off))
      in f\<lparr>tf_pos := (if tf_size f \<le> pos then tf_size f - 1 else pos)\<rparr>)"

subsection \<open>The virtual functions of the nodes\<close>

text \<open>
  \<open>get_child\<close> and \<open>mkdir\<close> return a node or the null pointer. In the results of \<open>open\<close> the outer
  \<open>None\<close> is a fault, the inner one the null pointer.
\<close>

definition RootFSNode_get_child :: "chars \<Rightarrow> 'a fsys_scheme \<Rightarrow> nat option \<times> 'a fsys_scheme" where
  "RootFSNode_get_child name s = (None, s)"

definition RootFSNode_mkdir :: "chars \<Rightarrow> 'a fsys_scheme \<Rightarrow> nat option \<times> 'a fsys_scheme" where
  "RootFSNode_mkdir name s = (None, s)"

definition RootFSNode_open :: "fs_file option option" where
  "RootFSNode_open = Some None"

definition RootFSNode_opendir :: "directory option" where
  "RootFSNode_opendir = None"

definition TempFSNode_get_child :: "chars \<Rightarrow> (u64, nat) kmap \<Rightarrow> 'a fsys_scheme \<Rightarrow> nat option \<times> 'a fsys_scheme" where
  "TempFSNode_get_child name children s = (kget children (name_hash name), s)"

definition TempFSNode_mkdir :: "chars \<Rightarrow> nat \<Rightarrow> chars \<Rightarrow> (u64, nat) kmap \<Rightarrow> 'a fsys_scheme \<Rightarrow> nat option \<times> 'a fsys_scheme" where
  "TempFSNode_mkdir name n nm children s =
     (let (c, s) = new_pnode (TempFSNode name kempty) s
      in (Some c, set_pnode n (TempFSNode nm (kadd (name_hash name) c children)) s))"

definition TempFSNode_open :: "fs_file option option" where
  "TempFSNode_open = Some None"

definition TempFSDirectory :: "(u64, nat) kmap \<Rightarrow> 'a fsys_scheme \<Rightarrow> directory" where
  "TempFSDirectory children s =
     SimpleDirectory (map (\<lambda>(k, c). \<lparr>de_name = (case pnodes s ! c of TempFSNode nm ch \<Rightarrow> nm | _ \<Rightarrow> []), de_size = 0\<rparr>) (kentries children)) 0"

definition TempFSNode_opendir :: "(u64, nat) kmap \<Rightarrow> 'a fsys_scheme \<Rightarrow> directory option" where
  "TempFSNode_opendir children s = Some (TempFSDirectory children s)"

definition DeviceFSRootNode_get_child :: "chars \<Rightarrow> 'a fsys_scheme \<Rightarrow> nat option \<times> 'a fsys_scheme" where
  "DeviceFSRootNode_get_child name s =
     (case try_get_device_by_name name (devmgr s) of
        None \<Rightarrow> (None, s)
      | Some d \<Rightarrow> let (c, s) = new_pnode (DeviceFSNode d) s in (Some c, s))"

definition DeviceFSRootNode_mkdir :: "chars \<Rightarrow> 'a fsys_scheme \<Rightarrow> nat option \<times> 'a fsys_scheme" where
  "DeviceFSRootNode_mkdir name s = (None, s)"

definition DeviceFSRootNode_open :: "fs_file option option" where
  "DeviceFSRootNode_open = Some None"

definition DeviceFSDirectory :: "'a fsys_scheme \<Rightarrow> directory" where
  "DeviceFSDirectory s =
     SimpleDirectory (map (\<lambda>(k, d). \<lparr>de_name = dev_name (device_table (devmgr s) ! d), de_size = 0\<rparr>) (kentries (devices (devmgr s)))) 0"

definition DeviceFSRootNode_opendir :: "'a fsys_scheme \<Rightarrow> directory option" where
  "DeviceFSRootNode_opendir s = Some (DeviceFSDirectory s)"

definition DeviceFSNode_get_child :: "chars \<Rightarrow> 'a fsys_scheme \<Rightarrow> nat option \<times> 'a fsys_scheme" where
  "DeviceFSNode_get_child name s = (None, s)"

definition DeviceFSNode_mkdir :: "chars \<Rightarrow> 'a fsys_scheme \<Rightarrow> nat option \<times> 'a fsys_scheme" where
  "DeviceFSNode_mkdir name s = (None, s)"

definition DeviceFSNode_open :: "nat \<Rightarrow> 'a fsys_scheme \<Rightarrow> fs_file option option" where
  "DeviceFSNode_open d s = Some (if dev_opens_as_file (device_table (devmgr s) ! d) then Some (DeviceFile d) else None)"

definition DeviceFSNode_opendir :: "directory option" where
  "DeviceFSNode_opendir = None"

definition VFATNode_get_child :: "chars \<Rightarrow> 'a fsys_scheme \<Rightarrow> nat option \<times> 'a fsys_scheme" where
  "VFATNode_get_child name s = (None, s)"

definition VFATNode_mkdir :: "chars \<Rightarrow> 'a fsys_scheme \<Rightarrow> nat option \<times> 'a fsys_scheme" where
  "VFATNode_mkdir name s = (None, s)"

definition VFATNode_open :: "fs_file option option" where
  "VFATNode_open = Some None"

definition VFATNode_opendir :: "directory option" where
  "VFATNode_opendir = None"

definition tar_get_child :: "chars \<Rightarrow> tar_node \<Rightarrow> 'a fsys_scheme \<Rightarrow> nat option \<times> 'a fsys_scheme" where
  "tar_get_child name t s = (kget (tn_children t) (name_hash name), s)"

definition tar_mkdir :: "chars \<Rightarrow> 'a fsys_scheme \<Rightarrow> nat option \<times> 'a fsys_scheme" where
  "tar_mkdir name s = (None, s)"

definition tar_node_open :: "block_device \<Rightarrow> tar_node \<Rightarrow> fs_file option option" where
  "tar_node_open dev t = (if \<not> tn_is_file t then Some None else map_option (Some \<circ> TarFile) (tar_open dev (tn_block t)))"

definition tar_directory :: "tar_node \<Rightarrow> 'a fsys_scheme \<Rightarrow> directory" where
  "tar_directory t s =
     TarDirectory (map (\<lambda>(k, c). case pnodes s ! c of TarNode dev x \<Rightarrow> \<lparr>de_name = tn_name x, de_size = tn_size x\<rparr>
       | _ \<Rightarrow> \<lparr>de_name = [], de_size = 0\<rparr>) (kentries (tn_children t))) 0"

definition tar_opendir :: "tar_node \<Rightarrow> 'a fsys_scheme \<Rightarrow> directory option" where
  "tar_opendir t s = (if tn_is_file t then None else Some (tar_directory t s))"

text \<open>The dispatch over the classes of nodes.\<close>

definition pfs_get_child :: "chars \<Rightarrow> nat \<Rightarrow> 'a fsys_scheme \<Rightarrow> nat option \<times> 'a fsys_scheme" where
  "pfs_get_child name n s =
     (case pnodes s ! n of
        RootFSNode \<Rightarrow> RootFSNode_get_child name s
      | TempFSNode nm ch \<Rightarrow> TempFSNode_get_child name ch s
      | DeviceFSRootNode \<Rightarrow> DeviceFSRootNode_get_child name s
      | DeviceFSNode d \<Rightarrow> DeviceFSNode_get_child name s
      | VFATNode \<Rightarrow> VFATNode_get_child name s
      | TarNode dev t \<Rightarrow> tar_get_child name t s)"

definition pfs_mkdir :: "chars \<Rightarrow> nat \<Rightarrow> 'a fsys_scheme \<Rightarrow> nat option \<times> 'a fsys_scheme" where
  "pfs_mkdir name n s =
     (case pnodes s ! n of
        RootFSNode \<Rightarrow> RootFSNode_mkdir name s
      | TempFSNode nm ch \<Rightarrow> TempFSNode_mkdir name n nm ch s
      | DeviceFSRootNode \<Rightarrow> DeviceFSRootNode_mkdir name s
      | DeviceFSNode d \<Rightarrow> DeviceFSNode_mkdir name s
      | VFATNode \<Rightarrow> VFATNode_mkdir name s
      | TarNode dev t \<Rightarrow> tar_mkdir name s)"

definition pfs_open :: "nat \<Rightarrow> 'a fsys_scheme \<Rightarrow> fs_file option option" where
  "pfs_open n s =
     (case pnodes s ! n of
        RootFSNode \<Rightarrow> RootFSNode_open
      | TempFSNode nm ch \<Rightarrow> TempFSNode_open
      | DeviceFSRootNode \<Rightarrow> DeviceFSRootNode_open
      | DeviceFSNode d \<Rightarrow> DeviceFSNode_open d s
      | VFATNode \<Rightarrow> VFATNode_open
      | TarNode dev t \<Rightarrow> tar_node_open dev t)"

definition pfs_opendir :: "nat \<Rightarrow> 'a fsys_scheme \<Rightarrow> directory option" where
  "pfs_opendir n s =
     (case pnodes s ! n of
        RootFSNode \<Rightarrow> RootFSNode_opendir
      | TempFSNode nm ch \<Rightarrow> TempFSNode_opendir ch s
      | DeviceFSRootNode \<Rightarrow> DeviceFSRootNode_opendir s
      | DeviceFSNode d \<Rightarrow> DeviceFSNode_opendir
      | VFATNode \<Rightarrow> VFATNode_opendir
      | TarNode dev t \<Rightarrow> tar_opendir t s)"

lemmas node_ops = RootFSNode_get_child_def RootFSNode_mkdir_def RootFSNode_open_def RootFSNode_opendir_def
  TempFSNode_get_child_def TempFSNode_mkdir_def TempFSNode_open_def TempFSNode_opendir_def
  DeviceFSRootNode_get_child_def DeviceFSRootNode_mkdir_def DeviceFSRootNode_open_def DeviceFSRootNode_opendir_def
  DeviceFSNode_get_child_def DeviceFSNode_mkdir_def DeviceFSNode_open_def DeviceFSNode_opendir_def
  VFATNode_get_child_def VFATNode_mkdir_def VFATNode_open_def VFATNode_opendir_def
  tar_get_child_def tar_mkdir_def tar_node_open_def tar_opendir_def

declare node_ops [simp]

subsection \<open>Creating and mounting file systems\<close>

datatype filesystem = RootFS | TempFS | DeviceFS | VFAT block_device | TarFS block_device "nat option"

datatype fs_kind = rootfs_create | tmpfs_create | devfs_create | vfat_create | tarfs_create

text \<open>The creation functions; \<^verbatim>\<open>vfat\<close> and the archive need a block device.\<close>

definition block_fs :: "(block_device \<Rightarrow> filesystem) \<Rightarrow> nat option \<Rightarrow> 'a fsys_scheme \<Rightarrow> filesystem option option" where
  "block_fs mk dev s = do {
     d \<leftarrow> dev;
     if \<not> class_is (dev_class (device_table (devmgr s) ! d)) BlockDeviceClass then Some None
     else map_option (Some \<circ> mk) (dev_block (device_table (devmgr s) ! d)) }"

definition create_fs :: "fs_kind \<Rightarrow> nat option \<Rightarrow> 'a fsys_scheme \<Rightarrow> filesystem option option" where
  "create_fs k dev s =
     (case k of
        rootfs_create \<Rightarrow> Some (Some RootFS)
      | tmpfs_create \<Rightarrow> Some (Some TempFS)
      | devfs_create \<Rightarrow> Some (Some DeviceFS)
      | vfat_create \<Rightarrow> block_fs VFAT dev s
      | tarfs_create \<Rightarrow> block_fs (\<lambda>b. TarFS b None) dev s)"

definition RootFS_mount :: "'a fsys_scheme \<Rightarrow> nat \<times> 'a fsys_scheme" where
  "RootFS_mount s = new_pnode RootFSNode s"

definition TempFS_mount :: "'a fsys_scheme \<Rightarrow> nat \<times> 'a fsys_scheme" where
  "TempFS_mount s = new_pnode (TempFSNode [] kempty) s"

definition DeviceFS_mount :: "'a fsys_scheme \<Rightarrow> nat \<times> 'a fsys_scheme" where
  "DeviceFS_mount s = new_pnode DeviceFSRootNode s"

text \<open>The signature is the last field of the boot block of 512 bytes.\<close>

definition VFAT_mount :: "block_device \<Rightarrow> 'a fsys_scheme \<Rightarrow> (nat option \<times> 'a fsys_scheme) option" where
  "VFAT_mount dev s =
     (if blk_size dev \<noteq> 512 then Some (None, s)
      else
        (case blk_read dev 0 1 of
           None \<Rightarrow> Some (None, s)
         | Some blk \<Rightarrow>
             if length blk < 512 then None
             else if \<not> (blk ! 510 = 0x55 \<and> blk ! 511 = 0xaa) then Some (None, s)
             else let (n, s) = new_pnode VFATNode s in Some (Some n, s)))"

definition tar_mount :: "block_device \<Rightarrow> nat option \<Rightarrow> 'a fsys_scheme \<Rightarrow> (nat option \<times> 'a fsys_scheme) option" where
  "tar_mount dev r s = (case r of None \<Rightarrow> tar_build dev s | Some n \<Rightarrow> Some (Some n, s))"

definition fs_mount :: "filesystem \<Rightarrow> 'a fsys_scheme \<Rightarrow> (nat option \<times> 'a fsys_scheme) option" where
  "fs_mount fs s =
     (case fs of
        RootFS \<Rightarrow> let (n, s) = RootFS_mount s in Some (Some n, s)
      | TempFS \<Rightarrow> let (n, s) = TempFS_mount s in Some (Some n, s)
      | DeviceFS \<Rightarrow> let (n, s) = DeviceFS_mount s in Some (Some n, s)
      | VFAT dev \<Rightarrow> VFAT_mount dev s
      | TarFS dev r \<Rightarrow> tar_mount dev r s)"

lemmas mount_ops = RootFS_mount_def TempFS_mount_def DeviceFS_mount_def VFAT_mount_def tar_mount_def

declare mount_ops [simp]

subsection \<open>Reading a file of an archive\<close>

lemma drop_concat_blocks:
  assumes "\<forall>b \<in> set bs. length b = k" "i < length bs" "m \<le> k"
  shows "drop (k * i + m) (concat bs) = drop m (bs ! i) @ concat (drop (Suc i) bs)"
  using assms
proof (induction bs arbitrary: i)
  case (Cons b bs)
  show ?case
  proof (cases i)
    case (Suc j)
    then have "drop (k * i + m) (concat (b # bs)) = drop (k * j + m) (concat bs)" using Cons.prems by simp
    then show ?thesis using Cons.IH [of j] Cons.prems Suc by simp
  qed (use Cons.prems in simp)
qed simp

definition stores :: "block_device \<Rightarrow> u32 \<Rightarrow> chars list \<Rightarrow> bool" where
  "stores dev block bs \<longleftrightarrow> blk_size dev = 512 \<and> length bs < 2 ^ 32
     \<and> (\<forall>i < length bs. blk_read dev (ucast (block + of_nat i)) 1 = Some (bs ! i) \<and> length (bs ! i) = 512)"

lemma unat_ucast_u64 [simp]: "unat (ucast (w :: u32) :: u64) = unat w"
proof -
  have "unat w < 18446744073709551616" using unsigned_less [of w, where ?'a = nat] by simp
  then show ?thesis by (simp add: unsigned_ucast_eq take_bit_eq_mod)
qed

lemma tar_pread_step:
  assumes st: "stores dev block bs" and n: "unat n < unat size'" "unat size' < 2 ^ 32"
    and fits: "unat off + (unat size' - unat n) \<le> 512 * length bs"
  obtains c where "0 < unat c" "unat n + unat c \<le> unat size'" "unat (off + c) = unat off + unat c" "unat (n + ucast c) = unat n + unat c"
    "tar_pread_loop dev block size' off n buf = tar_pread_loop dev block size' (off + c) (n + ucast c) (buf @ take (unat c) (drop (unat off) (concat bs)))"
proof -
  define m where "m = (ucast (off mod 512) :: u32)"
  define c where "c = min64 (ucast (512 - m)) (size' - ucast n)"
  define i where "i = unat off div 512"
  have L: "length bs < 2 ^ 32" using st by (simp add: stores_def)
  have off: "unat off < 512 * length bs" using n fits by linarith
  then have i: "i < length bs" by (simp add: i_def less_mult_imp_div_less mult.commute)
  have um: "unat m = unat off mod 512" by (simp add: m_def unat_mod_distrib unsigned_ucast_eq take_bit_eq_mod)
  have u512: "unat (512 - m) = 512 - unat m"
    using unat_sub [of m 512] by (simp add: word_le_nat_alt um less_imp_le)
  have un: "unat (ucast n :: u64) = unat n" by simp
  then have "unat (size' - ucast n) = unat size' - unat n"
    using n(1) unat_sub [of "ucast n" size'] by (simp add: word_le_nat_alt)
  moreover have "unat (ucast (512 - m) :: u64) = 512 - unat m" by (simp add: u512)
  ultimately have uc: "unat c = min (512 - unat m) (unat size' - unat n)"
    by (simp add: c_def min64_def word_less_nat_alt min_def)
  have mlt: "unat m < 512" by (simp add: um)
  then have pos: "0 < unat c" "unat n + unat c \<le> unat size'" "unat m + unat c \<le> 512" using uc n(1) by auto
  have o: "unat (off + c) = unat off + unat c"
    using fits pos(2) L by (intro unat_add_small) simp
  have k: "unat (ucast (off div 512) :: u32) = i" using i L
    by (simp add: unsigned_ucast_eq take_bit_eq_mod unat_div_distrib i_def)
  then have ki: "ucast (off div 512) = (of_nat i :: u32)" by (simp flip: k)
  have rd: "blk_read dev (ucast (block + ucast (off div 512))) 1 = Some (bs ! i)" "length (bs ! i) = 512"
    using st i by (auto simp: stores_def ki)
  have "unat off = 512 * i + unat m" by (simp add: um i_def)
  moreover have "\<forall>b \<in> set bs. length b = 512" using st by (auto simp: stores_def in_set_conv_nth)
  ultimately have "drop (unat off) (concat bs) = drop (unat m) (bs ! i) @ concat (drop (Suc i) bs)"
    using drop_concat_blocks [of bs 512 i "unat m"] i mlt by simp
  then have t: "take (unat c) (drop (unat off) (concat bs)) = take (unat c) (drop (unat m) (bs ! i))" using pos(3) rd(2) by simp
  have bs: "(scast (ucast (blk_size dev) :: u32) :: u64) = 512" using st by (simp add: stores_def)
  have "ucast n < size'" using n(1) un by (simp add: word_less_nat_alt)
  then have "tar_pread_loop dev block size' off n buf
      = tar_pread_loop dev block size' (off + c) (n + ucast c) (buf @ take (unat c) (drop (unat off) (concat bs)))"
    using rd pos(3) t by (subst tar_pread_loop.simps) (simp add: bs Let_def m_def [symmetric] c_def [symmetric])
  moreover have "unat (n + ucast c) = unat n + unat c"
    using pos(2) n(2) by (simp add: unat_word_ariths unsigned_ucast_eq take_bit_eq_mod)
  ultimately show ?thesis using that pos o by blast
qed

lemma tar_pread_loop_blocks:
  assumes st: "stores dev block bs" and "unat size' < 2 ^ 32" "unat n \<le> unat size'" "unat off + (unat size' - unat n) \<le> 512 * length bs"
  shows "tar_pread_loop dev block size' off n buf = Some (buf @ take (unat size' - unat n) (drop (unat off) (concat bs)))"
  using assms(3,4)
proof (induction "unat size' - unat n" arbitrary: off n buf rule: less_induct)
  case less
  show ?case
  proof (cases "unat n < unat size'")
    case True
    obtain c where c: "0 < unat c" "unat n + unat c \<le> unat size'" "unat (off + c) = unat off + unat c" "unat (n + ucast c) = unat n + unat c"
      "tar_pread_loop dev block size' off n buf = tar_pread_loop dev block size' (off + c) (n + ucast c) (buf @ take (unat c) (drop (unat off) (concat bs)))"
      by (rule tar_pread_step [OF st True assms(2) less.prems(2), of buf])
    have "tar_pread_loop dev block size' (off + c) (n + ucast c) (buf @ take (unat c) (drop (unat off) (concat bs)))
      = Some ((buf @ take (unat c) (drop (unat off) (concat bs))) @ take (unat size' - (unat n + unat c)) (drop (unat off + unat c) (concat bs)))"
      using less.hyps [of "n + ucast c" "off + c"] less.prems c True by simp
    moreover have "take (unat size' - unat n) xs = take (unat c) xs @ take (unat size' - (unat n + unat c)) (drop (unat c) xs)" for xs :: chars
      using c(2) take_add [of "unat c" "unat size' - (unat n + unat c)" xs] by simp
    ultimately show ?thesis using c(5) by (simp add: add.commute)
  next
    case False
    then have "\<not> (ucast n :: u64) < size'" by (simp add: word_less_nat_alt)
    then show ?thesis using False less.prems by (subst tar_pread_loop.simps) simp
  qed
qed

end
