(* ===== verification/Tar_Fs.thy ===== *)
theory Tar_Fs
  imports Pfs
begin

text \<open>
  Mounting an archive: the tree of nodes that \<^verbatim>\<open>fs/internal-driver.cpp\<close> builds from the headers on
  the device has a node for every file, with the size of the file and the place of its data.
\<close>

subsection \<open>Trees of nodes\<close>

definition kids :: "'a fsys_scheme \<Rightarrow> nat \<Rightarrow> u64 \<Rightarrow> nat option" where
  "kids s n h = (case pnodes s ! n of TarNode d t \<Rightarrow> kget (tn_children t) h | _ \<Rightarrow> None)"

definition payload :: "'a fsys_scheme \<Rightarrow> nat \<Rightarrow> (bool \<times> u32 \<times> u32) option" where
  "payload s n = (case pnodes s ! n of TarNode d t \<Rightarrow> Some (tn_is_file t, tn_block t, tn_size t) | _ \<Rightarrow> None)"

fun hwalk :: "u64 list \<Rightarrow> nat \<Rightarrow> 'a fsys_scheme \<Rightarrow> nat option" where
  "hwalk [] n s = Some n"
| "hwalk (h # hs) n s = (case kids s n h of None \<Rightarrow> None | Some m \<Rightarrow> hwalk hs m s)"

definition tar_tree :: "block_device \<Rightarrow> nat \<Rightarrow> 'a fsys_scheme \<Rightarrow> bool" where
  "tar_tree dev r s \<longleftrightarrow> r < length (pnodes s)
     \<and> (\<forall>n. r \<le> n \<and> n < length (pnodes s) \<longrightarrow> (\<exists>t. pnodes s ! n = TarNode dev t))
     \<and> (\<forall>n h c. r \<le> n \<and> n < length (pnodes s) \<and> kids s n h = Some c \<longrightarrow> n < c \<and> c < length (pnodes s))
     \<and> (\<forall>n n' h h' c. r \<le> n \<and> n < length (pnodes s) \<and> r \<le> n' \<and> n' < length (pnodes s)
          \<and> kids s n h = Some c \<and> kids s n' h' = Some c \<longrightarrow> n = n' \<and> h = h')"

lemma tar_treeD:
  assumes "tar_tree dev r s" "r \<le> n" "n < length (pnodes s)"
  shows "\<exists>t. pnodes s ! n = TarNode dev t" "kids s n h = Some c \<Longrightarrow> n < c \<and> c < length (pnodes s)"
  using assms unfolding tar_tree_def by blast+

lemma tar_tree_inj:
  assumes "tar_tree dev r s" "r \<le> n" "n < length (pnodes s)" "r \<le> n'" "n' < length (pnodes s)"
    "kids s n h = Some c" "kids s n' h' = Some c"
  shows "n = n' \<and> h = h'"
  using assms unfolding tar_tree_def by blast

lemma hwalk_snoc: "hwalk (hs @ [h]) n s = (case hwalk hs n s of None \<Rightarrow> None | Some m \<Rightarrow> kids s m h)"
  by (induction hs arbitrary: n) (auto split: option.splits)

lemma hwalk_range:
  "tar_tree dev r s \<Longrightarrow> r \<le> n \<Longrightarrow> n < length (pnodes s) \<Longrightarrow> hwalk hs n s = Some m \<Longrightarrow> n \<le> m \<and> m < length (pnodes s)"
proof (induction hs arbitrary: n)
  case (Cons h hs)
  then obtain c where c: "kids s n h = Some c" "hwalk hs c s = Some m" by (auto split: option.splits)
  have "n < c" "c < length (pnodes s)" using tar_treeD(2) [OF Cons.prems(1-3) c(1)] by auto
  then show ?case using Cons.IH [of c] Cons.prems c(2) by auto
qed simp

text \<open>Two paths from the root that end in the same node are the same path.\<close>

lemma hwalk_inj:
  assumes t: "tar_tree dev r s"
  shows "hwalk ps r s = Some m \<Longrightarrow> hwalk qs r s = Some m \<Longrightarrow> ps = qs"
proof (induction ps arbitrary: qs m rule: rev_induct)
  case Nil
  show ?case
  proof (cases qs rule: rev_cases)
    case (snoc qs' h)
    then obtain q where q: "hwalk qs' r s = Some q" "kids s q h = Some r" using Nil by (auto simp: hwalk_snoc split: option.splits)
    have "r < length (pnodes s)" using t by (simp add: tar_tree_def)
    then have "r \<le> q" "q < length (pnodes s)" using hwalk_range [OF t _ _ q(1)] by auto
    then show ?thesis using tar_treeD(2) [OF t _ _ q(2)] by simp
  qed simp
next
  case (snoc h ps)
  have r: "r < length (pnodes s)" using t by (simp add: tar_tree_def)
  obtain p where p: "hwalk ps r s = Some p" "kids s p h = Some m" using snoc.prems(1) by (auto simp: hwalk_snoc split: option.splits)
  have pr: "r \<le> p" "p < length (pnodes s)" using hwalk_range [OF t _ r p(1)] by auto
  show ?case
  proof (cases qs rule: rev_cases)
    case Nil
    then show ?thesis using snoc.prems(2) tar_treeD(2) [OF t pr p(2)] pr(1) by simp
  next
    case (snoc qs' h')
    then obtain q where q: "hwalk qs' r s = Some q" "kids s q h' = Some m" using snoc.prems(2) by (auto simp: hwalk_snoc split: option.splits)
    have qr: "r \<le> q" "q < length (pnodes s)" using hwalk_range [OF t _ r q(1)] by auto
    then have "p = q" "h = h'" using tar_tree_inj [OF t pr qr p(2) q(2)] by auto
    then show ?thesis using snoc.IH [OF p(1), of qs'] q(1) snoc by simp
  qed
qed

subsection \<open>Adding nodes\<close>

definition extends :: "nat \<Rightarrow> 'a fsys_scheme \<Rightarrow> 'a fsys_scheme \<Rightarrow> bool" where
  "extends r s s' \<longleftrightarrow> length (pnodes s) \<le> length (pnodes s') \<and> take r (pnodes s') = take r (pnodes s)
     \<and> s' = s\<lparr>pnodes := pnodes s'\<rparr>
     \<and> (\<forall>n < length (pnodes s). \<forall>h c. kids s n h = Some c \<longrightarrow> kids s' n h = Some c)
     \<and> (\<forall>n < length (pnodes s). payload s' n = payload s n)"

lemma extends_refl [simp]: "extends r s s"
  by (simp add: extends_def)

lemma extends_trans: "extends r s s' \<Longrightarrow> extends r s' s'' \<Longrightarrow> extends r s s''"
  unfolding extends_def by (elim conjE, intro conjI) (auto, metis fsys.surjective fsys.update_convs(1))

lemma extends_hwalk:
  assumes "extends r s s'" "tar_tree dev r s"
  shows "r \<le> n \<Longrightarrow> n < length (pnodes s) \<Longrightarrow> hwalk hs n s = Some m \<Longrightarrow> hwalk hs n s' = Some m"
proof (induction hs arbitrary: n)
  case (Cons h hs)
  then obtain c where c: "kids s n h = Some c" "hwalk hs c s = Some m" by (auto split: option.splits)
  have "kids s' n h = Some c" using assms(1) c(1) Cons.prems(2) by (auto simp: extends_def)
  moreover have "r \<le> c" "c < length (pnodes s)" using tar_treeD(2) [OF assms(2) Cons.prems(1,2) c(1)] Cons.prems(1) by auto
  ultimately show ?case using Cons.IH [of c] c(2) by simp
qed simp

lemma tar_tree_I:
  assumes "r < length (pnodes s)" "\<And>n. r \<le> n \<Longrightarrow> n < length (pnodes s) \<Longrightarrow> \<exists>t. pnodes s ! n = TarNode dev t"
    "\<And>n h c. r \<le> n \<Longrightarrow> n < length (pnodes s) \<Longrightarrow> kids s n h = Some c \<Longrightarrow> n < c \<and> c < length (pnodes s)"
    "\<And>n n' h h' c. r \<le> n \<Longrightarrow> n < length (pnodes s) \<Longrightarrow> r \<le> n' \<Longrightarrow> n' < length (pnodes s)
       \<Longrightarrow> kids s n h = Some c \<Longrightarrow> kids s n' h' = Some c \<Longrightarrow> n = n' \<and> h = h'"
  shows "tar_tree dev r s"
  using assms unfolding tar_tree_def by blast

definition empty_node :: "chars \<Rightarrow> tar_node" where
  "empty_node c = \<lparr>tn_name = c, tn_children = kempty, tn_size = 0, tn_is_file = False, tn_block = 0\<rparr>"

lemma add_child:
  fixes nm :: chars
  assumes t: "tar_tree dev r s" and n: "r \<le> n" "n < length (pnodes s)" "pnodes s ! n = TarNode dev x" "kget (tn_children x) h = None"
  defines "k \<equiv> length (pnodes s)"
  defines "s' \<equiv> set_pnode n (TarNode dev (x\<lparr>tn_children := kadd h k (tn_children x)\<rparr>)) (s\<lparr>pnodes := pnodes s @ [TarNode dev (empty_node nm)]\<rparr>)"
  shows "tar_tree dev r s'" "extends r s s'" "kids s' n h = Some k" "length (pnodes s') = Suc k"
proof -
  have len: "length (pnodes s') = Suc k" by (simp add: s'_def set_pnode_def k_def)
  have nd: "pnodes s' ! m = (if m = n then TarNode dev (x\<lparr>tn_children := kadd h k (tn_children x)\<rparr>)
      else if m = k then TarNode dev (empty_node nm) else pnodes s ! m)" if "m \<le> k" for m
    using that n(2) by (auto simp: s'_def set_pnode_def k_def nth_list_update nth_append)
  have kid: "kids s' m g = (if m = n \<and> g = h then Some k else if m = k then None else kids s m g)" if "m \<le> k" for m g
    using nd [OF that] n(2,3) by (auto simp: kids_def empty_node_def k_def)
  have pay: "payload s' m = payload s m" if "m < k" for m
    using nd [of m] that n(3) by (auto simp: payload_def)
  show "tar_tree dev r s'"
  proof (rule tar_tree_I)
    show "r < length (pnodes s')" using n len by (simp add: k_def)
    show "\<exists>t. pnodes s' ! m = TarNode dev t" if "r \<le> m" "m < length (pnodes s')" for m
      using nd [of m] that len tar_treeD(1) [OF t, of m] by (auto simp: k_def)
    show "m < c \<and> c < length (pnodes s')" if "r \<le> m" "m < length (pnodes s')" "kids s' m g = Some c" for m g c
    proof (cases "m = k")
      case False
      then show ?thesis using that kid [of m g] len n(2) tar_treeD(2) [OF t that(1), of g c] by (auto simp: k_def split: if_splits)
    qed (use that kid [of k g] n(2) in \<open>simp add: k_def\<close>)
    show "m = m' \<and> g = g'"
      if "r \<le> m" "m < length (pnodes s')" "r \<le> m'" "m' < length (pnodes s')" "kids s' m g = Some c" "kids s' m' g' = Some c" for m m' g g' c
    proof -
      have lt: "kids s m g \<noteq> Some k" if "r \<le> m" "m < k" for m g using tar_treeD(2) [OF t that(1), of g k] that(2) by (auto simp: k_def)
      have "m < k" "m' < k" using that kid [of m g] kid [of m' g'] len n(2) by (auto simp: k_def less_Suc_eq split: if_splits)
      then show ?thesis
        using that kid [of m g] kid [of m' g'] lt [of m g] lt [of m' g'] tar_tree_inj [OF t that(1) _ that(3), of g c g']
        by (auto simp: k_def split: if_splits)
    qed
  qed
  have "kids s' m g = Some c" if "m < k" "kids s m g = Some c" for m g c
    using that kid [of m g] n(3,4) by (auto simp: kids_def)
  then show "extends r s s'" using len pay n(1,2) by (auto simp: extends_def s'_def set_pnode_def k_def)
  show "kids s' n h = Some k" using kid [of n h] n(2) by (simp add: k_def)
  show "length (pnodes s') = Suc k" by (rule len)
qed

lemma tar_path_ok:
  assumes "tar_tree dev r s" "r \<le> n" "n < length (pnodes s)"
  shows "\<exists>m s'. tar_path dev cs n s = Some (m, s') \<and> tar_tree dev r s' \<and> extends r s s'
    \<and> hwalk (map name_hash cs) n s' = Some m \<and> r \<le> m \<and> m < length (pnodes s')"
  using assms
proof (induction cs arbitrary: n s)
  case (Cons c cs)
  obtain x where x: "pnodes s ! n = TarNode dev x" using tar_treeD(1) [OF Cons.prems] by blast
  show ?case
  proof (cases "kget (tn_children x) (name_hash c)")
    case (Some k)
    then have k: "kids s n (name_hash c) = Some k" using x by (simp add: kids_def)
    then have "r \<le> k" "k < length (pnodes s)" using tar_treeD(2) [OF Cons.prems k] Cons.prems(2) by auto
    then obtain m s' where s': "tar_path dev cs k s = Some (m, s')" "tar_tree dev r s'" "extends r s s'"
      "hwalk (map name_hash cs) k s' = Some m" "r \<le> m" "m < length (pnodes s')" using Cons.IH [OF Cons.prems(1), of k] by blast
    have "kids s' n (name_hash c) = Some k" using s'(3) k Cons.prems(3) by (simp add: extends_def)
    then show ?thesis using s' x Some by auto
  next
    case None
    let ?k = "length (pnodes s)"
    let ?s1 = "set_pnode n (TarNode dev (x\<lparr>tn_children := kadd (name_hash c) ?k (tn_children x)\<rparr>)) (s\<lparr>pnodes := pnodes s @ [TarNode dev (empty_node c)]\<rparr>)"
    note s1 = add_child [OF Cons.prems x None, of c]
    have "r \<le> ?k" "?k < length (pnodes ?s1)" using s1(4) Cons.prems by auto
    then obtain m s' where s': "tar_path dev cs ?k ?s1 = Some (m, s')" "tar_tree dev r s'" "extends r ?s1 s'"
      "hwalk (map name_hash cs) ?k s' = Some m" "r \<le> m" "m < length (pnodes s')" using Cons.IH [OF s1(1), of ?k] by blast
    have "tar_path dev (c # cs) n s = Some (m, s')" using s'(1) x None by (simp add: new_pnode_def empty_node_def)
    moreover have "kids s' n (name_hash c) = Some ?k" using s'(3) s1(3,4) Cons.prems(3) by (simp add: extends_def)
    ultimately show ?thesis using s' extends_trans [OF s1(2) s'(3)] by auto
  qed
qed simp

text \<open>A file of the archive: the components of its name, the block of its header and its size.\<close>

type_synonym tar_entry = "chars list \<times> u32 \<times> u32"

definition present :: "nat \<Rightarrow> 'a fsys_scheme \<Rightarrow> tar_entry \<Rightarrow> bool" where
  "present r s e \<longleftrightarrow> (case e of (parts, b, z) \<Rightarrow> \<exists>m. hwalk (map name_hash parts) r s = Some m \<and> payload s m = Some (True, b, z))"

definition same_below :: "nat \<Rightarrow> 'a fsys_scheme \<Rightarrow> 'a fsys_scheme \<Rightarrow> bool" where
  "same_below r s s' \<longleftrightarrow> length (pnodes s) \<le> length (pnodes s') \<and> take r (pnodes s') = take r (pnodes s) \<and> s' = s\<lparr>pnodes := pnodes s'\<rparr>"

lemma same_below_refl [simp]: "same_below r s s"
  by (simp add: same_below_def)

lemma same_below_trans: "same_below r s s' \<Longrightarrow> same_below r s' s'' \<Longrightarrow> same_below r s s''"
  unfolding same_below_def by (elim conjE, intro conjI) (auto, metis fsys.surjective fsys.update_convs(1))

lemma set_payload:
  fixes b z :: u32
  assumes t: "tar_tree dev r s" and m: "r \<le> m" "m < length (pnodes s)" "pnodes s ! m = TarNode dev x"
  defines "s' \<equiv> set_pnode m (TarNode dev (x\<lparr>tn_is_file := True, tn_block := b, tn_size := z\<rparr>)) s"
  shows "tar_tree dev r s'" "same_below r s s'" "hwalk hs n s' = hwalk hs n s"
    "payload s' q = (if q = m then Some (True, b, z) else payload s q)"
proof -
  have nd: "pnodes s' ! q = (if q = m then TarNode dev (x\<lparr>tn_is_file := True, tn_block := b, tn_size := z\<rparr>) else pnodes s ! q)" for q
    using m(2) by (auto simp: s'_def set_pnode_def)
  have len: "length (pnodes s') = length (pnodes s)" by (simp add: s'_def set_pnode_def)
  have kid: "kids s' q h = kids s q h" for q h using nd [of q] m(3) by (auto simp: kids_def)
  show "tar_tree dev r s'"
    by (rule tar_tree_I)
      (use m t tar_tree_inj [OF t] in \<open>auto simp: nd len kid dest: tar_treeD(1) [OF t] tar_treeD(2) [OF t]\<close>)
  show "same_below r s s'" using m(1) by (auto simp: same_below_def s'_def set_pnode_def)
  show "hwalk hs n s' = hwalk hs n s" by (induction hs arbitrary: n) (auto simp: kid split: option.splits)
  show "payload s' q = (if q = m then Some (True, b, z) else payload s q)" using nd [of q] by (auto simp: payload_def)
qed

lemma tar_add_node_ok:
  assumes t: "tar_tree dev r s" and hdr: "header_name hdr = Some (join 47 parts)" "header_size hdr = Some z"
    and parts: "parts \<noteq> []" "\<forall>c \<in> set parts. 47 \<notin> set c"
  shows "\<exists>s'. tar_add_node dev r hdr b s = Some s' \<and> tar_tree dev r s' \<and> same_below r s s' \<and> present r s' (parts, b, z)
    \<and> (\<forall>e. present r s e \<and> map name_hash (fst e) \<noteq> map name_hash parts \<longrightarrow> present r s' e)"
proof -
  have r: "r < length (pnodes s)" using t by (simp add: tar_tree_def)
  have sp: "split (join 47 parts) 47 False = Some parts"
    using split_loop_join [OF parts, of "[]" False "[]"] by (simp add: split_def)
  obtain m s1 where s1: "tar_path dev parts r s = Some (m, s1)" "tar_tree dev r s1" "extends r s s1"
    "hwalk (map name_hash parts) r s1 = Some m" "r \<le> m" "m < length (pnodes s1)" using tar_path_ok [OF t order_refl r] by blast
  obtain x where x: "pnodes s1 ! m = TarNode dev x" using tar_treeD(1) [OF s1(2,5,6)] by blast
  let ?s' = "set_pnode m (TarNode dev (x\<lparr>tn_is_file := True, tn_block := b, tn_size := z\<rparr>)) s1"
  note s' = set_payload [OF s1(2,5,6) x, where b = b and z = z]
  have "tar_add_node dev r hdr b s = Some ?s'" using hdr sp s1(1) x by (simp add: tar_add_node_def)
  moreover have "same_below r s ?s'"
    by (rule same_below_trans [OF _ s'(2)]) (use s1(3) in \<open>simp add: extends_def same_below_def\<close>)
  moreover have "present r ?s' (parts, b, z)" using s1(4) s'(3,4) by (simp add: present_def)
  moreover have "present r ?s' e" if e: "present r s e" "map name_hash (fst e) \<noteq> map name_hash parts" for e
  proof -
    obtain ps b' z' q where q: "e = (ps, b', z')" "hwalk (map name_hash ps) r s = Some q" "payload s q = Some (True, b', z')"
      using e(1) by (auto simp: present_def split: prod.splits)
    have q1: "hwalk (map name_hash ps) r s1 = Some q" by (rule extends_hwalk [OF s1(3) t order_refl r q(2)])
    have "q < length (pnodes s)" using hwalk_range [OF t order_refl r q(2)] by simp
    then have "payload s1 q = Some (True, b', z')" using s1(3) q(3) by (simp add: extends_def)
    moreover have "q \<noteq> m" using hwalk_inj [OF s1(2) q1] s1(4) e(2) q(1) by auto
    ultimately show ?thesis using q(1) q1 s'(3,4) by (simp add: present_def)
  qed
  ultimately show ?thesis using s'(1) by blast
qed

subsection \<open>Archives\<close>

text \<open>
  The device holds an archive of the files \<open>es\<close> from block \<open>i\<close> on: each header is followed by the
  blocks of the data, the last one by a block of zeros or the end of the device.
\<close>

fun archive :: "block_device \<Rightarrow> u32 \<Rightarrow> tar_entry list \<Rightarrow> bool" where
  "archive dev i [] \<longleftrightarrow> \<not> (ucast i :: u64) < blk_count dev
     \<or> (\<exists>blk. blk_read dev (ucast i) 1 = Some blk \<and> length blk = 512 \<and> is_zero_block blk)"
| "archive dev i ((parts, b, z) # es) \<longleftrightarrow> b = i \<and> (ucast i :: u64) < blk_count dev \<and> parts \<noteq> [] \<and> (\<forall>c \<in> set parts. 47 \<notin> set c)
     \<and> (\<exists>blk. blk_read dev (ucast i) 1 = Some blk \<and> length blk = 512 \<and> \<not> is_zero_block blk \<and> header_is_file blk
          \<and> header_name blk = Some (join 47 parts) \<and> header_size blk = Some z)
     \<and> archive dev (i + (z div 512 + (if z mod 512 \<noteq> 0 then 1 else 0)) + 1) es"

abbreviation entry_key :: "tar_entry \<Rightarrow> u64 list" where
  "entry_key e \<equiv> map name_hash (fst e)"

lemma archive_header:
  "archive dev i es \<Longrightarrow> (parts, b, z) \<in> set es \<Longrightarrow> \<exists>blk. blk_read dev (ucast b) 1 = Some blk \<and> header_size blk = Some z"
  by (induction dev i es rule: archive.induct) auto

lemma tar_scan_ok:
  assumes "archive dev i es" "tar_tree dev r s" "distinct (map entry_key (ds @ es))" "\<forall>d \<in> set ds. present r s d"
  shows "\<exists>s'. tar_scan dev r i s = Some (True, s') \<and> tar_tree dev r s' \<and> same_below r s s' \<and> (\<forall>d \<in> set (ds @ es). present r s' d)"
  using assms
proof (induction es arbitrary: i s ds)
  case Nil
  then have "tar_scan dev r i s = Some (True, s)" by (subst tar_scan.simps) (auto split: option.splits)
  then show ?case using Nil by simp
next
  case (Cons e es)
  obtain parts b z where e: "e = (parts, b, z)" by (cases e)
  obtain blk where blk: "(ucast i :: u64) < blk_count dev" "blk_read dev (ucast i) 1 = Some blk" "length blk = 512" "\<not> is_zero_block blk"
    "header_is_file blk" "header_name blk = Some (join 47 parts)" "header_size blk = Some z" and parts: "parts \<noteq> []" "\<forall>c \<in> set parts. 47 \<notin> set c"
    and b: "b = i" and rest: "archive dev (i + (z div 512 + (if z mod 512 \<noteq> 0 then 1 else 0)) + 1) es"
    using Cons.prems(1) e by auto
  obtain s1 where s1: "tar_add_node dev r blk b s = Some s1" "tar_tree dev r s1" "same_below r s s1" "present r s1 (parts, b, z)"
    "\<forall>e. present r s e \<and> entry_key e \<noteq> map name_hash parts \<longrightarrow> present r s1 e"
    using tar_add_node_ok [OF Cons.prems(2) blk(6,7) parts, of b] by blast
  have "present r s1 d" if "d \<in> set (ds @ [e])" for d
  proof (cases "d \<in> set ds")
    case True
    then have "entry_key d \<noteq> map name_hash parts" using Cons.prems(3) e by force
    then show ?thesis using s1(5) Cons.prems(4) True by blast
  qed (use that s1(4) e in auto)
  then obtain s' where s': "tar_scan dev r (i + (z div 512 + (if z mod 512 \<noteq> 0 then 1 else 0)) + 1) s1 = Some (True, s')"
    "tar_tree dev r s'" "same_below r s1 s'" "\<forall>d \<in> set ((ds @ [e]) @ es). present r s' d"
    using Cons.IH [OF rest s1(2), of "ds @ [e]"] Cons.prems(3) by auto
  have "tar_scan dev r i s = Some (True, s')"
    using blk s1(1) s'(1) b by (subst tar_scan.simps) simp
  then show ?case using s'(2,4) same_below_trans [OF s1(3) s'(3)] by auto
qed

lemma tar_build_ok:
  assumes "archive dev 0 es" "distinct (map entry_key es)"
  shows "\<exists>r s'. tar_build dev s = Some (Some r, s') \<and> r = length (pnodes s) \<and> tar_tree dev r s' \<and> same_below r s s' \<and> (\<forall>d \<in> set es. present r s' d)"
proof -
  let ?r = "length (pnodes s)" and ?s1 = "s\<lparr>pnodes := pnodes s @ [TarNode dev (empty_node [])]\<rparr>"
  have "tar_tree dev ?r ?s1" by (rule tar_tree_I) (auto simp: kids_def empty_node_def nth_append less_Suc_eq)
  then obtain s' where s': "tar_scan dev ?r 0 ?s1 = Some (True, s')" "tar_tree dev ?r s'" "same_below ?r ?s1 s'" "\<forall>d \<in> set es. present ?r s' d"
    using tar_scan_ok [OF assms(1), of ?r ?s1 "[]"] assms(2) by auto
  have "same_below ?r s s'" using s'(3) by (auto simp: same_below_def)
  then show ?thesis using s' by (auto simp: tar_build_def new_pnode_def empty_node_def)
qed

text \<open>Whatever the device holds, mounting it changes no node that was there before.\<close>

lemma tar_add_node_same:
  assumes "tar_tree dev r s" "tar_add_node dev r hdr b s = Some s'"
  shows "tar_tree dev r s' \<and> same_below r s s'"
proof -
  have r: "r < length (pnodes s)" using assms(1) by (simp add: tar_tree_def)
  obtain parts z m s1 where 1: "tar_path dev parts r s = Some (m, s1)" "header_size hdr = Some z"
    and 2: "(case pnodes s1 ! m of TarNode d t \<Rightarrow> Some (set_pnode m (TarNode d (t\<lparr>tn_is_file := True, tn_block := b, tn_size := z\<rparr>)) s1) | _ \<Rightarrow> None) = Some s'"
    using assms(2) by (auto simp: tar_add_node_def bind_eq_Some_conv)
  have s1: "tar_tree dev r s1" "extends r s s1" "r \<le> m" "m < length (pnodes s1)" using tar_path_ok [OF assms(1) order_refl r, of parts] 1(1) by auto
  obtain x where x: "pnodes s1 ! m = TarNode dev x" using tar_treeD(1) [OF s1(1,3,4)] by blast
  have "same_below r s s1" using s1(2) by (simp add: extends_def same_below_def)
  then show ?thesis using 2 x set_payload(1,2) [OF s1(1,3,4) x, where b = b and z = z] same_below_trans by auto
qed

lemma tar_scan_same:
  assumes "tar_scan dev r i s = Some x" "tar_tree dev r s"
  shows "tar_tree dev r (snd x) \<and> same_below r s (snd x)"
proof -
  have "tar_tree dev r s \<longrightarrow> tar_tree dev r (snd x) \<and> same_below r s (snd x)"
  proof (rule tar_scan.raw_induct [OF _ assms(1)])
    fix f :: "block_device \<Rightarrow> nat \<Rightarrow> u32 \<Rightarrow> 'a fsys_scheme \<Rightarrow> (bool \<times> 'a fsys_scheme) option" and dev r i s x
    assume IH: "\<And>dev r i s x. f dev r i s = Some x \<Longrightarrow> tar_tree dev r s \<longrightarrow> tar_tree dev r (snd x) \<and> same_below r s (snd x)"
      and step: "(if (ucast i :: u64) < blk_count dev then
        case blk_read dev (ucast i) 1 of
          None \<Rightarrow> Some (False, s)
        | Some blk \<Rightarrow>
            if length blk \<noteq> 512 then None
            else if is_zero_block blk then Some (True, s)
            else do {
              size' \<leftarrow> header_size blk;
              s \<leftarrow> (if header_is_file blk then tar_add_node dev r blk i s else Some s);
              f dev r (i + (size' div 512 + (if size' mod 512 \<noteq> 0 then 1 else 0)) + 1) s }
      else Some (True, s)) = Some x"
    show "tar_tree dev r s \<longrightarrow> tar_tree dev r (snd x) \<and> same_below r s (snd x)"
    proof
      assume t: "tar_tree dev r s"
      show "tar_tree dev r (snd x) \<and> same_below r s (snd x)"
      proof (cases "x = (True, s) \<or> x = (False, s)")
        case False
        then obtain j s1 where s1: "s1 = s \<or> (\<exists>blk. tar_add_node dev r blk i s = Some s1)" "f dev r j s1 = Some x"
          using step by (auto simp: bind_eq_Some_conv split: if_splits option.splits)
        have "tar_tree dev r s1 \<and> same_below r s s1" using s1(1) t tar_add_node_same [OF t] by auto
        then show ?thesis using IH [OF s1(2)] same_below_trans by blast
      qed (use t in auto)
    qed
  qed
  then show ?thesis using assms(2) by blast
qed

lemma fs_mount_same:
  assumes "fs_mount fs s = Some (pn, s')"
  shows "same_below (length (pnodes s)) s s'"
proof (cases "\<exists>dev. fs = TarFS dev None")
  case True
  then obtain dev where fs: "fs = TarFS dev None" by blast
  let ?r = "length (pnodes s)" and ?s1 = "s\<lparr>pnodes := pnodes s @ [TarNode dev (empty_node [])]\<rparr>"
  have "tar_tree dev ?r ?s1" by (rule tar_tree_I) (auto simp: kids_def empty_node_def nth_append less_Suc_eq)
  moreover obtain x where x: "tar_scan dev ?r 0 ?s1 = Some x" "snd x = s'"
    using assms fs by (auto simp: fs_mount_def tar_build_def new_pnode_def empty_node_def bind_eq_Some_conv)
  ultimately have "same_below ?r ?s1 s'" using tar_scan_same [OF x(1)] x(2) by blast
  then show ?thesis by (auto simp: same_below_def)
qed (use assms in \<open>auto simp: fs_mount_def same_below_def new_pnode_def split: filesystem.splits option.splits if_splits\<close>)

text \<open>An archive with one file \<^verbatim>\<open>a/b\<close> of five bytes.\<close>

definition example_header :: chars where
  "example_header = [97, 47, 98, 0] @ replicate 120 0 @ [48, 48, 48, 48, 48, 48, 48, 48, 48, 48, 53, 0] @ replicate 20 0 @ [48] @ replicate 355 0"

definition example_device :: block_device where
  "example_device = \<lparr>blk_size = 512, blk_count = 4, blk_read = (\<lambda>off n. if off = 0 then Some example_header
     else if off = 1 then Some ([104, 101, 108, 108, 111] @ replicate 507 0) else Some (replicate 512 0))\<rparr>"

lemma example_archive: "archive example_device 0 [([[97], [98]], 0, 5)]"
proof -
  have "header_name example_header = Some (join 47 [[97], [98]])" by (simp add: header_name_def example_header_def)
  moreover have "header_size example_header = Some 5"
    by (simp add: header_size_def octal_value_def example_header_def push_bit_eq_mult)
  moreover have "header_is_file example_header" "length example_header = 512" "\<not> is_zero_block example_header"
    by (simp_all add: header_is_file_def is_zero_block_def example_header_def nth_append)
  ultimately show ?thesis by (simp add: example_device_def is_zero_block_def)
qed

text \<open>
  C35. Reading a file of an archive returns the bytes that are stored from its first block on: as
  many as asked for once the position is within the file, even if they lie beyond its end.
\<close>

theorem archive_pread_bytes:
  assumes "stores (tf_dev f) (tf_block f) bs" "unat size' < 2 ^ 32" "unat off + unat size' \<le> 512 * length bs"
  shows "tar_pread f size' off = Some (if unat (tf_size f) \<le> unat off then [] else take (unat size') (drop (unat off) (concat bs)))"
  using tar_pread_loop_blocks [OF assms(1,2), of 0 off "[]"] assms(3) by (auto simp: tar_pread_def word_le_nat_alt)

theorem archive_pread_bytes_witness:
  "tar_pread \<lparr>tf_dev = example_device, tf_block = 1, tf_pos = 0, tf_size = 5\<rparr> 7 3 = Some ([108, 111] @ replicate 5 0)"
proof -
  have "stores example_device 1 [[104, 101, 108, 108, 111] @ replicate 507 0]" by (simp add: stores_def example_device_def)
  then show ?thesis
    using archive_pread_bytes [of "\<lparr>tf_dev = example_device, tf_block = 1, tf_pos = 0, tf_size = 5\<rparr>" _ 7 3]
    by simp
qed

end
