(* ===== verification/Vfs.thy ===== *)
theory Vfs
  imports Tar_Fs
begin

text \<open>
  The virtual file system of \<^verbatim>\<open>fs/vfs.cpp\<close> and \<^verbatim>\<open>fs/vfs-node.cpp\<close>: a tree of nodes that caches the nodes of
  the mounted file systems, path lookup, and the mounts of \<^verbatim>\<open>Kernel::start_kernel_threadproc\<close>. Its
  nodes are numbers, the indices of a list. The result \<open>None\<close> stands for a fault or for
  \<^verbatim>\<open>arch_abort\<close>.
\<close>

record vfs_node =
  vn_parent :: "nat option"
  vn_pn :: "nat option"
  vn_children :: "(u64, nat) kmap"

record vfs = fsys +
  vnodes :: "vfs_node list"
  root_node :: nat
  filesystems :: "(chars \<times> fs_kind) list"

definition new_vnode :: "nat option \<Rightarrow> nat option \<Rightarrow> vfs \<Rightarrow> nat \<times> vfs" where
  "new_vnode parent pn s = (length (vnodes s), s\<lparr>vnodes := vnodes s @ [\<lparr>vn_parent = parent, vn_pn = pn, vn_children = kempty\<rparr>]\<rparr>)"

definition upd_vnode :: "nat \<Rightarrow> (vfs_node \<Rightarrow> vfs_node) \<Rightarrow> vfs \<Rightarrow> vfs" where
  "upd_vnode n f s = s\<lparr>vnodes := (vnodes s)[n := f (vnodes s ! n)]\<rparr>"

subsection \<open>Nodes\<close>

definition get_child :: "chars \<Rightarrow> nat \<Rightarrow> vfs \<Rightarrow> nat option \<times> vfs" where
  "get_child name n s =
     (case vn_pn (vnodes s ! n) of
        None \<Rightarrow> (None, s)
      | Some p \<Rightarrow>
          (case kget (vn_children (vnodes s ! n)) (name_hash name) of
             Some child \<Rightarrow> (Some child, s)
           | None \<Rightarrow>
               (case pfs_get_child name p s of
                  (None, s) \<Rightarrow> (None, s)
                | (Some a, s) \<Rightarrow>
                    let (child, s) = new_vnode (Some n) (Some a) s
                    in (Some child, upd_vnode n (\<lambda>x. x\<lparr>vn_children := kadd (name_hash name) child (vn_children x)\<rparr>) s))))"

definition vfs_mkdir :: "chars \<Rightarrow> nat \<Rightarrow> vfs \<Rightarrow> nat option \<times> vfs" where
  "vfs_mkdir name n s =
     (case vn_pn (vnodes s ! n) of
        None \<Rightarrow> (None, s)
      | Some p \<Rightarrow>
          (case pfs_mkdir name p s of
             (None, s) \<Rightarrow> (None, s)
           | (Some dir, s) \<Rightarrow> get_child name n s))"

subsection \<open>Registered file systems\<close>

fun lookup_fs_loop :: "(chars \<times> fs_kind) list \<Rightarrow> chars \<Rightarrow> fs_kind option option" where
  "lookup_fs_loop [] fstype = Some None"
| "lookup_fs_loop ((nm, k) # regs) fstype = do {
     r \<leftarrow> strncmp (Some (nm @ [0])) (Some (fstype @ [0])) 16;
     if r = 0 then Some (Some k) else lookup_fs_loop regs fstype }"

definition lookup_fs :: "chars \<Rightarrow> vfs \<Rightarrow> fs_kind option option" where
  "lookup_fs fstype s = lookup_fs_loop (filesystems s) fstype"

text \<open>\<^verbatim>\<open>VFSNode::mount\<close>: the result says whether a file system was mounted.\<close>

definition mount :: "chars \<Rightarrow> nat option \<Rightarrow> nat \<Rightarrow> vfs \<Rightarrow> (bool \<times> vfs) option" where
  "mount fstype dev n s = do {
     reg \<leftarrow> lookup_fs fstype s;
     case reg of
       None \<Rightarrow> Some (False, s)
     | Some k \<Rightarrow> do {
         fs \<leftarrow> create_fs k dev s;
         case fs of
           None \<Rightarrow> Some (False, s)
         | Some fs \<Rightarrow> do {
             (pn, s) \<leftarrow> fs_mount fs s;
             case pn of
               None \<Rightarrow> Some (False, s)
             | Some p \<Rightarrow> Some (True, upd_vnode n (\<lambda>x. x\<lparr>vn_pn := Some p, vn_children := kempty\<rparr>) s) } } }"

abbreviation bytes :: "string \<Rightarrow> chars" where
  "bytes cs \<equiv> map (of_nat \<circ> of_char) cs"

definition vfs_init :: "(chars \<times> fs_kind) list \<Rightarrow> vfs \<Rightarrow> (bool \<times> vfs) option" where
  "vfs_init regs s = do {
     let s = s\<lparr>filesystems := filesystems s @ regs\<rparr>;
     reg \<leftarrow> lookup_fs (bytes ''rootfs'') s;
     k \<leftarrow> reg;
     fs \<leftarrow> create_fs k None s;
     fs \<leftarrow> fs;
     (pn, s) \<leftarrow> fs_mount fs s;
     case pn of
       None \<Rightarrow> Some (False, s)
     | Some p \<Rightarrow> let (n, s) = new_vnode None (Some p) s in Some (True, s\<lparr>root_node := n\<rparr>) }"

subsection \<open>Paths\<close>

definition first :: "chars \<Rightarrow> u8" where
  "first p = (case p of [] \<Rightarrow> 0 | c # cs \<Rightarrow> c)"

abbreviation in_component :: "u8 \<Rightarrow> bool" where
  "in_component c \<equiv> c \<noteq> 0 \<and> c \<noteq> 47"

definition after_component :: "chars \<Rightarrow> chars" where
  "after_component path = (let rest = dropWhile in_component path in if first rest = 47 then drop 1 rest else rest)"

lemma after_component_shorter: "takeWhile in_component path \<noteq> [] \<Longrightarrow> length (after_component path) < length path"
  using arg_cong [OF takeWhile_dropWhile_id [of in_component path], of length]
  by (cases "takeWhile in_component path") (auto simp: after_component_def Let_def)

text \<open>The loop of \<^verbatim>\<open>lookup_node\<close>; a component is copied to an array of 256 bytes with its terminator.\<close>

function lookup_loop :: "chars \<Rightarrow> nat \<Rightarrow> vfs \<Rightarrow> (nat option \<times> vfs) option" where
  "lookup_loop path cur s =
     (if 256 \<le> length (takeWhile in_component path) then None
      else if takeWhile in_component path = [] then Some (Some cur, s)
      else
        (case get_child (takeWhile in_component path) cur s of
           (None, s) \<Rightarrow> Some (None, s)
         | (Some c, s) \<Rightarrow> lookup_loop (after_component path) c s))"
  by pat_completeness auto
termination
proof (relation "measure (\<lambda>(path, cur, s). length path)")
  fix path cur s x y c t
  assume "takeWhile in_component path \<noteq> []"
  then show "((after_component path, c, t), path, cur, s) \<in> measure (\<lambda>(path, cur, s). length path)"
    using after_component_shorter by simp
qed simp

declare lookup_loop.simps [simp del]

definition lookup_node :: "chars \<Rightarrow> vfs \<Rightarrow> (nat option \<times> vfs) option" where
  "lookup_node path s =
     (if first path = 0 then Some (None, s)
      else if first path \<noteq> 47 then Some (None, s)
      else if first (drop 1 path) = 0 then Some (Some (root_node s), s)
      else lookup_loop (drop 1 path) (root_node s) s)"

definition vfs_open :: "chars \<Rightarrow> vfs \<Rightarrow> (fs_file option \<times> vfs) option" where
  "vfs_open path s = do {
     (n, s) \<leftarrow> lookup_node path s;
     case n of
       None \<Rightarrow> Some (None, s)
     | Some n \<Rightarrow>
         (case vn_pn (vnodes s ! n) of
            None \<Rightarrow> Some (None, s)
          | Some p \<Rightarrow> map_option (\<lambda>f. (f, s)) (pfs_open p s)) }"

definition vfs_opendir :: "chars \<Rightarrow> vfs \<Rightarrow> (directory option \<times> vfs) option" where
  "vfs_opendir path s = do {
     (n, s) \<leftarrow> lookup_node path s;
     case n of
       None \<Rightarrow> Some (None, s)
     | Some n \<Rightarrow>
         (case vn_pn (vnodes s ! n) of
            None \<Rightarrow> Some (None, s)
          | Some p \<Rightarrow> Some (pfs_opendir p s, s)) }"

subsection \<open>Mounting at boot\<close>

text \<open>
  The first part of \<^verbatim>\<open>start_kernel_threadproc\<close>: what it mounts, given the name of the boot device and
  the type of its file system from the command line.
\<close>

definition boot_mounts :: "(chars \<times> fs_kind) list \<Rightarrow> chars \<Rightarrow> chars \<Rightarrow> vfs \<Rightarrow> vfs option" where
  "boot_mounts regs boot_device_name boot_fstype s = do {
     (ok, s) \<leftarrow> vfs_init regs s;
     if \<not> ok then None else do {
     (root, s) \<leftarrow> lookup_node (bytes ''/'') s;
     r \<leftarrow> root;
     (ok, s) \<leftarrow> mount (bytes ''tmpfs'') None r s;
     if \<not> ok then None else do {
     let (dev, s) = vfs_mkdir (bytes ''dev'') r s;
     d \<leftarrow> dev;
     (ok, s) \<leftarrow> mount (bytes ''devfs'') None d s;
     if \<not> ok then None else do {
     let (usr, s) = vfs_mkdir (bytes ''usr'') r s;
     u \<leftarrow> usr;
     if boot_device_name = [] then None else do {
     b \<leftarrow> try_get_device_by_name boot_device_name (devmgr s);
     let fstype = (if boot_fstype = [] then bytes ''internal_driver'' else boot_fstype);
     (ok, s) \<leftarrow> mount fstype (Some b) u s;
     if \<not> ok then None else Some s }}}}}"

subsection \<open>Lookup is a walk along the components\<close>

fun walk :: "chars list \<Rightarrow> nat \<Rightarrow> vfs \<Rightarrow> nat option \<times> vfs" where
  "walk [] n s = (Some n, s)"
| "walk (c # cs) n s = (case get_child c n s of (None, s) \<Rightarrow> (None, s) | (Some m, s) \<Rightarrow> walk cs m s)"

definition component :: "chars \<Rightarrow> bool" where
  "component c \<longleftrightarrow> c \<noteq> [] \<and> 0 \<notin> set c \<and> 47 \<notin> set c"

text \<open>Where the loop stops: at the end of the path, or at a slash that is followed by no component.\<close>

definition stops :: "chars \<Rightarrow> bool" where
  "stops rest \<longleftrightarrow> rest = [] \<or> first rest = 47 \<and> takeWhile in_component (drop 1 rest) = []"

lemma first_in: "first rest = 47 \<Longrightarrow> takeWhile in_component rest = [] \<and> dropWhile in_component rest = rest"
  by (cases rest) (auto simp: first_def)

lemma component_prefix:
  assumes "component c" "rest = [] \<or> first rest = 47"
  shows "takeWhile in_component (c @ rest) = c" "after_component (c @ rest) = drop 1 rest"
proof -
  have c: "\<forall>x \<in> set c. in_component x" using assms(1) unfolding component_def by metis
  then have "takeWhile in_component (c @ rest) = c @ takeWhile in_component rest" "dropWhile in_component (c @ rest) = dropWhile in_component rest"
    by (simp_all add: takeWhile_append2 dropWhile_append2)
  then show "takeWhile in_component (c @ rest) = c" "after_component (c @ rest) = drop 1 rest"
    using assms(2) first_in by (auto simp: after_component_def first_def)
qed

lemma lookup_loop_join:
  assumes "stops rest" "\<forall>c \<in> set cs. component c \<and> length c < 256"
  shows "cs \<noteq> [] \<Longrightarrow> lookup_loop (join 47 cs @ rest) n s = Some (walk cs n s)"
  using assms(2)
proof (induction cs arbitrary: n s rule: induct_list012)
  case (2 c)
  have r: "rest = [] \<or> first rest = 47" using assms(1) by (auto simp: stops_def)
  have c: "component c" "length c < 256" using 2 by auto
  have e: "lookup_loop (drop 1 rest) m t = Some (Some m, t)" for m t
    using assms(1) by (subst lookup_loop.simps) (auto simp: stops_def)
  show ?case using component_prefix [OF c(1) r] c e by (subst lookup_loop.simps) (auto simp: component_def split: option.splits prod.splits)
next
  case (3 c d cs)
  have c: "component c" "length c < 256" using 3 by auto
  have r: "first (47 # join 47 (d # cs) @ rest) = 47" by (simp add: first_def)
  have "lookup_loop (join 47 (d # cs) @ rest) m t = Some (walk (d # cs) m t)" for m t using 3 by simp
  then show ?case using component_prefix [OF c(1), of "47 # join 47 (d # cs) @ rest"] r c
    by (subst lookup_loop.simps) (auto simp: component_def split: option.splits prod.splits)
qed simp

lemma join_first: "component c \<Longrightarrow> first (join 47 (c # cs) @ rest) \<noteq> 0"
  by (cases cs; cases c) (auto simp: component_def first_def)

lemma lookup_node_join:
  assumes "stops rest" "cs \<noteq> []" "\<forall>c \<in> set cs. component c \<and> length c < 256"
  shows "lookup_node (47 # join 47 cs @ rest) s = Some (walk cs (root_node s) s)"
proof -
  have "first (join 47 cs @ rest) \<noteq> 0" using assms(2,3) join_first by (cases cs) auto
  then show ?thesis using lookup_loop_join [OF assms(1,3,2)] by (simp add: lookup_node_def first_def [of "47 # _"])
qed

text \<open>
  C19. Looking up an absolute path walks down the tree along its components, with or without a
  slash at the end. Two slashes in a row end the walk: the rest of the path is ignored. A
  component of 256 bytes or more is written beyond the end of the array it is copied to.
\<close>

theorem lookup_node_walks:
  assumes "cs \<noteq> []" "\<forall>c \<in> set cs. component c \<and> length c < 256"
  shows "lookup_node (47 # join 47 cs) s = Some (walk cs (root_node s) s)
    \<and> lookup_node (47 # join 47 cs @ [47]) s = Some (walk cs (root_node s) s)
    \<and> lookup_node (47 # join 47 cs @ 47 # 47 # rest) s = Some (walk cs (root_node s) s)
    \<and> (component d \<and> 256 \<le> length d \<longrightarrow> lookup_node (47 # d) s = None)"
proof -
  have "stops []" "stops [47]" "stops (47 # 47 # rest)" by (auto simp: stops_def first_def)
  moreover have "lookup_node (47 # d) s = None" if d: "component d" "256 \<le> length d"
  proof -
    have "first d \<noteq> 0" using d(1) by (cases d) (auto simp: component_def first_def)
    moreover have "256 \<le> length (takeWhile in_component d)" using arg_cong [OF component_prefix(1) [OF d(1), of "[]"], of length] d(2) by simp
    ultimately show ?thesis by (simp add: lookup_node_def first_def [of "47 # _"] lookup_loop.simps [of d])
  qed
  ultimately show ?thesis
    using lookup_node_join [OF _ assms, of "[]"] lookup_node_join [OF _ assms, of "[47]"] lookup_node_join [OF _ assms, of "47 # 47 # rest"] by auto
qed

theorem lookup_node_walks_witness:
  "lookup_node (bytes ''/dev/tty0'') \<lparr>pnodes = [RootFSNode], devmgr = \<lparr>device_table = [], devices = kempty, instance_count = (\<lambda>_. 0)\<rparr>,
      vnodes = [\<lparr>vn_parent = None, vn_pn = Some 0, vn_children = kadd (name_hash (bytes ''dev'')) 1 kempty\<rparr>,
        \<lparr>vn_parent = Some 0, vn_pn = Some 0, vn_children = kadd (name_hash (bytes ''tty0'')) 2 kempty\<rparr>], root_node = 0, filesystems = []\<rparr>
    = Some (Some 2, \<lparr>pnodes = [RootFSNode], devmgr = \<lparr>device_table = [], devices = kempty, instance_count = (\<lambda>_. 0)\<rparr>,
      vnodes = [\<lparr>vn_parent = None, vn_pn = Some 0, vn_children = kadd (name_hash (bytes ''dev'')) 1 kempty\<rparr>,
        \<lparr>vn_parent = Some 0, vn_pn = Some 0, vn_children = kadd (name_hash (bytes ''tty0'')) 2 kempty\<rparr>], root_node = 0, filesystems = []\<rparr>)"
  using lookup_node_walks [THEN conjunct1, of "[bytes ''dev'', bytes ''tty0'']"] by (simp add: component_def get_child_def)

subsection \<open>Making directories\<close>

text \<open>
  C34. A directory made in \<^verbatim>\<open>tmpfs\<close> is found afterwards, and the lookup gives the cached node. Making
  it again replaces the directory in \<^verbatim>\<open>tmpfs\<close>, but the cache of the virtual file system keeps the
  node of the first one.
\<close>

theorem mkdir_then_lookup:
  assumes "n < length (vnodes s)" "vn_pn (vnodes s ! n) = Some p" "p < length (pnodes s)" "pnodes s ! p = TempFSNode nm ch"
    and "kget (vn_children (vnodes s ! n)) (name_hash name) = None"
  shows "\<exists>c q s1 q' s2. vfs_mkdir name n s = (Some c, s1) \<and> get_child name n s1 = (Some c, s1)
    \<and> vn_pn (vnodes s1 ! c) = Some q \<and> pnodes s1 ! q = TempFSNode name kempty
    \<and> vfs_mkdir name n s1 = (Some c, s2) \<and> vn_pn (vnodes s2 ! c) = Some q
    \<and> fst (pfs_get_child name p s2) = Some q' \<and> q' \<noteq> q"
proof -
  let ?h = "name_hash name" and ?q = "length (pnodes s)" and ?c = "length (vnodes s)" and ?v = "vnodes s ! n"
  define s1 where "s1 = s\<lparr>pnodes := (pnodes s @ [TempFSNode name kempty])[p := TempFSNode nm (kadd ?h ?q ch)],
    vnodes := (vnodes s @ [\<lparr>vn_parent = Some n, vn_pn = Some ?q, vn_children = kempty\<rparr>])[n := ?v\<lparr>vn_children := kadd ?h ?c (vn_children ?v)\<rparr>]\<rparr>"
  define s2 where "s2 = s1\<lparr>pnodes := (pnodes s1 @ [TempFSNode name kempty])[p := TempFSNode nm (kadd ?h (Suc ?q) (kadd ?h ?q ch))]\<rparr>"
  have 1: "vfs_mkdir name n s = (Some ?c, s1)"
    using assms by (simp add: vfs_mkdir_def pfs_mkdir_def new_pnode_def set_pnode_def get_child_def pfs_get_child_def
        new_vnode_def upd_vnode_def nth_append s1_def)
  have v1: "vn_pn (vnodes s1 ! n) = Some p" "kget (vn_children (vnodes s1 ! n)) ?h = Some ?c" "vn_pn (vnodes s1 ! ?c) = Some ?q"
    "pnodes s1 ! p = TempFSNode nm (kadd ?h ?q ch)" "pnodes s1 ! ?q = TempFSNode name kempty" "length (pnodes s1) = Suc ?q"
    using assms by (simp_all add: s1_def nth_append)
  have 2: "vfs_mkdir name n s1 = (Some ?c, s2)"
    using v1 assms(3) by (simp add: vfs_mkdir_def pfs_mkdir_def new_pnode_def set_pnode_def get_child_def s2_def)
  have "vnodes s2 = vnodes s1" "pnodes s2 ! p = TempFSNode nm (kadd ?h (Suc ?q) (kadd ?h ?q ch))"
    using assms(3) v1(6) by (simp_all add: s2_def)
  moreover have "get_child name n s1 = (Some ?c, s1)" using v1(1,2) by (simp add: get_child_def)
  ultimately show ?thesis using 1 2 v1 by (intro exI [of _ ?c] exI [of _ ?q] exI [of _ s1] exI [of _ "Suc ?q"] exI [of _ s2]) (simp add: pfs_get_child_def)
qed

subsection \<open>The mounted tree after boot\<close>

text \<open>The file systems that register themselves, and the state before \<^verbatim>\<open>init\<close>.\<close>

definition registrations :: "(chars \<times> fs_kind) list" where
  "registrations = [(bytes ''devfs'', devfs_create), (bytes ''internal_driver'', tarfs_create), (bytes ''rootfs'', rootfs_create),
     (bytes ''tmpfs'', tmpfs_create), (bytes ''vfat'', vfat_create)]"

definition empty_vfs :: "device_manager \<Rightarrow> vfs" where
  "empty_vfs dm = \<lparr>pnodes = [], devmgr = dm, vnodes = [], root_node = 0, filesystems = []\<rparr>"

lemma lookup_registered:
  "lookup_fs_loop registrations (bytes ''rootfs'') = Some (Some rootfs_create)"
  "lookup_fs_loop registrations (bytes ''tmpfs'') = Some (Some tmpfs_create)"
  "lookup_fs_loop registrations (bytes ''devfs'') = Some (Some devfs_create)"
  "lookup_fs_loop registrations (bytes ''internal_driver'') = Some (Some tarfs_create)"
  by (simp_all add: registrations_def strncmp_def strlen_def)

lemma hash_dev_usr: "name_hash (bytes ''usr'') \<noteq> name_hash (bytes ''dev'')"
  by (simp add: name_hash_def)

definition boot_tree :: "device_manager \<Rightarrow> vfs" where
  "boot_tree dm =
     (let dev = name_hash (bytes ''dev''); usr = name_hash (bytes ''usr'')
      in \<lparr>pnodes = [RootFSNode, TempFSNode [] (kadd usr 4 (kadd dev 2 kempty)), TempFSNode (bytes ''dev'') kempty, DeviceFSRootNode,
              TempFSNode (bytes ''usr'') kempty],
          devmgr = dm,
          vnodes = [\<lparr>vn_parent = None, vn_pn = Some 1, vn_children = kadd usr 2 (kadd dev 1 kempty)\<rparr>,
            \<lparr>vn_parent = Some 0, vn_pn = Some 3, vn_children = kempty\<rparr>, \<lparr>vn_parent = Some 0, vn_pn = Some 4, vn_children = kempty\<rparr>],
          root_node = 0, filesystems = registrations\<rparr>)"

lemma boot_mounts_eq:
  "boot_mounts registrations bdev bfs (empty_vfs dm) =
     (if bdev = [] then None
      else do {
        b \<leftarrow> try_get_device_by_name bdev dm;
        (ok, s) \<leftarrow> mount (if bfs = [] then bytes ''internal_driver'' else bfs) (Some b) 2 (boot_tree dm);
        if \<not> ok then None else Some s })"
proof -
  note reg = lookup_registered [simplified] and h = hash_dev_usr [simplified]
  let ?s1 = "\<lparr>pnodes = [RootFSNode], devmgr = dm, vnodes = [\<lparr>vn_parent = None, vn_pn = Some 0, vn_children = kempty\<rparr>], root_node = 0, filesystems = registrations\<rparr>"
  have 1: "vfs_init registrations (empty_vfs dm) = Some (True, ?s1)"
    by (simp add: vfs_init_def empty_vfs_def lookup_fs_def reg create_fs_def fs_mount_def new_pnode_def new_vnode_def)
  have 2: "lookup_node (bytes ''/'') ?s1 = Some (Some 0, ?s1)" by (simp add: lookup_node_def first_def)
  let ?s2 = "?s1\<lparr>pnodes := [RootFSNode, TempFSNode [] kempty], vnodes := [\<lparr>vn_parent = None, vn_pn = Some 1, vn_children = kempty\<rparr>]\<rparr>"
  have 3: "mount (bytes ''tmpfs'') None 0 ?s1 = Some (True, ?s2)"
    by (simp add: mount_def lookup_fs_def reg create_fs_def fs_mount_def new_pnode_def upd_vnode_def)
  let ?dev = "name_hash (bytes ''dev'')"
  let ?s3 = "?s2\<lparr>pnodes := [RootFSNode, TempFSNode [] (kadd ?dev 2 kempty), TempFSNode (bytes ''dev'') kempty],
    vnodes := [\<lparr>vn_parent = None, vn_pn = Some 1, vn_children = kadd ?dev 1 kempty\<rparr>, \<lparr>vn_parent = Some 0, vn_pn = Some 2, vn_children = kempty\<rparr>]\<rparr>"
  have 4: "vfs_mkdir (bytes ''dev'') 0 ?s2 = (Some 1, ?s3)"
    by (simp add: vfs_mkdir_def pfs_mkdir_def new_pnode_def set_pnode_def get_child_def pfs_get_child_def new_vnode_def upd_vnode_def
        flip: numeral_2_eq_2)
  let ?s4 = "?s3\<lparr>pnodes := [RootFSNode, TempFSNode [] (kadd ?dev 2 kempty), TempFSNode (bytes ''dev'') kempty, DeviceFSRootNode],
    vnodes := [\<lparr>vn_parent = None, vn_pn = Some 1, vn_children = kadd ?dev 1 kempty\<rparr>, \<lparr>vn_parent = Some 0, vn_pn = Some 3, vn_children = kempty\<rparr>]\<rparr>"
  have 5: "mount (bytes ''devfs'') None 1 ?s3 = Some (True, ?s4)"
    by (simp add: mount_def lookup_fs_def reg create_fs_def fs_mount_def new_pnode_def upd_vnode_def)
  have suc4: "Suc (Suc (Suc (Suc 0))) = 4" by simp
  have 6: "vfs_mkdir (bytes ''usr'') 0 ?s4 = (Some 2, boot_tree dm)"
    by (simp add: vfs_mkdir_def pfs_mkdir_def new_pnode_def set_pnode_def get_child_def pfs_get_child_def new_vnode_def upd_vnode_def boot_tree_def h
        Let_def numeral_2_eq_2 [symmetric] suc4)
  have "devmgr (boot_tree dm) = dm" by (simp add: boot_tree_def Let_def)
  then show ?thesis unfolding boot_mounts_def 1 by (simp only: bind.bind_lunit prod.case simp_thms if_False 2 3 4 5 6 Let_def if_True)
qed

lemma boot_mounts_final:
  assumes "boot_mounts registrations bdev bfs (empty_vfs dm) = Some s"
  obtains p where "root_node s = 0" "devmgr s = dm" "take 5 (pnodes s) = pnodes (boot_tree dm)"
    "vnodes s = (vnodes (boot_tree dm))[2 := \<lparr>vn_parent = Some 0, vn_pn = Some p, vn_children = kempty\<rparr>]"
proof -
  obtain b where m: "mount (if bfs = [] then bytes ''internal_driver'' else bfs) (Some b) 2 (boot_tree dm) = Some (True, s)"
    using assms unfolding boot_mounts_eq by (auto simp: bind_eq_Some_conv split: if_splits)
  obtain fs p s1 where f: "fs_mount fs (boot_tree dm) = Some (Some p, s1)" "s = upd_vnode 2 (\<lambda>x. x\<lparr>vn_pn := Some p, vn_children := kempty\<rparr>) s1"
    using m unfolding mount_def by (auto simp: bind_eq_Some_conv split: option.splits)
  obtain ns where ns: "s1 = (boot_tree dm)\<lparr>pnodes := ns\<rparr>" "take (length (pnodes (boot_tree dm))) ns = pnodes (boot_tree dm)"
    using fs_mount_same [OF f(1)] by (auto simp: same_below_def)
  have "length (pnodes (boot_tree dm)) = 5" by (simp add: boot_tree_def Let_def)
  then have "take 5 ns = pnodes (boot_tree dm)" using ns(2) by simp
  moreover have "pnodes s = ns" "devmgr s = dm" "root_node s = 0"
    "vnodes s = (vnodes (boot_tree dm))[2 := \<lparr>vn_parent = Some 0, vn_pn = Some p, vn_children = kempty\<rparr>]"
    using f(2) ns(1) by (simp_all add: upd_vnode_def boot_tree_def Let_def)
  ultimately show ?thesis using that by blast
qed

lemma boot_mounts_archive:
  assumes dev: "try_get_device_by_name bdev dm = Some b" "bdev \<noteq> []" "class_is (dev_class (device_table dm ! b)) BlockDeviceClass"
      "dev_block (device_table dm ! b) = Some dev"
    and ar: "archive dev 0 es" "distinct (map entry_key es)"
  obtains r s where "boot_mounts registrations bdev [] (empty_vfs dm) = Some s" "tar_tree dev r s" "r < length (pnodes s)"
    "\<forall>d \<in> set es. present r s d" "root_node s = 0"
    "vnodes s = (vnodes (boot_tree dm))[2 := \<lparr>vn_parent = Some 0, vn_pn = Some r, vn_children = kempty\<rparr>]"
proof -
  have bt: "filesystems (boot_tree dm) = registrations" "devmgr (boot_tree dm) = dm" by (simp_all add: boot_tree_def Let_def)
  obtain r s1 where t: "tar_build dev (boot_tree dm) = Some (Some r, s1)" "tar_tree dev r s1" "same_below r (boot_tree dm) s1" "\<forall>d \<in> set es. present r s1 d"
    using tar_build_ok [OF ar, of "boot_tree dm"] by blast
  let ?s = "upd_vnode 2 (\<lambda>x. x\<lparr>vn_pn := Some r, vn_children := kempty\<rparr>) s1"
  have "mount (bytes ''internal_driver'') (Some b) 2 (boot_tree dm) = Some (True, ?s)"
    using lookup_registered(4) [simplified] dev(3,4) t(1) by (simp add: mount_def lookup_fs_def bt create_fs_def block_fs_def fs_mount_def)
  then have "boot_mounts registrations bdev [] (empty_vfs dm) = Some ?s" using dev(1,2) by (simp add: boot_mounts_eq)
  moreover have p: "pnodes ?s = pnodes s1" by (simp add: upd_vnode_def)
  then have k: "kids ?s = kids s1" "payload ?s = payload s1" by (simp_all add: kids_def payload_def fun_eq_iff)
  have h: "hwalk hs q ?s = hwalk hs q s1" for hs q by (induction hs arbitrary: q) (auto simp: k split: option.splits)
  have "tar_tree dev r ?s" using t(2) unfolding tar_tree_def k p .
  moreover have "\<forall>d \<in> set es. present r ?s d" using t(4) unfolding present_def h k .
  moreover have "r < length (pnodes ?s)" using t(2) p by (simp add: tar_tree_def)
  moreover obtain ns where "s1 = (boot_tree dm)\<lparr>pnodes := ns\<rparr>" using t(3) unfolding same_below_def by blast
  then have "root_node ?s = 0" "vnodes ?s = (vnodes (boot_tree dm))[2 := \<lparr>vn_parent = Some 0, vn_pn = Some r, vn_children = kempty\<rparr>]"
    by (simp_all add: upd_vnode_def boot_tree_def Let_def)
  ultimately show ?thesis using that by blast
qed

lemma component_bytes: "component (bytes ''dev'')" "component (bytes ''usr'')"
  by (simp_all add: component_def)

text \<open>A machine with a terminal and a disk that holds an archive.\<close>

definition example_dm :: device_manager where
  "example_dm = \<lparr>device_table = [\<lparr>dev_name = bytes ''tty0'', dev_class = Device_Class (Some RootDeviceClass) (bytes ''tty''),
       dev_opens_as_file = True, dev_block = None\<rparr>,
     \<lparr>dev_name = bytes ''disk0'', dev_class = BlockDeviceClass, dev_opens_as_file = False, dev_block = Some example_device\<rparr>],
     devices = kadd (name_hash (bytes ''disk0'')) 1 (kadd (name_hash (bytes ''tty0'')) 0 kempty), instance_count = (\<lambda>_. 1)\<rparr>"

lemma example_dm_lookup:
  "try_get_device_by_name (bytes ''disk0'') example_dm = Some 1" "try_get_device_by_name (bytes ''tty0'') example_dm = Some 0"
  by (simp_all add: try_get_device_by_name_def example_dm_def name_hash_def)

text \<open>
  C33. After boot every registered device is found below \<^verbatim>\<open>/dev\<close> under its name, and opening that
  path opens the device when it can be used as a file.
\<close>

theorem boot_resolves_devices:
  assumes boot: "boot_mounts registrations bdev bfs (empty_vfs dm) = Some s"
    and name: "try_get_device_by_name name dm = Some d" "component name" "length name < 256"
  shows "\<exists>n p s'. lookup_node (bytes ''/dev/'' @ name) s = Some (Some n, s') \<and> vn_pn (vnodes s' ! n) = Some p
    \<and> pnodes s' ! p = DeviceFSNode d
    \<and> vfs_open (bytes ''/dev/'' @ name) s = Some (if dev_opens_as_file (device_table dm ! d) then Some (DeviceFile d) else None, s')"
proof -
  obtain p where s: "root_node s = 0" "devmgr s = dm" "take 5 (pnodes s) = pnodes (boot_tree dm)"
    "vnodes s = (vnodes (boot_tree dm))[2 := \<lparr>vn_parent = Some 0, vn_pn = Some p, vn_children = kempty\<rparr>]"
    by (rule boot_mounts_final [OF boot])
  have "take 5 (pnodes s) ! 3 = DeviceFSRootNode" unfolding s(3) by (simp add: boot_tree_def Let_def)
  then have p3: "pnodes s ! 3 = DeviceFSRootNode" by simp
  have v: "vn_pn (vnodes s ! 0) = Some 1" "kget (vn_children (vnodes s ! 0)) (name_hash (bytes ''dev'')) = Some 1"
    "vn_pn (vnodes s ! 1) = Some 3" "vn_children (vnodes s ! 1) = kempty" "length (vnodes s) = 3"
    using hash_dev_usr by (simp_all add: s(4) boot_tree_def Let_def)
  have "get_child (bytes ''dev'') 0 s = (Some 1, s)" using v(1,2) by (simp add: get_child_def)
  moreover obtain s' where s': "get_child name 1 s = (Some 3, s')" "vn_pn (vnodes s' ! 3) = Some (length (pnodes s))"
    "pnodes s' = pnodes s @ [DeviceFSNode d]" "devmgr s' = dm"
    using v(3-5) p3 name(1) s(2) by (simp add: get_child_def pfs_get_child_def new_pnode_def new_vnode_def upd_vnode_def nth_append)
  ultimately have "walk [bytes ''dev'', name] (root_node s) s = (Some 3, s')" using s(1) by simp
  then have "lookup_node (bytes ''/dev/'' @ name) s = Some (Some 3, s')"
    using lookup_node_join [of "[]" "[bytes ''dev'', name]" s] name(2,3) component_bytes by (simp add: stops_def)
  then show ?thesis using s'(2-4) by (auto simp: vfs_open_def pfs_open_def)
qed

theorem boot_resolves_devices_witness:
  "\<exists>s n p s'. boot_mounts registrations (bytes ''disk0'') [] (empty_vfs example_dm) = Some s
    \<and> lookup_node (bytes ''/dev/tty0'') s = Some (Some n, s') \<and> vn_pn (vnodes s' ! n) = Some p \<and> pnodes s' ! p = DeviceFSNode 0
    \<and> vfs_open (bytes ''/dev/tty0'') s = Some (Some (DeviceFile 0), s')"
proof -
  have d: "class_is (dev_class (device_table example_dm ! 1)) BlockDeviceClass" "dev_block (device_table example_dm ! 1) = Some example_device"
    by (simp_all add: example_dm_def BlockDeviceClass_def)
  have "bytes ''disk0'' \<noteq> []" "distinct (map entry_key [([[97], [98]], 0, 5)])" by simp_all
  then obtain s where s: "boot_mounts registrations (bytes ''disk0'') [] (empty_vfs example_dm) = Some s"
    using boot_mounts_archive [OF example_dm_lookup(1) _ d example_archive] by blast
  show ?thesis
    using boot_resolves_devices [OF s example_dm_lookup(2)] s by (simp add: component_def example_dm_def)
qed

lemma walk_fresh:
  assumes "tar_tree dev r s" "r \<le> p" "p < length (pnodes s)" "n < length (vnodes s)" "vn_pn (vnodes s ! n) = Some p"
    "vn_children (vnodes s ! n) = kempty" "hwalk (map name_hash cs) p s = Some m"
  shows "\<exists>n' s'. walk cs n s = (Some n', s') \<and> vn_pn (vnodes s' ! n') = Some m \<and> pnodes s' = pnodes s"
  using assms
proof (induction cs arbitrary: n p s)
  case (Cons c cs)
  obtain x where x: "pnodes s ! p = TarNode dev x" using tar_treeD(1) [OF Cons.prems(1-3)] by blast
  obtain k where k: "kids s p (name_hash c) = Some k" "hwalk (map name_hash cs) k s = Some m" using Cons.prems(7) by (auto split: option.splits)
  have kr: "r \<le> k" "k < length (pnodes s)" using tar_treeD(2) [OF Cons.prems(1-3) k(1)] Cons.prems(2) by auto
  define s1 where "s1 = snd (get_child c n s)"
  have g: "get_child c n s = (Some (length (vnodes s)), s1)" "pnodes s1 = pnodes s" "length (vnodes s) < length (vnodes s1)"
    "vn_pn (vnodes s1 ! length (vnodes s)) = Some k" "vn_children (vnodes s1 ! length (vnodes s)) = kempty"
    using Cons.prems(4-6) x k(1)
    by (simp_all add: s1_def get_child_def pfs_get_child_def kids_def new_vnode_def upd_vnode_def nth_append)
  have kd: "kids s1 = kids s" using g(2) by (simp add: kids_def fun_eq_iff)
  then have hw: "hwalk hs q s1 = hwalk hs q s" for hs q by (induction hs arbitrary: q) (auto split: option.splits)
  have "tar_tree dev r s1" using Cons.prems(1) unfolding tar_tree_def kd g(2) .
  then obtain n' s' where "walk cs (length (vnodes s)) s1 = (Some n', s')" "vn_pn (vnodes s' ! n') = Some m" "pnodes s' = pnodes s1"
    using Cons.IH [of s1 k "length (vnodes s)"] kr g k(2) hw by auto
  then show ?case using g(1,2) by auto
qed auto

text \<open>
  C5. Booting from a device that holds an archive succeeds, and every file of the archive can then
  be opened by its path below \<^verbatim>\<open>/usr\<close>: the file has the size and the data of the archive.
\<close>

theorem boot_serves_files:
  assumes dev: "try_get_device_by_name bdev dm = Some b" "bdev \<noteq> []" "class_is (dev_class (device_table dm ! b)) BlockDeviceClass"
      "dev_block (device_table dm ! b) = Some dev"
    and ar: "archive dev 0 es" "distinct (map entry_key es)"
    and e: "(parts, k, z) \<in> set es" "parts \<noteq> []" "\<forall>c \<in> set parts. component c \<and> length c < 256"
  shows "\<exists>s s'. boot_mounts registrations bdev [] (empty_vfs dm) = Some s
    \<and> vfs_open (bytes ''/usr/'' @ join 47 parts) s
      = Some (Some (TarFile \<lparr>tf_dev = dev, tf_block = k + 1, tf_pos = (if z = 0 then - 1 else 0), tf_size = z\<rparr>), s')"
proof -
  obtain r s where s: "boot_mounts registrations bdev [] (empty_vfs dm) = Some s" "tar_tree dev r s" "r < length (pnodes s)"
    "\<forall>d \<in> set es. present r s d" "root_node s = 0"
    "vnodes s = (vnodes (boot_tree dm))[2 := \<lparr>vn_parent = Some 0, vn_pn = Some r, vn_children = kempty\<rparr>]"
    by (rule boot_mounts_archive [OF dev ar])
  have v: "vn_pn (vnodes s ! 0) = Some 1" "kget (vn_children (vnodes s ! 0)) (name_hash (bytes ''usr'')) = Some 2"
    "vn_pn (vnodes s ! 2) = Some r" "vn_children (vnodes s ! 2) = kempty" "2 < length (vnodes s)"
    using hash_dev_usr by (simp_all add: s(6) boot_tree_def Let_def)
  have u: "get_child (bytes ''usr'') 0 s = (Some 2, s)" using v(1,2) by (simp add: get_child_def)
  obtain m where m: "hwalk (map name_hash parts) r s = Some m" "payload s m = Some (True, k, z)" using s(4) e(1) by (force simp: present_def)
  obtain n s' where n: "walk parts 2 s = (Some n, s')" "vn_pn (vnodes s' ! n) = Some m" "pnodes s' = pnodes s"
    using walk_fresh [OF s(2) order_refl s(3) v(5,3,4) m(1)] by blast
  have "lookup_node (bytes ''/usr/'' @ join 47 parts) s = Some (Some n, s')"
    using lookup_node_join [of "[]" "bytes ''usr'' # parts" s] e(2,3) component_bytes u n(1) s(5) by (cases parts) (simp_all add: stops_def)
  moreover obtain x where "pnodes s ! m = TarNode dev x" "tn_is_file x" "tn_block x = k"
    using hwalk_range [OF s(2) order_refl s(3) m(1)] tar_treeD(1) [OF s(2), of m] m(2) by (auto simp: payload_def)
  moreover obtain blk where "blk_read dev (ucast k) 1 = Some blk" "header_size blk = Some z" using archive_header [OF ar(1) e(1)] by blast
  ultimately show ?thesis using s(1) n(2,3) by (simp add: vfs_open_def pfs_open_def tar_open_def)
qed

theorem boot_serves_files_witness:
  "\<exists>s s'. boot_mounts registrations (bytes ''disk0'') [] (empty_vfs example_dm) = Some s
    \<and> vfs_open (bytes ''/usr/a/b'') s = Some (Some (TarFile \<lparr>tf_dev = example_device, tf_block = 1, tf_pos = 0, tf_size = 5\<rparr>), s')"
proof -
  have "class_is (dev_class (device_table example_dm ! 1)) BlockDeviceClass" "dev_block (device_table example_dm ! 1) = Some example_device"
    by (simp_all add: example_dm_def BlockDeviceClass_def)
  then show ?thesis
    using boot_serves_files [OF example_dm_lookup(1) _ _ _ example_archive, of "[[97], [98]]" 0 5] by (simp add: component_def)
qed

theorem mkdir_then_lookup_witness:
  "\<exists>c q s1 q' s2. vfs_mkdir (bytes ''tmp'') 0 (boot_tree example_dm) = (Some c, s1) \<and> vn_pn (vnodes s1 ! c) = Some q
    \<and> vfs_mkdir (bytes ''tmp'') 0 s1 = (Some c, s2) \<and> vn_pn (vnodes s2 ! c) = Some q
    \<and> fst (pfs_get_child (bytes ''tmp'') 1 s2) = Some q' \<and> q' \<noteq> q"
proof -
  have "name_hash (bytes ''tmp'') \<noteq> name_hash (bytes ''dev'')" "name_hash (bytes ''tmp'') \<noteq> name_hash (bytes ''usr'')"
    by (simp_all add: name_hash_def)
  then show ?thesis using mkdir_then_lookup [of 0 "boot_tree example_dm" 1 "[]" _ "bytes ''tmp''"] by (auto simp: boot_tree_def Let_def)
qed

end
