(* ===== verification/Page_Alloc.thy ===== *)
theory Page_Alloc
  imports Machine_Addr
begin

text \<open>
  Physical pages: the page descriptor array and the operations of \<^verbatim>\<open>mm/page-allocator.cpp\<close> and
  its header, the algorithm of \<^verbatim>\<open>mm/simple-page-alloc.cpp\<close>, and the registration of physical
  memory in \<^verbatim>\<open>mm/mm.cpp\<close>.

  A pointer to a page descriptor is its index in the array, \<^verbatim>\<open>NULL\<close> is \<open>None\<close>. The algorithm
  behind \<^verbatim>\<open>PageAllocatorAlgorithm\<close> is a record of its virtual functions, of which the code has
  one implementation; the locale \<open>page_algorithm\<close> is the contract the page allocator relies on.
  The result of an operation is a fault or a value.
\<close>

datatype pgd_type = INVALID | RESERVED | AVAILABLE | ALLOCATED

record page_descriptor =
  next_free :: "nat option"
  prev_free :: "nat option"
  ptype :: pgd_type

type_synonym pgds = "page_descriptor list"

abbreviation types :: "pgds \<Rightarrow> pgd_type list" where
  "types \<equiv> map ptype"

text \<open>The virtual functions of \<^verbatim>\<open>PageAllocatorAlgorithm\<close>; \<open>'a\<close> is the state of the algorithm.\<close>

record 'a page_alg =
  alg_init :: "pgds \<Rightarrow> 'a option"
  alg_insert :: "nat option \<Rightarrow> nat \<Rightarrow> 'a \<times> pgds \<Rightarrow> 'a \<times> pgds"
  alg_remove :: "nat option \<Rightarrow> nat \<Rightarrow> 'a \<times> pgds \<Rightarrow> 'a \<times> pgds"
  alg_allocate :: "nat \<Rightarrow> 'a \<times> pgds \<Rightarrow> (nat option \<times> 'a \<times> pgds) outcome"
  alg_free :: "nat option \<Rightarrow> nat \<Rightarrow> 'a \<times> pgds \<Rightarrow> ('a \<times> pgds) outcome"

record 'a page_allocator =
  page_descriptors :: pgds
  alg_state :: 'a

definition nr_pages :: "'a page_allocator \<Rightarrow> nat" where
  "nr_pages pa = length (page_descriptors pa)"

text \<open>Reading and writing the type of a descriptor, with the bounds of the array.\<close>

definition set_type :: "nat \<Rightarrow> pgd_type \<Rightarrow> pgds \<Rightarrow> pgds outcome" where
  "set_type i t pds = (if i < length pds then Inr (pds[i := (pds ! i)\<lparr>ptype := t\<rparr>]) else Inl Out_of_bounds)"

text \<open>The loop \<^verbatim>\<open>for (pfn = start; pfn < start + n; pfn++) _page_descriptors[pfn].type = t;\<close>\<close>

fun set_types :: "nat \<Rightarrow> nat \<Rightarrow> pgd_type \<Rightarrow> pgds \<Rightarrow> pgds outcome" where
  "set_types start 0 t pds = Inr pds"
| "set_types start (Suc n) t pds =
     (case set_type start t pds of Inl f \<Rightarrow> Inl f | Inr pds \<Rightarrow> set_types (Suc start) n t pds)"

text \<open>
  The loop that checks the type of each of \<open>n\<close> descriptors and changes it, of \<^verbatim>\<open>alloc_pages\<close> and
  \<^verbatim>\<open>free_pages\<close>.
\<close>

fun convert :: "nat \<Rightarrow> nat \<Rightarrow> pgd_type \<Rightarrow> pgd_type \<Rightarrow> pgds \<Rightarrow> pgds outcome" where
  "convert pgd 0 from to pds = Inr pds"
| "convert pgd (Suc n) from to pds =
     (if length pds \<le> pgd then Inl Out_of_bounds
      else if ptype (pds ! pgd) \<noteq> from then Inl Assertion_failure
      else convert (Suc pgd) n from to (pds[pgd := (pds ! pgd)\<lparr>ptype := to\<rparr>]))"

definition alloc_pages :: "'a page_alg option \<Rightarrow> nat \<Rightarrow> 'a page_allocator \<Rightarrow> (nat option \<times> 'a page_allocator) outcome" where
  "alloc_pages algorithm order pa =
     (case algorithm of
        None \<Rightarrow> Inr (None, pa)
      | Some alg \<Rightarrow>
          (case alg_allocate alg order (alg_state pa, page_descriptors pa) of
             Inl f \<Rightarrow> Inl f
           | Inr (None, st, pds) \<Rightarrow> Inl Null_dereference
           | Inr (Some pgd, st, pds) \<Rightarrow>
               (case convert pgd (2 ^ order) AVAILABLE ALLOCATED pds of
                  Inl f \<Rightarrow> Inl f
                | Inr pds \<Rightarrow> Inr (Some pgd, \<lparr>page_descriptors = pds, alg_state = st\<rparr>))))"

definition free_pages :: "'a page_alg option \<Rightarrow> nat option \<Rightarrow> nat \<Rightarrow> 'a page_allocator \<Rightarrow> 'a page_allocator outcome" where
  "free_pages algorithm pgd order pa =
     (case algorithm of
        None \<Rightarrow> Inr pa
      | Some alg \<Rightarrow>
          (case alg_free alg pgd order (alg_state pa, page_descriptors pa) of
             Inl f \<Rightarrow> Inl f
           | Inr (st, pds) \<Rightarrow>
               (case pgd of
                  None \<Rightarrow> Inl Null_dereference
                | Some p \<Rightarrow>
                    (case convert p (2 ^ order) ALLOCATED AVAILABLE pds of
                       Inl f \<Rightarrow> Inl f
                     | Inr pds \<Rightarrow> Inr \<lparr>page_descriptors = pds, alg_state = st\<rparr>))))"

text \<open>Conversions between descriptors and addresses.\<close>

definition pgd_bytes :: u64 where
  "pgd_bytes = 32"

definition pgd_ptr :: "u64 \<Rightarrow> nat \<Rightarrow> u64" where
  "pgd_ptr base i = base + pgd_bytes * of_nat i"

definition pgd_to_pfn :: "u64 \<Rightarrow> u64 \<Rightarrow> pfn" where
  "pgd_to_pfn base pgd = (pgd - base) div pgd_bytes"

definition pgd_to_pa :: "u64 \<Rightarrow> u64 \<Rightarrow> phys_addr" where
  "pgd_to_pa base pgd = pfn_to_pa (pgd_to_pfn base pgd)"

definition pgd_to_vpa :: "u64 \<Rightarrow> u64 \<Rightarrow> virt_addr option" where
  "pgd_to_vpa base pgd = pa_to_vpa (pgd_to_pa base pgd)"

definition pgd_to_kva :: "u64 \<Rightarrow> u64 \<Rightarrow> virt_addr option" where
  "pgd_to_kva base pgd = pa_to_kva (pgd_to_pa base pgd)"

text \<open>The result 0 is \<^verbatim>\<open>NULL\<close>. The comparison is \<^verbatim>\<open>pfn > _nr_pages\<close>, as in the source.\<close>

definition pfn_to_pgd :: "u64 \<Rightarrow> u64 \<Rightarrow> pfn \<Rightarrow> u64" where
  "pfn_to_pgd base nr pfn = (if pfn > nr then 0 else base + pgd_bytes * pfn)"

definition vpa_to_pgd :: "u64 \<Rightarrow> u64 \<Rightarrow> virt_addr \<Rightarrow> u64 option" where
  "vpa_to_pgd base nr addr = do {
     pa \<leftarrow> vpa_to_pa addr;
     Some (pfn_to_pgd base nr (pa_to_pfn pa)) }"

subsection \<open>The simple algorithm\<close>

text \<open>
  The inner loop of \<^verbatim>\<open>allocate_pages\<close>: the first descriptor of the range that is not available,
  if there is one. The source does not compare the index with the size of the array.
\<close>

fun scan :: "pgds \<Rightarrow> nat \<Rightarrow> nat \<Rightarrow> nat option outcome" where
  "scan pds subidx 0 = Inr None"
| "scan pds subidx (Suc n) =
     (if length pds \<le> subidx then Inl Out_of_bounds
      else if ptype (pds ! subidx) \<noteq> AVAILABLE then Inr (Some subidx)
      else scan pds (Suc subidx) n)"

lemma scan_ge: "scan pds i n = Inr (Some j) \<Longrightarrow> i \<le> j"
  by (induction pds i n rule: scan.induct) (auto split: if_splits)

text \<open>The outer loop; when the inner loop fails at \<open>j\<close> the search goes on at \<open>j + 1\<close>.\<close>

function simple_search :: "pgds \<Rightarrow> nat \<Rightarrow> nat \<Rightarrow> nat option outcome" where
  "simple_search pds n idx =
     (if idx < length pds then
        (case scan pds idx n of
           Inl f \<Rightarrow> Inl f
         | Inr None \<Rightarrow> Inr (Some idx)
         | Inr (Some j) \<Rightarrow> simple_search pds n (Suc j))
      else Inr None)"
  by pat_completeness auto
termination
  by (relation "measure (\<lambda>(pds, n, idx). length pds - idx)") (auto dest: scan_ge)

definition simple_allocate :: "nat \<Rightarrow> unit \<times> pgds \<Rightarrow> (nat option \<times> unit \<times> pgds) outcome" where
  "simple_allocate order = (\<lambda>(st, pds).
     case simple_search pds (2 ^ order) 0 of Inl f \<Rightarrow> Inl f | Inr r \<Rightarrow> Inr (r, st, pds))"

fun check_allocated :: "pgds \<Rightarrow> nat \<Rightarrow> nat \<Rightarrow> unit outcome" where
  "check_allocated pds base 0 = Inr ()"
| "check_allocated pds base (Suc n) =
     (if length pds \<le> base then Inl Out_of_bounds
      else if ptype (pds ! base) \<noteq> ALLOCATED then Inl Assertion_failure
      else check_allocated pds (Suc base) n)"

definition simple_free :: "nat option \<Rightarrow> nat \<Rightarrow> unit \<times> pgds \<Rightarrow> (unit \<times> pgds) outcome" where
  "simple_free pgd order = (\<lambda>(st, pds).
     case pgd of
       None \<Rightarrow> Inl Null_dereference
     | Some base \<Rightarrow>
         (case check_allocated pds base (2 ^ order) of Inl f \<Rightarrow> Inl f | Inr _ \<Rightarrow> Inr (st, pds)))"

definition simple_alg :: "unit page_alg" where
  "simple_alg = \<lparr>alg_init = (\<lambda>pds. Some ()),
     alg_insert = (\<lambda>start count s. s), alg_remove = (\<lambda>start count s. s),
     alg_allocate = simple_allocate, alg_free = simple_free\<rparr>"

subsection \<open>Physical memory and initialisation\<close>

datatype mem_type = NORMAL | UNUSABLE

record phys_block =
  base_address :: phys_addr
  base_pfn :: pfn
  blk_pages :: u32
  blk_type :: mem_type

record mem_manager =
  last_pfn :: pfn
  phys_mem_blocks :: "phys_block list"

text \<open>\<^verbatim>\<open>nr_pages * _page_size\<close>: both operands are \<^verbatim>\<open>unsigned int\<close>, so the product has 32 bits.\<close>

definition block_bytes :: "u32 \<Rightarrow> u64" where
  "block_bytes nr = ucast (nr * 0x1000)"

definition add_physical_memory :: "phys_addr \<Rightarrow> u32 \<Rightarrow> mem_type \<Rightarrow> mem_manager \<Rightarrow> mem_manager" where
  "add_physical_memory addr nr type mm =
     (if nr = 0 then mm
      else if 16 \<le> length (phys_mem_blocks mm) then mm
      else
        let mm = mm\<lparr>phys_mem_blocks := phys_mem_blocks mm @
              [\<lparr>base_address = addr, base_pfn = drop_bit 12 addr, blk_pages = nr, blk_type = type\<rparr>]\<rparr>;
            lp = drop_bit 12 (addr + block_bytes nr) - 1
        in if type = NORMAL \<and> lp > last_pfn mm then mm\<lparr>last_pfn := lp\<rparr> else mm)"

definition lookup_phys_block :: "phys_addr \<Rightarrow> mem_manager \<Rightarrow> phys_block option" where
  "lookup_phys_block addr mm =
     find (\<lambda>b. addr \<ge> base_address b \<and> addr < base_address b + block_bytes (blk_pages b)) (phys_mem_blocks mm)"

definition zero_pgd :: page_descriptor where
  "zero_pgd = \<lparr>next_free = None, prev_free = None, ptype = INVALID\<rparr>"

text \<open>The descriptor array is placed at \<open>heap_start\<close> (a linker symbol); \<open>None\<close> is \<^verbatim>\<open>return false\<close>.\<close>

definition setup_page_descriptors :: "virt_addr \<Rightarrow> mem_manager \<Rightarrow> pgds option outcome" where
  "setup_page_descriptors heap_start mm =
     (case kva_to_pa heap_start of
        None \<Rightarrow> Inl Assertion_failure
      | Some pa \<Rightarrow>
          (case lookup_phys_block pa mm of
             None \<Rightarrow> Inr None
           | Some _ \<Rightarrow> Inr (Some (replicate (unat (last_pfn mm + 1)) zero_pgd))))"

fun mark_blocks :: "'a page_alg \<Rightarrow> phys_block list \<Rightarrow> 'a \<times> pgds \<Rightarrow> ('a \<times> pgds) outcome" where
  "mark_blocks alg [] s = Inr s"
| "mark_blocks alg (b # bs) (st, pds) =
     (if blk_type b = NORMAL then
        (case set_types (unat (base_pfn b)) (unat (blk_pages b)) AVAILABLE pds of
           Inl f \<Rightarrow> Inl f
         | Inr pds \<Rightarrow> mark_blocks alg bs (alg_insert alg (Some (unat (base_pfn b))) (unat (blk_pages b)) (st, pds)))
      else mark_blocks alg bs (st, pds))"

definition reserve_page_range :: "'a page_alg \<Rightarrow> nat \<Rightarrow> nat \<Rightarrow> 'a \<times> pgds \<Rightarrow> ('a \<times> pgds) outcome" where
  "reserve_page_range alg start n = (\<lambda>(st, pds).
     case set_types start n RESERVED pds of
       Inl f \<Rightarrow> Inl f
     | Inr pds \<Rightarrow> Inr (alg_remove alg (Some start) n (st, pds)))"

text \<open>
  The self test is a fixed sequence of calls of the algorithm; variables of the C++ function
  are numbers. The first allocation is checked for \<^verbatim>\<open>NULL\<close>, the others are not.
\<close>

datatype test_call = TAlloc nat nat | TFree nat nat | TRemove nat nat | TFreePfn nat nat

definition self_test_rest :: "test_call list" where
  "self_test_rest =
     [TFree 0 0, TAlloc 0 1, TFree 0 1,
      TAlloc 1 0, TAlloc 2 1, TFree 1 0, TAlloc 3 0, TFree 2 1, TFree 3 0,
      TAlloc 10 0, TAlloc 11 0, TAlloc 12 0, TAlloc 13 2, TAlloc 14 0, TAlloc 15 0, TAlloc 16 0, TAlloc 17 0,
      TFree 15 0, TFree 13 2, TFree 16 0, TFree 17 0, TFree 12 0, TFree 11 0, TFree 10 0, TFree 14 0,
      TRemove 0x4d80 1, TRemove 0x4d84 1, TFreePfn 0x4d84 0, TFreePfn 0x4d80 0]"

definition pgd_of_pfn :: "nat \<Rightarrow> nat \<Rightarrow> nat option" where
  "pgd_of_pfn nr pfn = (if pfn > nr then None else Some pfn)"

fun run_test :: "'a page_alg \<Rightarrow> test_call list \<Rightarrow> (nat \<Rightarrow> nat option) \<Rightarrow> 'a \<times> pgds \<Rightarrow> ('a \<times> pgds) outcome" where
  "run_test alg [] env s = Inr s"
| "run_test alg (TAlloc v order # cs) env s =
     (case alg_allocate alg order s of Inl f \<Rightarrow> Inl f | Inr (p, s) \<Rightarrow> run_test alg cs (env(v := p)) s)"
| "run_test alg (TFree v order # cs) env s =
     (case alg_free alg (env v) order s of Inl f \<Rightarrow> Inl f | Inr s \<Rightarrow> run_test alg cs env s)"
| "run_test alg (TRemove pfn n # cs) env s =
     run_test alg cs env (alg_remove alg (pgd_of_pfn (length (snd s)) pfn) n s)"
| "run_test alg (TFreePfn pfn order # cs) env s =
     (case alg_free alg (pgd_of_pfn (length (snd s)) pfn) order s of
        Inl f \<Rightarrow> Inl f
      | Inr s \<Rightarrow> run_test alg cs env s)"

definition self_test :: "'a page_alg \<Rightarrow> 'a \<times> pgds \<Rightarrow> (bool \<times> 'a \<times> pgds) outcome" where
  "self_test alg s =
     (case alg_allocate alg 0 s of
        Inl f \<Rightarrow> Inl f
      | Inr (None, s) \<Rightarrow> Inr (False, s)
      | Inr (Some p, s) \<Rightarrow>
          (case run_test alg self_test_rest [0 \<mapsto> p] s of Inl f \<Rightarrow> Inl f | Inr s \<Rightarrow> Inr (True, s)))"

text \<open>
  \<^verbatim>\<open>PageAllocator::init\<close>; \<open>image_start\<close> is the physical address of the kernel image, \<open>None\<close> is
  \<^verbatim>\<open>return false\<close>. A failing self test calls \<^verbatim>\<open>arch_abort\<close>, which does not return.
\<close>

definition reserved_ranges :: "phys_addr \<Rightarrow> nat \<Rightarrow> (nat \<times> nat) list" where
  "reserved_ranges image_start nr = [(0, 1), (1, 6), (unat (pa_to_pfn image_start), nr * 32 div 4096 + 1)]"

fun reserve_all :: "'a page_alg \<Rightarrow> (nat \<times> nat) list \<Rightarrow> 'a \<times> pgds \<Rightarrow> ('a \<times> pgds) outcome" where
  "reserve_all alg [] s = Inr s"
| "reserve_all alg ((start, n) # rs) s =
     (case reserve_page_range alg start n s of Inl f \<Rightarrow> Inl f | Inr s \<Rightarrow> reserve_all alg rs s)"

definition page_allocator_init :: "'a page_alg option \<Rightarrow> bool \<Rightarrow> virt_addr \<Rightarrow> phys_addr \<Rightarrow> mem_manager
    \<Rightarrow> 'a page_allocator option outcome" where
  "page_allocator_init algorithm do_self_test heap_start image_start mm =
     (case algorithm of
        None \<Rightarrow> Inr None
      | Some alg \<Rightarrow>
          (case setup_page_descriptors heap_start mm of
             Inl f \<Rightarrow> Inl f
           | Inr None \<Rightarrow> Inr None
           | Inr (Some pds) \<Rightarrow>
               (case alg_init alg pds of
                  None \<Rightarrow> Inr None
                | Some st \<Rightarrow>
                    (case mark_blocks alg (phys_mem_blocks mm) (st, pds) of
                       Inl f \<Rightarrow> Inl f
                     | Inr s \<Rightarrow>
                         (case reserve_all alg (reserved_ranges image_start (length pds)) s of
                            Inl f \<Rightarrow> Inl f
                          | Inr (st, pds) \<Rightarrow>
                              if do_self_test then
                                (case self_test alg (st, pds) of
                                   Inl f \<Rightarrow> Inl f
                                 | Inr (False, _) \<Rightarrow> Inl Never_returns
                                 | Inr (True, st, pds) \<Rightarrow> Inr (Some \<lparr>page_descriptors = pds, alg_state = st\<rparr>))
                              else Inr (Some \<lparr>page_descriptors = pds, alg_state = st\<rparr>))))))"

subsection \<open>Ranges of descriptors\<close>

definition all_type :: "pgds \<Rightarrow> nat \<Rightarrow> nat \<Rightarrow> pgd_type \<Rightarrow> bool" where
  "all_type pds p n t \<longleftrightarrow> p + n \<le> length pds \<and> (\<forall>i. p \<le> i \<longrightarrow> i < p + n \<longrightarrow> ptype (pds ! i) = t)"

definition mark :: "nat \<Rightarrow> nat \<Rightarrow> pgd_type \<Rightarrow> pgds \<Rightarrow> pgds" where
  "mark p n t pds = map (\<lambda>i. if p \<le> i \<and> i < p + n then (pds ! i)\<lparr>ptype := t\<rparr> else pds ! i) [0..<length pds]"

lemma length_mark [simp]: "length (mark p n t pds) = length pds"
  by (simp add: mark_def)

lemma nth_mark: "i < length pds \<Longrightarrow> mark p n t pds ! i = (if p \<le> i \<and> i < p + n then (pds ! i)\<lparr>ptype := t\<rparr> else pds ! i)"
  by (simp add: mark_def)

lemma mark_0 [simp]: "mark p 0 t pds = pds"
  by (rule nth_equalityI) (auto simp: nth_mark)

lemma mark_Suc: "p < length pds \<Longrightarrow> mark (Suc p) n t (pds[p := (pds ! p)\<lparr>ptype := t\<rparr>]) = mark p (Suc n) t pds"
  by (rule nth_equalityI) (auto simp: nth_mark nth_list_update not_less_eq_eq le_antisym)

lemma types_mark:
  "types (mark p n t pds) = map (\<lambda>i. if p \<le> i \<and> i < p + n then t else types pds ! i) [0..<length pds]"
  by (auto simp: mark_def)

lemma types_eq_iff: "types pds = types pds' \<longleftrightarrow>
  length pds = length pds' \<and> (\<forall>i < length pds. ptype (pds ! i) = ptype (pds' ! i))"
  by (auto simp: list_eq_iff_nth_eq)

lemma types_mark_cong: "types pds = types pds' \<Longrightarrow> types (mark p n t pds) = types (mark p n t pds')"
  by (simp add: types_eq_iff nth_mark)

lemma all_type_cong: "types pds = types pds' \<Longrightarrow> all_type pds p n t \<longleftrightarrow> all_type pds' p n t"
  by (auto simp: types_eq_iff all_type_def)

lemma all_range_Suc:
  "(\<forall>i. p \<le> i \<longrightarrow> i < p + Suc n \<longrightarrow> P i) \<longleftrightarrow> P p \<and> (\<forall>i. Suc p \<le> i \<longrightarrow> i < Suc p + n \<longrightarrow> P i)"
  (is "?L \<longleftrightarrow> ?R")
proof
  assume R: ?R
  show ?L
  proof (intro allI impI)
    fix i assume "p \<le> i" "i < p + Suc n"
    then show "P i" using R by (cases "i = p") auto
  qed
qed auto

lemma all_type_Suc: "all_type pds p (Suc n) t \<longleftrightarrow> p < length pds \<and> ptype (pds ! p) = t \<and> all_type pds (Suc p) n t"
  unfolding all_type_def all_range_Suc [of p n] by auto

lemma all_type_upd: "q < p \<Longrightarrow> all_type (pds[q := d]) p n t \<longleftrightarrow> all_type pds p n t"
  by (auto simp: all_type_def nth_list_update)

lemma convert_ok: "all_type pds p n from \<Longrightarrow> convert p n from to pds = Inr (mark p n to pds)"
  by (induction p n "from" "to" pds rule: convert.induct)
    (auto simp: all_type_Suc all_type_upd mark_Suc)

lemma convert_Inr: "0 < n \<Longrightarrow> convert p n from to pds = Inr pds' \<Longrightarrow> all_type pds p n from \<and> pds' = mark p n to pds"
proof (induction p n "from" "to" pds rule: convert.induct)
  case (2 pgd n "from" "to" pds)
  have s: "pgd < length pds" "ptype (pds ! pgd) = from"
    and c: "convert (Suc pgd) n from to (pds[pgd := (pds ! pgd)\<lparr>ptype := to\<rparr>]) = Inr pds'"
    using 2(3) by (auto split: if_splits)
  show ?case
  proof (cases "n = 0")
    case True
    then show ?thesis using c s mark_Suc [of pgd pds 0 to] by (simp add: all_type_def le_less_Suc_eq)
  next
    case False
    then have "all_type (pds[pgd := (pds ! pgd)\<lparr>ptype := to\<rparr>]) (Suc pgd) n from
      \<and> pds' = mark (Suc pgd) n to (pds[pgd := (pds ! pgd)\<lparr>ptype := to\<rparr>])"
      using 2(1) c s by simp
    then show ?thesis using s by (simp add: all_type_Suc all_type_upd mark_Suc)
  qed
qed simp

lemma set_types_ok: "start + n \<le> length pds \<Longrightarrow> set_types start n t pds = Inr (mark start n t pds)"
  by (induction start n t pds rule: set_types.induct) (auto simp: set_type_def mark_Suc)

lemma set_types_overrun: "0 < n \<Longrightarrow> length pds < start + n \<Longrightarrow> set_types start n t pds = Inl Out_of_bounds"
proof (induction start n t pds rule: set_types.induct)
  case (2 start n t pds)
  then show ?case by (cases "n = 0") (auto simp: set_type_def)
qed simp

subsection \<open>First fit\<close>

lemma scan_cases:
  "case scan pds i n of
     Inr None \<Rightarrow> n = 0 \<or> all_type pds i n AVAILABLE
   | Inr (Some j) \<Rightarrow> i \<le> j \<and> j < i + n \<and> j < length pds \<and> ptype (pds ! j) \<noteq> AVAILABLE
   | Inl f \<Rightarrow> f = Out_of_bounds \<and> 0 < n \<and> length pds < i + n
       \<and> (\<forall>k. i \<le> k \<longrightarrow> k < length pds \<longrightarrow> ptype (pds ! k) = AVAILABLE)"
proof (induction pds i n rule: scan.induct)
  case (2 pds i n)
  consider "length pds \<le> i" | "i < length pds" "ptype (pds ! i) \<noteq> AVAILABLE"
    | "i < length pds" "ptype (pds ! i) = AVAILABLE" by linarith
  then show ?case
  proof cases
    case 3
    have 0: "n = 0 \<Longrightarrow> all_type pds i (Suc n) AVAILABLE" using 3 by (auto simp: all_type_def le_less_Suc_eq)
    have all: "\<forall>k. i \<le> k \<longrightarrow> k < length pds \<longrightarrow> ptype (pds ! k) = AVAILABLE"
      if "\<forall>k. Suc i \<le> k \<longrightarrow> k < length pds \<longrightarrow> ptype (pds ! k) = AVAILABLE"
      using that 3(2) by (metis Suc_leI le_neq_implies_less)
    show ?thesis
    proof (cases "scan pds (Suc i) n")
      case (Inl f)
      then show ?thesis using 2 3 all by simp
    next
      case (Inr r)
      then show ?thesis using 2 3 0 by (cases r) (auto simp: all_type_Suc)
    qed
  qed auto
qed simp

lemma not_all_type_cover: "i \<le> j \<Longrightarrow> j < i + n \<Longrightarrow> ptype (pds ! j) \<noteq> t \<Longrightarrow> \<not> all_type pds i n t"
  by (auto simp: all_type_def)

declare simple_search.simps [simp del]

lemma simple_search_eval:
  "idx < length pds \<Longrightarrow> scan pds idx n = Inr None \<Longrightarrow> simple_search pds n idx = Inr (Some idx)"
  "idx < length pds \<Longrightarrow> scan pds idx n = Inr (Some j) \<Longrightarrow> simple_search pds n idx = simple_search pds n (Suc j)"
  "length pds \<le> idx \<Longrightarrow> simple_search pds n idx = Inr None"
  by (simp_all add: simple_search.simps [of pds n idx])

lemma simple_search_cases:
  assumes "0 < n"
  shows "case simple_search pds n idx of
     Inr (Some i) \<Rightarrow> idx \<le> i \<and> all_type pds i n AVAILABLE \<and> (\<forall>k. idx \<le> k \<longrightarrow> k < i \<longrightarrow> \<not> all_type pds k n AVAILABLE)
   | Inr None \<Rightarrow> (\<forall>k. idx \<le> k \<longrightarrow> \<not> all_type pds k n AVAILABLE)
   | Inl f \<Rightarrow> f = Out_of_bounds \<and> (\<forall>k. idx \<le> k \<longrightarrow> \<not> all_type pds k n AVAILABLE)
       \<and> pds \<noteq> [] \<and> ptype (last pds) = AVAILABLE"
  using assms
proof (induction pds n idx rule: simple_search.induct)
  case (1 pds n idx)
  note sc = scan_cases [where pds = pds and i = idx and n = n]
  consider (out) "length pds \<le> idx" | (oob) f where "idx < length pds" "scan pds idx n = Inl f"
    | (hit) "idx < length pds" "scan pds idx n = Inr None"
    | (miss) j where "idx < length pds" "scan pds idx n = Inr (Some j)"
    by (metis linorder_not_le option.exhaust sum.exhaust)
  then show ?case
  proof cases
    case out
    then show ?thesis using 1(2) by (auto simp: simple_search.simps [of pds n idx] all_type_def)
  next
    case oob
    then have "pds \<noteq> []" "idx \<le> length pds - 1" by auto
    then have "ptype (last pds) = AVAILABLE" using sc oob by (simp add: last_conv_nth)
    then show ?thesis using sc oob
      by (auto simp: simple_search.simps [of pds n idx] all_type_def)
  next
    case hit
    then show ?thesis using sc 1(2) by (simp add: simple_search.simps [of pds n idx])
  next
    case miss
    have j: "idx \<le> j" "j < idx + n" "ptype (pds ! j) \<noteq> AVAILABLE" using sc miss by auto
    have skip: "\<not> all_type pds k n AVAILABLE" if "idx \<le> k" "k \<le> j" for k
      using that j by (intro not_all_type_cover [of k j]) auto
    have eq: "simple_search pds n idx = simple_search pds n (Suc j)"
      using miss by (simp add: simple_search.simps [of pds n idx])
    have ext: "\<not> all_type pds k n AVAILABLE" if "idx \<le> k" "Suc j \<le> k \<Longrightarrow> \<not> all_type pds k n AVAILABLE" for k
      using skip that by (cases "k \<le> j") auto
    show ?thesis using 1(1) [OF miss(1) miss(2) refl 1(2)] j(1) ext unfolding eq
      by (auto split: sum.splits option.splits)
  qed
qed

subsection \<open>The contract of an allocation algorithm\<close>

text \<open>
  What the page allocator relies on: a block the algorithm returns lies in the array and is
  available, the algorithm leaves the types of the pages to the page allocator, it does not fail
  an assertion, and it accepts the return of a block whose pages are allocated.
\<close>

locale page_algorithm =
  fixes alg :: "'a page_alg" and good :: "'a \<Rightarrow> pgds \<Rightarrow> bool"
  assumes allocate_block: "good st pds \<Longrightarrow> alg_allocate alg order (st, pds) = Inr (Some p, st', pds') \<Longrightarrow>
      all_type pds p (2 ^ order) AVAILABLE \<and> types pds' = types pds
      \<and> good st' (mark p (2 ^ order) ALLOCATED pds')"
    and allocate_fault: "good st pds \<Longrightarrow> alg_allocate alg order (st, pds) \<noteq> Inl Assertion_failure"
    and free_block: "good st pds \<Longrightarrow> all_type pds p (2 ^ order) ALLOCATED \<Longrightarrow>
      \<exists>st' pds'. alg_free alg (Some p) order (st, pds) = Inr (st', pds') \<and> types pds' = types pds
      \<and> good st' (mark p (2 ^ order) AVAILABLE pds')"
begin

lemma alloc_pages_block:
  assumes "good (alg_state pa) (page_descriptors pa)" "alloc_pages (Some alg) order pa = Inr (r, pa')"
  shows "\<exists>p. r = Some p \<and> all_type (page_descriptors pa) p (2 ^ order) AVAILABLE
    \<and> types (page_descriptors pa') = types (mark p (2 ^ order) ALLOCATED (page_descriptors pa))
    \<and> good (alg_state pa') (page_descriptors pa')"
proof -
  from assms(2) obtain p st pds where a: "alg_allocate alg order (alg_state pa, page_descriptors pa) = Inr (Some p, st, pds)"
    and r: "r = Some p" and c: "convert p (2 ^ order) AVAILABLE ALLOCATED pds = Inr (page_descriptors pa')" "alg_state pa' = st"
    by (auto simp: alloc_pages_def split: sum.splits option.splits)
  note b = allocate_block [OF assms(1) a]
  have "page_descriptors pa' = mark p (2 ^ order) ALLOCATED pds" using convert_Inr [OF _ c(1)] by simp
  then show ?thesis using b r c(2) by (auto intro: types_mark_cong)
qed

lemma alloc_pages_no_assert:
  assumes "good (alg_state pa) (page_descriptors pa)"
  shows "alloc_pages (Some alg) order pa \<noteq> Inl Assertion_failure"
proof (cases "alg_allocate alg order (alg_state pa, page_descriptors pa)")
  case (Inl f)
  then show ?thesis using allocate_fault [OF assms, of order] by (auto simp: alloc_pages_def)
next
  case (Inr x)
  obtain r st pds where x: "x = (r, st, pds)" by (cases x)
  show ?thesis
  proof (cases r)
    case (Some p)
    then have "all_type pds p (2 ^ order) AVAILABLE"
      using allocate_block [OF assms] Inr x all_type_cong by blast
    then show ?thesis using Inr x Some by (simp add: alloc_pages_def convert_ok)
  qed (use Inr x in \<open>simp add: alloc_pages_def\<close>)
qed

lemma free_pages_block:
  assumes "good (alg_state pa) (page_descriptors pa)" "all_type (page_descriptors pa) p (2 ^ order) ALLOCATED"
  shows "\<exists>pa'. free_pages (Some alg) (Some p) order pa = Inr pa'
    \<and> types (page_descriptors pa') = types (mark p (2 ^ order) AVAILABLE (page_descriptors pa))
    \<and> good (alg_state pa') (page_descriptors pa')"
proof -
  obtain st pds where f: "alg_free alg (Some p) order (alg_state pa, page_descriptors pa) = Inr (st, pds)"
    "types pds = types (page_descriptors pa)" "good st (mark p (2 ^ order) AVAILABLE pds)"
    using free_block [OF assms] by blast
  have "all_type pds p (2 ^ order) ALLOCATED" using assms(2) all_type_cong f(2) by blast
  then show ?thesis using f by (auto simp: free_pages_def convert_ok intro: types_mark_cong)
qed

end

subsection \<open>Live blocks\<close>

text \<open>
  Clients of the page allocator: the blocks (first page and order) that were allocated and not
  yet freed. A step allocates a block or frees a live one.
\<close>

inductive page_step :: "'a page_alg \<Rightarrow> 'a page_allocator \<times> (nat \<times> nat) list
    \<Rightarrow> 'a page_allocator \<times> (nat \<times> nat) list \<Rightarrow> bool" for alg where
  alloc: "alloc_pages (Some alg) order pa = Inr (Some p, pa') \<Longrightarrow> page_step alg (pa, bs) (pa', (p, order) # bs)"
| free: "free_pages (Some alg) (Some p) order pa = Inr pa' \<Longrightarrow>
    page_step alg (pa, bs @ (p, order) # cs) (pa', bs @ cs)"

definition block_pages :: "nat \<times> nat \<Rightarrow> nat set" where
  "block_pages b = {fst b ..< fst b + 2 ^ snd b}"

text \<open>
  The invariant of the allocator, relative to the state \<open>pds0\<close> in which no block is live: the
  live blocks are disjoint and were available, and a page is allocated exactly when it is in a
  live block.
\<close>

definition blocks_inv :: "pgds \<Rightarrow> pgds \<Rightarrow> (nat \<times> nat) list \<Rightarrow> bool" where
  "blocks_inv pds0 pds bs \<longleftrightarrow> length pds = length pds0
     \<and> sorted_wrt (\<lambda>b c. block_pages b \<inter> block_pages c = {}) bs
     \<and> (\<forall>b \<in> set bs. all_type pds0 (fst b) (2 ^ snd b) AVAILABLE)
     \<and> (\<forall>i < length pds0. ptype (pds ! i) =
          (if i \<in> \<Union> (block_pages ` set bs) then ALLOCATED else ptype (pds0 ! i)))"

lemma all_type_block: "all_type pds p (2 ^ k) t \<longleftrightarrow> p + 2 ^ k \<le> length pds \<and> (\<forall>i \<in> block_pages (p, k). ptype (pds ! i) = t)"
  by (auto simp: all_type_def block_pages_def)

lemma blocks_inv_alloc:
  assumes inv: "blocks_inv pds0 pds bs" and a: "all_type pds p (2 ^ k) AVAILABLE"
    and t: "types pds' = types (mark p (2 ^ k) ALLOCATED pds)"
  shows "blocks_inv pds0 pds' ((p, k) # bs)"
proof -
  have len: "length pds' = length pds0" "length pds = length pds0"
    using inv map_eq_imp_length_eq [OF t] by (auto simp: blocks_inv_def)
  have new: "i < length pds0" "i \<notin> \<Union> (block_pages ` set bs)" "ptype (pds0 ! i) = AVAILABLE" if i: "i \<in> block_pages (p, k)" for i
  proof -
    have av: "ptype (pds ! i) = AVAILABLE" and "p + 2 ^ k \<le> length pds" using a i by (auto simp: all_type_block)
    then show lt: "i < length pds0" using i len(2) by (simp add: block_pages_def)
    have "ptype (pds ! i) = (if i \<in> \<Union> (block_pages ` set bs) then ALLOCATED else ptype (pds0 ! i))"
      using inv lt by (simp add: blocks_inv_def)
    then show "i \<notin> \<Union> (block_pages ` set bs)" "ptype (pds0 ! i) = AVAILABLE" using av
      by (auto split: if_splits)
  qed
  have "ptype (pds' ! i) = (if i \<in> block_pages (p, k) then ALLOCATED else ptype (pds ! i))" if "i < length pds0" for i
    using t that len by (auto simp: types_eq_iff nth_mark block_pages_def)
  moreover have "all_type pds0 p (2 ^ k) AVAILABLE" using a new(3) len by (auto simp: all_type_block)
  moreover have "\<forall>c \<in> set bs. block_pages (p, k) \<inter> block_pages c = {}" using new(2) by blast
  ultimately show ?thesis using inv len by (simp add: blocks_inv_def)
qed

lemma blocks_inv_live:
  assumes "blocks_inv pds0 pds bs" "(p, k) \<in> set bs"
  shows "all_type pds p (2 ^ k) ALLOCATED"
proof -
  have b: "p + 2 ^ k \<le> length pds0" "length pds = length pds0"
    using assms by (force simp: blocks_inv_def all_type_def)+
  have "ptype (pds ! i) = ALLOCATED" if "i \<in> block_pages (p, k)" for i
  proof -
    have "i < length pds0" using that b(1) by (simp add: block_pages_def)
    then show ?thesis using assms that by (auto simp: blocks_inv_def)
  qed
  then show ?thesis using b by (simp add: all_type_block)
qed

lemma blocks_inv_free:
  assumes inv: "blocks_inv pds0 pds (bs @ (p, k) # cs)"
    and t: "types pds' = types (mark p (2 ^ k) AVAILABLE pds)"
  shows "blocks_inv pds0 pds' (bs @ cs)"
proof -
  have len: "length pds' = length pds0" "length pds = length pds0"
    using inv map_eq_imp_length_eq [OF t] by (auto simp: blocks_inv_def)
  have dis: "block_pages b \<inter> block_pages (p, k) = {}" if "b \<in> set (bs @ cs)" for b
    using inv that by (auto simp: blocks_inv_def sorted_wrt_append)
  have ty: "ptype (pds' ! i) = (if i \<in> block_pages (p, k) then AVAILABLE else ptype (pds ! i))" if "i < length pds0" for i
    using t that len by (auto simp: types_eq_iff nth_mark block_pages_def)
  have av: "ptype (pds0 ! i) = AVAILABLE" if "i \<in> block_pages (p, k)" for i
    using inv that by (auto simp: blocks_inv_def all_type_block)
  let ?L = "\<Union> (block_pages ` set (bs @ cs))"
  have "ptype (pds' ! i) = (if i \<in> ?L then ALLOCATED else ptype (pds0 ! i))" if i: "i < length pds0" for i
  proof -
    have "ptype (pds ! i) = (if i \<in> ?L \<or> i \<in> block_pages (p, k) then ALLOCATED else ptype (pds0 ! i))"
      using inv i unfolding blocks_inv_def by auto
    moreover have "i \<notin> ?L" if "i \<in> block_pages (p, k)" using dis that by blast
    ultimately show ?thesis using ty [OF i] av by (cases "i \<in> block_pages (p, k)") simp_all
  qed
  then show ?thesis using inv len unfolding blocks_inv_def by (simp add: sorted_wrt_append)
qed

context page_algorithm
begin

lemma step_keeps:
  assumes "page_step alg s s'" "blocks_inv pds0 (page_descriptors (fst s)) (snd s)"
    "good (alg_state (fst s)) (page_descriptors (fst s))"
  shows "blocks_inv pds0 (page_descriptors (fst s')) (snd s')
    \<and> good (alg_state (fst s')) (page_descriptors (fst s'))"
  using assms
proof (cases rule: page_step.cases)
  case (alloc order pa p pa' bs)
  then show ?thesis using alloc_pages_block [of pa order "Some p" pa'] assms(2,3)
      blocks_inv_alloc [of pds0 "page_descriptors pa" bs p order "page_descriptors pa'"] by auto
next
  case (free p order pa pa' bs cs)
  then have "all_type (page_descriptors pa) p (2 ^ order) ALLOCATED"
    using assms(2) by (auto intro: blocks_inv_live)
  then show ?thesis using free free_pages_block [of pa p order] assms(2,3)
      blocks_inv_free [of pds0 "page_descriptors pa" bs p order cs "page_descriptors pa'"] by auto
qed

lemma reachable_inv:
  assumes "(page_step alg)\<^sup>*\<^sup>* (pa0, []) (pa, bs)" "good (alg_state pa0) (page_descriptors pa0)"
  shows "blocks_inv (page_descriptors pa0) (page_descriptors pa) bs \<and> good (alg_state pa) (page_descriptors pa)"
  using assms(1)
proof (induction "(pa, bs)" arbitrary: pa bs rule: rtranclp_induct)
  case base
  then show ?case using assms(2) by (simp add: blocks_inv_def)
next
  case (step s)
  obtain pa1 bs1 where s: "s = (pa1, bs1)" by (cases s)
  then show ?case using step_keeps [OF step(2), of "page_descriptors pa0"] step(3) [OF s] by simp
qed

end

lemma simple_allocate_cases:
  "simple_allocate order (st, pds) =
    (case simple_search pds (2 ^ order) 0 of Inl f \<Rightarrow> Inl f | Inr r \<Rightarrow> Inr (r, (), pds))"
  by (simp add: simple_allocate_def)

lemma check_allocated_ok: "all_type pds p n ALLOCATED \<Longrightarrow> check_allocated pds p n = Inr ()"
  by (induction pds p n rule: check_allocated.induct) (auto simp: all_type_Suc)

interpretation simple: page_algorithm simple_alg "\<lambda>st pds. True"
proof
  fix st :: unit and pds p st' pds' and order :: nat
  note s = simple_search_cases [where n = "2 ^ order" and pds = pds and idx = 0]
  show "alg_allocate simple_alg order (st, pds) = Inr (Some p, st', pds') \<Longrightarrow>
    all_type pds p (2 ^ order) AVAILABLE \<and> types pds' = types pds \<and> True"
    using s by (auto simp: simple_alg_def simple_allocate_cases split: sum.splits)
  show "alg_allocate simple_alg order (st, pds) \<noteq> Inl Assertion_failure"
    using s by (auto simp: simple_alg_def simple_allocate_cases split: sum.splits)
  show "all_type pds p (2 ^ order) ALLOCATED \<Longrightarrow>
    \<exists>st' pds'. alg_free simple_alg (Some p) order (st, pds) = Inr (st', pds') \<and> types pds' = types pds \<and> True"
    by (simp add: simple_alg_def simple_free_def check_allocated_ok)
qed

subsection \<open>Initialisation\<close>

definition in_normal_block :: "mem_manager \<Rightarrow> nat \<Rightarrow> bool" where
  "in_normal_block mm i \<longleftrightarrow> (\<exists>b \<in> set (phys_mem_blocks mm). blk_type b = NORMAL
     \<and> unat (base_pfn b) \<le> i \<and> i < unat (base_pfn b) + unat (blk_pages b))"

definition in_ranges :: "(nat \<times> nat) list \<Rightarrow> nat \<Rightarrow> bool" where
  "in_ranges rs i \<longleftrightarrow> (\<exists>(start, n) \<in> set rs. start \<le> i \<and> i < start + n)"

text \<open>Every normal block lies below the last page frame.\<close>

definition blocks_fit :: "mem_manager \<Rightarrow> bool" where
  "blocks_fit mm \<longleftrightarrow> unat (last_pfn mm) < 2 ^ 52 \<and> (\<forall>b \<in> set (phys_mem_blocks mm). blk_type b = NORMAL \<longrightarrow>
     unat (base_pfn b) + unat (blk_pages b) \<le> unat (last_pfn mm) + 1)"

lemma mark_blocks_simple:
  assumes "\<forall>b \<in> set bs. blk_type b = NORMAL \<longrightarrow> unat (base_pfn b) + unat (blk_pages b) \<le> length pds"
  shows "\<exists>pds'. mark_blocks simple_alg bs (st, pds) = Inr (st, pds') \<and> length pds' = length pds
    \<and> (\<forall>i < length pds. ptype (pds' ! i) =
        (if \<exists>b \<in> set bs. blk_type b = NORMAL \<and> unat (base_pfn b) \<le> i \<and> i < unat (base_pfn b) + unat (blk_pages b)
         then AVAILABLE else ptype (pds ! i)))"
  using assms
proof (induction bs arbitrary: pds)
  case (Cons b bs)
  show ?case
  proof (cases "blk_type b = NORMAL")
    case True
    let ?m = "mark (unat (base_pfn b)) (unat (blk_pages b)) AVAILABLE pds"
    have "set_types (unat (base_pfn b)) (unat (blk_pages b)) AVAILABLE pds = Inr ?m"
      using Cons.prems True by (simp add: set_types_ok)
    moreover obtain pds' where "mark_blocks simple_alg bs (st, ?m) = Inr (st, pds')" "length pds' = length pds"
      "\<forall>i < length pds. ptype (pds' ! i) =
        (if \<exists>b \<in> set bs. blk_type b = NORMAL \<and> unat (base_pfn b) \<le> i \<and> i < unat (base_pfn b) + unat (blk_pages b)
         then AVAILABLE else ptype (?m ! i))"
      using Cons.IH [of ?m] Cons.prems by auto
    ultimately show ?thesis using True
      by (intro exI [of _ pds']) (auto simp: simple_alg_def nth_mark)
  qed (use Cons in auto)
qed simp

lemma reserve_all_simple:
  assumes "\<forall>(start, n) \<in> set rs. start + n \<le> length pds"
  shows "\<exists>pds'. reserve_all simple_alg rs (st, pds) = Inr (st, pds') \<and> length pds' = length pds
    \<and> (\<forall>i < length pds. ptype (pds' ! i) = (if in_ranges rs i then RESERVED else ptype (pds ! i)))"
  using assms
proof (induction rs arbitrary: pds)
  case (Cons r rs)
  obtain start n where r: "r = (start, n)" by (cases r)
  let ?m = "mark start n RESERVED pds"
  have "set_types start n RESERVED pds = Inr ?m" using Cons.prems r by (simp add: set_types_ok)
  moreover obtain pds' where "reserve_all simple_alg rs (st, ?m) = Inr (st, pds')" "length pds' = length pds"
    "\<forall>i < length pds. ptype (pds' ! i) = (if in_ranges rs i then RESERVED else ptype (?m ! i))"
    using Cons.IH [of ?m] Cons.prems by auto
  ultimately show ?case using r
    by (intro exI [of _ pds']) (auto simp: simple_alg_def reserve_page_range_def nth_mark in_ranges_def)
qed (simp add: in_ranges_def)

lemma block_bytes_small: "unat nr < 2 ^ 20 \<Longrightarrow> unat (block_bytes nr) = unat nr * 4096"
proof -
  assume "unat nr < 2 ^ 20"
  then have m: "unat (nr * 4096 :: u32) = unat nr * 4096" by (simp add: unat_word_ariths)
  then have "unat (nr * 4096 :: u32) < 2 ^ 64" using \<open>unat nr < 2 ^ 20\<close> by simp
  then show ?thesis using m by (simp add: block_bytes_def unsigned_ucast_eq take_bit_nat_eq_self)
qed

lemma add_physical_memory_fits [infos_inv]:
  assumes "blocks_fit mm" "unat nr < 2 ^ 20" "4096 dvd unat addr" "unat addr + unat nr * 4096 < 2 ^ 64"
  shows "blocks_fit (add_physical_memory addr nr type mm)"
proof (cases "nr = 0 \<or> 16 \<le> length (phys_mem_blocks mm)")
  case False
  let ?lp = "drop_bit 12 (addr + block_bytes nr) - 1"
  have sum: "unat (addr + block_bytes nr) = unat addr + unat nr * 4096"
    using assms by (subst unat_add_small) (simp_all add: block_bytes_small)
  have base: "unat (drop_bit 12 addr) = unat addr div 4096" by (simp add: drop_bit_eq_div unat_div_distrib)
  have "unat (drop_bit 12 (addr + block_bytes nr)) = unat addr div 4096 + unat nr"
    using sum assms(3) by (simp add: drop_bit_eq_div unat_div_distrib)
  moreover have "unat nr \<noteq> 0" using False by (simp add: unat_eq_0)
  ultimately have lp: "unat ?lp + 1 = unat (drop_bit 12 addr) + unat nr"
    using base by (subst unat_minus_one) auto
  have "unat ?lp < 2 ^ 52"
    using lp base sum assms(3,4) by auto
  then show ?thesis using assms(1) False lp
    by (auto simp: add_physical_memory_def blocks_fit_def Let_def word_less_nat_alt word_le_nat_alt not_less)
qed (use assms(1) in \<open>auto simp: add_physical_memory_def\<close>)

text \<open>The memory regions the platform reports, registered one after the other.\<close>

definition register_memory :: "(phys_addr \<times> u32 \<times> mem_type) list \<Rightarrow> mem_manager" where
  "register_memory regions =
     fold (\<lambda>(a, n, t). add_physical_memory a n t) regions \<lparr>last_pfn = 0, phys_mem_blocks = []\<rparr>"

fun region_ok :: "phys_addr \<times> u32 \<times> mem_type \<Rightarrow> bool" where
  "region_ok (a, n, t) \<longleftrightarrow> unat n < 2 ^ 20 \<and> 4096 dvd unat a \<and> unat a + unat n * 4096 < 2 ^ 64"

lemma register_memory_fits: "list_all region_ok regions \<Longrightarrow> blocks_fit (register_memory regions)"
proof -
  have "blocks_fit mm \<Longrightarrow> list_all region_ok regions \<Longrightarrow>
    blocks_fit (fold (\<lambda>(a, n, t). add_physical_memory a n t) regions mm)" for mm
    by (induction regions arbitrary: mm) (auto simp: add_physical_memory_fits)
  then show "list_all region_ok regions \<Longrightarrow> ?thesis" by (simp add: register_memory_def blocks_fit_def)
qed

lemma page_allocator_init_types:
  assumes fit: "blocks_fit mm" and heap: "kva_to_pa heap_start = Some pa" "lookup_phys_block pa mm = Some b"
    and res: "\<forall>(start, n) \<in> set (reserved_ranges image_start (unat (last_pfn mm) + 1)). start + n \<le> unat (last_pfn mm) + 1"
  shows "\<exists>pa. page_allocator_init (Some simple_alg) False heap_start image_start mm = Inr (Some pa)
    \<and> nr_pages pa = unat (last_pfn mm) + 1
    \<and> (\<forall>i < nr_pages pa. ptype (page_descriptors pa ! i) =
        (if in_ranges (reserved_ranges image_start (nr_pages pa)) i then RESERVED
         else if in_normal_block mm i then AVAILABLE else INVALID))"
proof -
  let ?n = "unat (last_pfn mm) + 1" and ?pds = "replicate (unat (last_pfn mm) + 1) zero_pgd"
  have n: "unat (last_pfn mm + 1) = ?n" using fit by (subst unat_add_small) (auto simp: blocks_fit_def)
  have len: "length ?pds = ?n" by (rule length_replicate)
  have z: "ptype (?pds ! i) = INVALID" if "i < ?n" for i
    unfolding nth_replicate [OF that] by (simp add: zero_pgd_def)
  have "\<forall>b \<in> set (phys_mem_blocks mm). blk_type b = NORMAL \<longrightarrow> unat (base_pfn b) + unat (blk_pages b) \<le> length ?pds"
    unfolding len using fit by (simp add: blocks_fit_def)
  from mark_blocks_simple [OF this, of "()"] obtain p1 where
    p1: "mark_blocks simple_alg (phys_mem_blocks mm) ((), ?pds) = Inr ((), p1)" "length p1 = ?n"
      "\<forall>i < ?n. ptype (p1 ! i) = (if in_normal_block mm i then AVAILABLE else ptype (?pds ! i))"
    unfolding len in_normal_block_def by blast
  obtain p2 where p2: "reserve_all simple_alg (reserved_ranges image_start ?n) ((), p1) = Inr ((), p2)" "length p2 = ?n"
    "\<forall>i < ?n. ptype (p2 ! i) = (if in_ranges (reserved_ranges image_start ?n) i then RESERVED else ptype (p1 ! i))"
    using reserve_all_simple [of "reserved_ranges image_start ?n" p1 "()"] res p1(2) by auto
  have "setup_page_descriptors heap_start mm = Inr (Some ?pds)"
    using heap n by (simp add: setup_page_descriptors_def del: replicate.simps)
  then have "page_allocator_init (Some simple_alg) False heap_start image_start mm
      = Inr (Some \<lparr>page_descriptors = p2, alg_state = ()\<rparr>)"
    using p1(1) p2(1) len by (simp add: page_allocator_init_def simple_alg_def del: replicate.simps)
  then show ?thesis using p1(3) p2(2,3) z by (auto simp: nr_pages_def)
qed

subsection \<open>Properties\<close>

abbreviation page :: "pgd_type \<Rightarrow> page_descriptor" where
  "page t \<equiv> \<lparr>next_free = None, prev_free = None, ptype = t\<rparr>"

text \<open>
  C4. Live blocks never overlap: whatever sequence of allocations and of frees of live blocks the
  kernel performs with the simple algorithm, the live blocks are pairwise disjoint, consist of
  pages that were available at the start, and a page is marked allocated exactly when it is in
  a live block (every other page keeps its type, so reserved pages are never handed out); and
  freeing any live block succeeds.
\<close>

theorem live_blocks_exclusive:
  assumes "(page_step simple_alg)\<^sup>*\<^sup>* (pa0, []) (pa, bs)"
  shows "blocks_inv (page_descriptors pa0) (page_descriptors pa) bs
    \<and> list_all (\<lambda>(p, k). \<exists>pa'. free_pages (Some simple_alg) (Some p) k pa = Inr pa') bs"
proof -
  have inv: "blocks_inv (page_descriptors pa0) (page_descriptors pa) bs"
    using simple.reachable_inv [OF assms] by simp
  then have "\<exists>pa'. free_pages (Some simple_alg) (Some p) k pa = Inr pa'" if "(p, k) \<in> set bs" for p k
    using blocks_inv_live [OF inv that] simple.free_pages_block [of pa p k] by auto
  then show ?thesis using inv by (auto simp: list_all_iff)
qed

theorem live_blocks_exclusive_witness:
  "\<exists>pa. (page_step simple_alg)\<^sup>*\<^sup>*
      (\<lparr>page_descriptors = map page [RESERVED, AVAILABLE, AVAILABLE], alg_state = ()\<rparr>, []) (pa, [(2, 0), (1, 0)])
    \<and> blocks_inv (map page [RESERVED, AVAILABLE, AVAILABLE]) (page_descriptors pa) [(2, 0), (1, 0)]
    \<and> types (page_descriptors pa) = [RESERVED, ALLOCATED, ALLOCATED]"
proof -
  let ?pa0 = "\<lparr>page_descriptors = map page [RESERVED, AVAILABLE, AVAILABLE], alg_state = ()\<rparr>"
  let ?pa1 = "\<lparr>page_descriptors = map page [RESERVED, ALLOCATED, AVAILABLE], alg_state = ()\<rparr>"
  let ?pa2 = "\<lparr>page_descriptors = map page [RESERVED, ALLOCATED, ALLOCATED], alg_state = ()\<rparr>"
  have a: "alloc_pages (Some simple_alg) 0 ?pa0 = Inr (Some 1, ?pa1)" "alloc_pages (Some simple_alg) 0 ?pa1 = Inr (Some 2, ?pa2)"
    by (simp_all add: alloc_pages_def simple_alg_def simple_allocate_def simple_search_eval numeral_2_eq_2)
  have "(page_step simple_alg)\<^sup>*\<^sup>* (?pa0, []) (?pa2, [(2, 0), (1, 0)])"
    using page_step.alloc [OF a(1)] page_step.alloc [OF a(2)]
    by (rule rtranclp.rtrancl_into_rtrancl [OF r_into_rtranclp])
  from live_blocks_exclusive [OF this] this show ?thesis by (intro exI [of _ ?pa2]) simp
qed

text \<open>
  The simple algorithm is first fit: a block it returns is the lowest block of the wanted size
  all of whose pages are available; \<^verbatim>\<open>NULL\<close> means that there is no such block. The only other
  outcome is an access beyond the end of the descriptor array, which happens only when there is
  no such block and the last page of the array is available.
\<close>

theorem simple_first_fit:
  "case alg_allocate simple_alg order ((), pds) of
     Inr (Some p, _, pds') \<Rightarrow> pds' = pds \<and> all_type pds p (2 ^ order) AVAILABLE
       \<and> (\<forall>k < p. \<not> all_type pds k (2 ^ order) AVAILABLE)
   | Inr (None, _, pds') \<Rightarrow> pds' = pds \<and> (\<nexists>k. all_type pds k (2 ^ order) AVAILABLE)
   | Inl f \<Rightarrow> f = Out_of_bounds \<and> (\<nexists>k. all_type pds k (2 ^ order) AVAILABLE) \<and> pds \<noteq> [] \<and> ptype (last pds) = AVAILABLE"
  using simple_search_cases [where n = "2 ^ order" and pds = pds and idx = 0]
  by (auto simp: simple_alg_def simple_allocate_cases split: sum.splits option.splits)

theorem simple_first_fit_witness:
  "alg_allocate simple_alg 1 ((), map page [RESERVED, AVAILABLE, RESERVED, AVAILABLE, AVAILABLE]) =
     Inr (Some 3, (), map page [RESERVED, AVAILABLE, RESERVED, AVAILABLE, AVAILABLE])
   \<and> \<not> all_type (map page [RESERVED, AVAILABLE, RESERVED, AVAILABLE, AVAILABLE]) 2 2 AVAILABLE"
proof -
  have "alg_allocate simple_alg 1 ((), map page [RESERVED, AVAILABLE, RESERVED, AVAILABLE, AVAILABLE]) =
     Inr (Some 3, (), map page [RESERVED, AVAILABLE, RESERVED, AVAILABLE, AVAILABLE])"
    by (simp add: simple_alg_def simple_allocate_def simple_search_eval eval_nat_numeral)
  then show ?thesis
    using simple_first_fit [where order = 1 and pds = "map page [RESERVED, AVAILABLE, RESERVED, AVAILABLE, AVAILABLE]"] by simp
qed

text \<open>
  C27. \<^verbatim>\<open>alloc_pages\<close> with the simple algorithm returns a block of available pages or stops the
  kernel: it never returns \<^verbatim>\<open>NULL\<close>, since when there is no free block of the wanted size it
  dereferences the null pointer it got (or has already read beyond the descriptor array). It
  never fails the assertion that the pages it got are available.
\<close>

theorem alloc_pages_exhausted:
  "case alloc_pages (Some simple_alg) order pa of
     Inr (r, pa') \<Rightarrow> (\<exists>p. r = Some p \<and> all_type (page_descriptors pa) p (2 ^ order) AVAILABLE
         \<and> types (page_descriptors pa') = types (mark p (2 ^ order) ALLOCATED (page_descriptors pa)))
   | Inl f \<Rightarrow> (f = Null_dereference \<or> f = Out_of_bounds) \<and> (\<nexists>k. all_type (page_descriptors pa) k (2 ^ order) AVAILABLE)"
proof (cases "alloc_pages (Some simple_alg) order pa")
  case (Inr x)
  then show ?thesis using simple.alloc_pages_block [where pa = pa and order = order and r = "fst x" and pa' = "snd x"] by (cases x) auto
next
  case (Inl f)
  note s = simple_search_cases [where n = "2 ^ order" and pds = "page_descriptors pa" and idx = 0]
  show ?thesis
  proof (cases "simple_search (page_descriptors pa) (2 ^ order) 0")
    case (Inr r)
    then show ?thesis using Inl s
      by (cases r) (auto simp: alloc_pages_def simple_alg_def simple_allocate_def convert_ok)
  qed (use Inl s in \<open>auto simp: alloc_pages_def simple_alg_def simple_allocate_def\<close>)
qed




text \<open>
  The self test of the page allocator cannot succeed with the simple algorithm: if any page is
  available it stops at an assertion (the pages it got were never marked as allocated), and
  otherwise it reports failure.
\<close>

theorem self_test_simple:
  "self_test simple_alg ((), pds) =
     (if AVAILABLE \<in> set (types pds) then Inl Assertion_failure else Inr (False, (), pds))"
proof -
  have one: "all_type pds k 1 AVAILABLE \<longleftrightarrow> k < length pds \<and> ptype (pds ! k) = AVAILABLE" for k
    by (auto simp: all_type_def le_less_Suc_eq)
  have ex: "AVAILABLE \<in> set (types pds) \<longleftrightarrow> (\<exists>k. all_type pds k 1 AVAILABLE)"
    unfolding one by (auto simp: in_set_conv_nth simp del: set_map intro: sym)
  have last: "pds \<noteq> [] \<Longrightarrow> ptype (last pds) = AVAILABLE \<Longrightarrow> \<exists>k. all_type pds k 1 AVAILABLE"
    unfolding one by (auto simp: last_conv_nth intro!: exI [of _ "length pds - 1"])
  note s = simple_search_cases [where n = 1 and pds = pds and idx = 0]
  show ?thesis
  proof (cases "simple_search pds 1 0")
    case (Inl f)
    then show ?thesis using s last by auto
  next
    case (Inr r)
    show ?thesis
    proof (cases r)
      case None
      then show ?thesis using s Inr ex by (simp add: self_test_def simple_alg_def simple_allocate_def)
    next
      case (Some p)
      then have "p < length pds" "ptype (pds ! p) = AVAILABLE" using s Inr one [of p] by auto
      moreover have "AVAILABLE \<in> set (types pds)" using ex s Inr Some by auto
      ultimately show ?thesis using Inr Some
        by (simp add: self_test_def simple_alg_def simple_allocate_def simple_free_def self_test_rest_def)
    qed
  qed
qed

text \<open>
  Page frame numbers and descriptor pointers convert back and forth: for every frame number up
  to and including \<^verbatim>\<open>_nr_pages\<close> the pointer \<^verbatim>\<open>pfn_to_pgd\<close> returns is that of the frame. The bound is
  one too large: for the frame number \<^verbatim>\<open>_nr_pages\<close> it points just behind the array.
\<close>

theorem pgd_pfn_roundtrip:
  assumes "unat nr < 2 ^ 59" "pfn \<le> nr"
  shows "pfn_to_pgd base nr pfn = pgd_ptr base (unat pfn) \<and> pgd_to_pfn base (pfn_to_pgd base nr pfn) = pfn"
proof -
  have "unat pfn < 2 ^ 59" using assms by (simp add: word_le_nat_alt)
  then have "unat (32 * pfn) = 32 * unat pfn" by (simp add: unat_word_ariths)
  then have "unat (32 * pfn div 32) = unat pfn" by (simp add: unat_div_distrib)
  then have "32 * pfn div 32 = pfn" by (simp add: word_unat_eq_iff)
  then show ?thesis using assms(2)
    by (auto simp: pfn_to_pgd_def pgd_to_pfn_def pgd_ptr_def pgd_bytes_def)
qed

theorem pgd_pfn_roundtrip_witness:
  "pfn_to_pgd 0x1000 16 16 = pgd_ptr 0x1000 16 \<and> pgd_to_pfn 0x1000 (pfn_to_pgd 0x1000 16 16) = 16"
  using pgd_pfn_roundtrip [of 16 16 "0x1000"] by auto

end
