(* ===== verification/Vma.thy ===== *)
theory Vma
  imports Page_Alloc
begin

text \<open>
  Virtual address spaces, from \<^verbatim>\<open>mm/vma.cpp\<close>: the four-level page table in physical memory, its
  entries, \<^verbatim>\<open>insert_mapping\<close>, \<^verbatim>\<open>get_mapping\<close>, the allocation of virtual memory and the copy into
  an address space.

  Physical memory is a function from the addresses of 64-bit cells in the physical memory
  window (\<^verbatim>\<open>pa_to_vpa\<close>) to their contents. The result \<open>None\<close> means that the kernel stopped at an
  assertion or in the page allocator.
\<close>

type_synonym memory = "virt_addr \<Rightarrow> u64"

record 'a machine =
  mem :: memory
  pgalloc :: "'a page_allocator"

record vma =
  pgt_phys_base :: phys_addr
  pgt_virt_base :: virt_addr
  next_free_address :: virt_addr
  page_allocations :: "(nat \<times> nat) list"

subsection \<open>Table entries\<close>

definition BITS :: "u64 \<Rightarrow> nat \<Rightarrow> nat \<Rightarrow> u64" where
  "BITS val start stop = drop_bit start val AND mask (stop - start + 1)"

definition va_table_indicies :: "virt_addr \<Rightarrow> u64 \<times> u64 \<times> u64 \<times> u64" where
  "va_table_indicies va = (BITS va 39 47, BITS va 30 38, BITS va 21 29, BITS va 12 20)"

definition entry_base :: "u64 \<Rightarrow> phys_addr" where
  "entry_base bits = bits AND NOT (mask 12)"

definition set_entry_base :: "phys_addr \<Rightarrow> u64 \<Rightarrow> u64" where
  "set_entry_base addr bits = (bits AND mask 12) OR (addr AND NOT (mask 12))"

definition entry_flags :: "u64 \<Rightarrow> u64" where
  "entry_flags bits = bits AND mask 12"

definition set_entry_flags :: "u64 \<Rightarrow> u64 \<Rightarrow> u64" where
  "set_entry_flags fl bits = (bits AND NOT (mask 12)) OR (fl AND mask 12)"

text \<open>The bit numbers of \<^verbatim>\<open>MMUTableEntryFlags\<close>.\<close>

datatype entry_flag = PRESENT | WRITABLE | ALLOW_USER | WRITE_THROUGH | CACHE_DISABLED | ACCESSED | DIRTY | HUGE | GLOBAL

fun flag_bit :: "entry_flag \<Rightarrow> nat" where
  "flag_bit PRESENT = 0"
| "flag_bit WRITABLE = 1"
| "flag_bit ALLOW_USER = 2"
| "flag_bit WRITE_THROUGH = 3"
| "flag_bit CACHE_DISABLED = 4"
| "flag_bit ACCESSED = 5"
| "flag_bit DIRTY = 6"
| "flag_bit HUGE = 7"
| "flag_bit GLOBAL = 8"

definition get_flag :: "entry_flag \<Rightarrow> u64 \<Rightarrow> bool" where
  "get_flag idx bits \<longleftrightarrow> entry_flags bits AND push_bit (flag_bit idx) 1 \<noteq> 0"

definition set_flag :: "entry_flag \<Rightarrow> bool \<Rightarrow> u64 \<Rightarrow> u64" where
  "set_flag idx v bits =
     (if \<not> v then set_entry_flags (entry_flags bits AND NOT (push_bit (flag_bit idx) 1)) bits
      else set_entry_flags (entry_flags bits OR push_bit (flag_bit idx) 1) bits)"

subsection \<open>Allocation of physical pages\<close>

definition index_to_pa :: "nat \<Rightarrow> phys_addr" where
  "index_to_pa i = pfn_to_pa (of_nat i)"

text \<open>\<^verbatim>\<open>pnzero\<close>: clear \<open>n\<close> pages starting at a virtual address.\<close>

definition pnzero :: "virt_addr \<Rightarrow> nat \<Rightarrow> memory \<Rightarrow> memory" where
  "pnzero va n m = (\<lambda>a. if va \<le> a \<and> unat a < unat va + n * 4096 then 0 else m a)"

definition outcome_option :: "'b outcome \<Rightarrow> 'b option" where
  "outcome_option r = (case r of Inl f \<Rightarrow> None | Inr x \<Rightarrow> Some x)"

text \<open>The result \<open>None\<close> inside the pair is a returned \<^verbatim>\<open>NULL\<close>.\<close>

definition allocate_phys :: "'a page_alg option \<Rightarrow> nat \<Rightarrow> vma \<times> 'a machine \<Rightarrow> (nat option \<times> vma \<times> 'a machine) option" where
  "allocate_phys alg order = (\<lambda>(v, s). do {
     (pgd, pa) \<leftarrow> outcome_option (alloc_pages alg order (pgalloc s));
     case pgd of
       None \<Rightarrow> Some (None, v, s\<lparr>pgalloc := pa\<rparr>)
     | Some i \<Rightarrow> do {
         va \<leftarrow> pa_to_vpa (index_to_pa i);
         Some (Some i, v\<lparr>page_allocations := page_allocations v @ [(i, order)]\<rparr>,
           s\<lparr>pgalloc := pa, mem := pnzero va (2 ^ order) (mem s)\<rparr>) } })"

definition vma_init :: "'a page_alg option \<Rightarrow> 'a machine \<Rightarrow> (vma \<times> 'a machine) option" where
  "vma_init alg s = do {
     (pgd, v, s) \<leftarrow> allocate_phys alg 0
        (\<lparr>pgt_phys_base = 0, pgt_virt_base = 0, next_free_address = 0xfff00000000, page_allocations = []\<rparr>, s);
     i \<leftarrow> pgd;
     va \<leftarrow> pa_to_vpa (index_to_pa i);
     Some (v\<lparr>pgt_phys_base := index_to_pa i, pgt_virt_base := va\<rparr>, s) }"

definition install_default_kernel_mapping :: "(u64 \<Rightarrow> u64) option \<Rightarrow> vma \<times> 'a machine \<Rightarrow> ('a machine) option" where
  "install_default_kernel_mapping template_pml4 = (\<lambda>(v, s). do {
     t \<leftarrow> template_pml4;
     Some (s\<lparr>mem := (mem s)(pgt_virt_base v + 8 * 0x1ff := t 0x1ff, pgt_virt_base v + 8 * 0x100 := t 0x100)\<rparr>) })"

subsection \<open>Mapping\<close>

text \<open>
  The block that \<^verbatim>\<open>insert_mapping\<close> repeats for the three upper levels: if the entry at the given
  address has no table, allocate one; the result is the address of the table.
\<close>

definition ensure_table :: "'a page_alg option \<Rightarrow> virt_addr \<Rightarrow> vma \<times> 'a machine \<Rightarrow> (virt_addr \<times> vma \<times> 'a machine) option" where
  "ensure_table alg ea = (\<lambda>(v, s). do {
     (v, s) \<leftarrow> (if entry_base (mem s ea) = 0 then do {
         (pgd, v, s) \<leftarrow> allocate_phys alg 0 (v, s);
         i \<leftarrow> pgd;
         Some (v, s\<lparr>mem := (mem s)(ea := set_flag ALLOW_USER True (set_flag WRITABLE True
           (set_flag PRESENT True (set_entry_base (index_to_pa i) (mem s ea)))))\<rparr>) }
       else Some (v, s));
     va \<leftarrow> pa_to_vpa (entry_base (mem s ea));
     Some (va, v, s) })"

text \<open>The bits of \<^verbatim>\<open>MappingFlags\<close>: present, user, writable.\<close>

record map_flags =
  Present :: bool
  User :: bool
  Writable :: bool

definition set_leaf :: "virt_addr \<Rightarrow> phys_addr \<Rightarrow> map_flags \<Rightarrow> memory \<Rightarrow> memory" where
  "set_leaf ea pa fl m =
     (let e = set_entry_base pa (m ea);
          e = (if Present fl then set_flag PRESENT True e else e);
          e = (if Writable fl then set_flag WRITABLE True e else e);
          e = (if User fl then set_flag ALLOW_USER True e else e)
      in m(ea := e))"

definition insert_mapping :: "'a page_alg option \<Rightarrow> virt_addr \<Rightarrow> phys_addr \<Rightarrow> map_flags
    \<Rightarrow> vma \<times> 'a machine \<Rightarrow> (vma \<times> 'a machine) option" where
  "insert_mapping alg va pa fl = (\<lambda>(v, s). do {
     let (pml4_idx, pdp_idx, pd_idx, pt_idx) = va_table_indicies va;
     (pdp, v, s) \<leftarrow> ensure_table alg (pgt_virt_base v + 8 * pml4_idx) (v, s);
     (pd, v, s) \<leftarrow> ensure_table alg (pdp + 8 * pdp_idx) (v, s);
     (pt, v, s) \<leftarrow> ensure_table alg (pd + 8 * pd_idx) (v, s);
     Some (v, s\<lparr>mem := set_leaf (pt + 8 * pt_idx) pa fl (mem s)\<rparr>) })"

text \<open>\<open>Some None\<close> is \<^verbatim>\<open>return false\<close>.\<close>

definition get_mapping :: "virt_addr \<Rightarrow> vma \<times> 'a machine \<Rightarrow> phys_addr option option" where
  "get_mapping va = (\<lambda>(v, s).
     if pgt_virt_base v = 0 then Some None
     else
       let (pml4_idx, pdp_idx, pd_idx, pt_idx) = va_table_indicies va;
           e4 = mem s (pgt_virt_base v + 8 * pml4_idx)
       in if \<not> get_flag PRESENT e4 then Some None
       else do {
         pdp \<leftarrow> pa_to_vpa (entry_base e4);
         let e3 = mem s (pdp + 8 * pdp_idx);
         if \<not> get_flag PRESENT e3 then Some None
         else do {
           pd \<leftarrow> pa_to_vpa (entry_base e3);
           let e2 = mem s (pd + 8 * pd_idx);
           if \<not> get_flag PRESENT e2 then Some None
           else do {
             pt \<leftarrow> pa_to_vpa (entry_base e2);
             let e1 = mem s (pt + 8 * pt_idx);
             if \<not> get_flag PRESENT e1 then Some None
             else Some (Some (entry_base e1 OR page_offset va)) } } })"

definition is_mapped :: "virt_addr \<Rightarrow> vma \<times> 'a machine \<Rightarrow> bool option" where
  "is_mapped va s = map_option (\<lambda>r. r \<noteq> None) (get_mapping va s)"

text \<open>The loop of \<^verbatim>\<open>allocate_virt\<close>.\<close>

fun map_pages :: "'a page_alg option \<Rightarrow> nat \<Rightarrow> virt_addr \<Rightarrow> phys_addr \<Rightarrow> vma \<times> 'a machine \<Rightarrow> (vma \<times> 'a machine) option" where
  "map_pages alg 0 vbase pbase s = Some s"
| "map_pages alg (Suc n) vbase pbase s = do {
     s \<leftarrow> insert_mapping alg vbase pbase \<lparr>Present = True, User = True, Writable = True\<rparr> s;
     map_pages alg n (vbase + 0x1000) (pbase + 0x1000) s }"

definition allocate_virt :: "'a page_alg option \<Rightarrow> virt_addr \<Rightarrow> u32 \<Rightarrow> vma \<times> 'a machine \<Rightarrow> (bool \<times> vma \<times> 'a machine) option" where
  "allocate_virt alg va n s =
     (if n = 0 then Some (False, s)
      else do {
        (pgd, s) \<leftarrow> allocate_phys alg (log2ceil (scast n)) s;
        case pgd of
          None \<Rightarrow> Some (False, s)
        | Some i \<Rightarrow> do {
            s \<leftarrow> map_pages alg (unat n) va (index_to_pa i) s;
            Some (True, s) } })"

text \<open>The exception \<^verbatim>\<open>AllocationError\<close> is the result \<open>Inl ()\<close>; the size is a 32-bit product.\<close>

definition allocate_virt_any :: "'a page_alg option \<Rightarrow> u32 \<Rightarrow> vma \<times> 'a machine \<Rightarrow> ((unit + virt_addr) \<times> vma \<times> 'a machine) option" where
  "allocate_virt_any alg n s = do {
     let result = next_free_address (fst s);
     (ok, v, m) \<leftarrow> allocate_virt alg result n s;
     if ok then Some (Inr result, v\<lparr>next_free_address := next_free_address v + ucast (n * 4096)\<rparr>, m)
     else Some (Inl (), v, m) }"

definition release_memory :: "virt_addr \<Rightarrow> vma \<times> 'a machine \<Rightarrow> vma \<times> 'a machine" where
  "release_memory va s = s"

text \<open>
  \<^verbatim>\<open>copy_to\<close>: only the mapping of the first byte is looked up; the bytes of the source are
  copied to consecutive physical addresses. A byte is a part of the cell that contains it.
\<close>

definition cell_of :: "virt_addr \<Rightarrow> virt_addr" where
  "cell_of a = a AND NOT 7"

definition byte_shift :: "virt_addr \<Rightarrow> nat" where
  "byte_shift a = 8 * unat (a AND 7)"

definition read_byte :: "memory \<Rightarrow> virt_addr \<Rightarrow> u8" where
  "read_byte m a = ucast (drop_bit (byte_shift a) (m (cell_of a)))"

definition write_byte :: "virt_addr \<Rightarrow> u8 \<Rightarrow> memory \<Rightarrow> memory" where
  "write_byte a w m = m(cell_of a :=
     (m (cell_of a) AND NOT (push_bit (byte_shift a) 0xff)) OR push_bit (byte_shift a) (ucast w))"

fun copy_bytes :: "virt_addr \<Rightarrow> u8 list \<Rightarrow> memory \<Rightarrow> memory" where
  "copy_bytes dest [] m = m"
| "copy_bytes dest (w # ws) m = copy_bytes (dest + 1) ws (write_byte dest w m)"

definition copy_to :: "virt_addr \<Rightarrow> u8 list \<Rightarrow> vma \<times> 'a machine \<Rightarrow> (bool \<times> vma \<times> 'a machine) option" where
  "copy_to dest_va src = (\<lambda>(v, s). do {
     r \<leftarrow> get_mapping dest_va (v, s);
     case r of
       None \<Rightarrow> Some (False, v, s)
     | Some pa \<Rightarrow> do {
         dest \<leftarrow> pa_to_vpa pa;
         Some (True, v, s\<lparr>mem := copy_bytes dest src (mem s)\<rparr>) } })"

text \<open>
  \<^verbatim>\<open>dump\<close> and its helpers list the present mappings; the virtual addresses they print are
  computed with shifts of 36, 28, 20 and 12 bits.
\<close>

definition dump_va :: "u64 \<Rightarrow> u64 \<Rightarrow> u64 \<Rightarrow> u64 \<Rightarrow> virt_addr" where
  "dump_va pml4 pdp pd i = push_bit 36 pml4 OR push_bit 28 pdp OR push_bit 20 pd OR push_bit 12 i"

definition table_indices :: "u64 list" where
  "table_indices = map of_nat [0..<0x200]"

definition dump_pt :: "memory \<Rightarrow> u64 \<Rightarrow> u64 \<Rightarrow> u64 \<Rightarrow> virt_addr \<Rightarrow> (virt_addr \<times> phys_addr) list" where
  "dump_pt m pml4 pdp pd te =
     map (\<lambda>i. (dump_va pml4 pdp pd i, entry_base (m (te + 8 * i))))
       (filter (\<lambda>i. get_flag PRESENT (m (te + 8 * i))) table_indices)"

fun dump_entries :: "memory \<Rightarrow> virt_addr \<Rightarrow> (u64 \<Rightarrow> virt_addr) \<Rightarrow> (u64 \<Rightarrow> virt_addr \<Rightarrow> (virt_addr \<times> phys_addr) list option)
    \<Rightarrow> u64 list \<Rightarrow> (virt_addr \<times> phys_addr) list option" where
  "dump_entries m te huge_va down [] = Some []"
| "dump_entries m te huge_va down (i # is) = do {
     let e = m (te + 8 * i);
     xs \<leftarrow> (if \<not> get_flag PRESENT e then Some []
            else if get_flag HUGE e then Some [(huge_va i, entry_base e)]
            else do { va \<leftarrow> pa_to_vpa (entry_base e); down i va });
     ys \<leftarrow> dump_entries m te huge_va down is;
     Some (xs @ ys) }"

definition dump_pd :: "memory \<Rightarrow> u64 \<Rightarrow> u64 \<Rightarrow> virt_addr \<Rightarrow> (virt_addr \<times> phys_addr) list option" where
  "dump_pd m pml4 pdp te =
     dump_entries m te (\<lambda>i. dump_va pml4 pdp i 0) (\<lambda>i va. Some (dump_pt m pml4 pdp i va)) table_indices"

definition dump_pdp :: "memory \<Rightarrow> u64 \<Rightarrow> virt_addr \<Rightarrow> (virt_addr \<times> phys_addr) list option" where
  "dump_pdp m pml4 te = dump_entries m te (\<lambda>i. dump_va pml4 i 0 0) (\<lambda>i va. dump_pd m pml4 i va) table_indices"

definition vma_dump :: "vma \<times> 'a machine \<Rightarrow> (virt_addr \<times> phys_addr) list option" where
  "vma_dump = (\<lambda>(v, s). dump_entries (mem s) (pgt_virt_base v) (\<lambda>i. dump_va i 0 0 0)
     (\<lambda>i va. dump_pdp (mem s) i va) table_indices)"

subsection \<open>Bits of an entry\<close>

lemma bit_set_entry_base: "bit (set_entry_base a e) n \<longleftrightarrow> (if n < 12 then bit e n else bit a n)"
  using bit_imp_le_length [of a n] by (auto simp: set_entry_base_def bit_simps)

lemma bit_entry_base: "bit (entry_base e) n \<longleftrightarrow> 12 \<le> n \<and> bit e n"
  using bit_imp_le_length [of e n] by (auto simp: entry_base_def bit_simps)

lemma entry_base_page_base: "entry_base = page_base"
  by (rule ext, rule bit_word_eqI) (simp add: bit_entry_base bit_page_base conj_commute)

lemma flag_bit_less: "flag_bit f < 9"
  by (cases f) simp_all

lemma get_flag_bit: "get_flag f e \<longleftrightarrow> bit e (flag_bit f)"
proof -
  have "entry_flags e AND push_bit (flag_bit f) 1 = (if bit e (flag_bit f) then push_bit (flag_bit f) 1 else 0)"
    using flag_bit_less [of f] by (intro bit_word_eqI) (auto simp: entry_flags_def bit_simps)
  moreover have "(push_bit (flag_bit f) 1 :: u64) \<noteq> 0" by (cases f) simp_all
  ultimately show ?thesis by (simp add: get_flag_def)
qed

lemma bit_set_flag: "bit (set_flag f v e) n \<longleftrightarrow> (if n = flag_bit f then v else bit e n)"
proof -
  have "n < 64" if "bit e n" using that bit_imp_le_length [of e n] by simp
  then show ?thesis using flag_bit_less [of f]
    by (auto simp: set_flag_def set_entry_flags_def entry_flags_def bit_simps)
qed

lemma entry_base_set_flag [simp]: "entry_base (set_flag f v e) = entry_base e"
  using flag_bit_less [of f] by (intro bit_word_eqI) (auto simp: bit_entry_base bit_set_flag)

lemma entry_base_set [simp]: "entry_base (set_entry_base a e) = page_base a"
  by (rule bit_word_eqI) (auto simp: bit_entry_base bit_set_entry_base bit_page_base)

lemma get_set_flag [simp]: "get_flag f (set_flag g v e) \<longleftrightarrow> (if f = g then v else get_flag f e)"
proof -
  have "flag_bit f = flag_bit g \<longleftrightarrow> f = g" by (cases f; cases g) simp_all
  then show ?thesis by (simp add: get_flag_bit bit_set_flag)
qed

lemma get_flag_set_base [simp]: "get_flag f (set_entry_base a e) \<longleftrightarrow> get_flag f e"
  using flag_bit_less [of f] by (simp add: get_flag_bit bit_set_entry_base)

lemma entry_0 [simp]: "entry_base 0 = 0" "\<not> get_flag f 0"
  by (simp_all add: entry_base_def get_flag_bit)

subsection \<open>The cells of a table\<close>

definition aligned :: "virt_addr \<Rightarrow> bool" where
  "aligned b \<longleftrightarrow> 4096 dvd unat b"

definition tidx :: "u64 set" where
  "tidx = {i. unat i < 512}"

definition idx :: "nat \<Rightarrow> virt_addr \<Rightarrow> u64" where
  "idx n va = BITS va (12 + 9 * n) (20 + 9 * n)"

lemma idx_tidx [simp]: "idx n va \<in> tidx"
proof -
  have "idx n va = take_bit 9 (drop_bit (12 + 9 * n) va)" by (simp add: idx_def BITS_def take_bit_eq_mask)
  moreover have "unat (take_bit 9 w :: u64) < 2 ^ 9" for w
    using take_bit_nat_less_exp [of 9 "unat w"] by (simp add: unsigned_take_bit_eq)
  ultimately show ?thesis by (simp add: tidx_def)
qed

lemma unat_cell:
  assumes "aligned b" "i \<in> tidx"
  shows "unat (b + 8 * i) = unat b + 8 * unat i"
proof -
  obtain q where q: "unat b = 4096 * q" using assms(1) by (auto simp: aligned_def)
  have "unat b < 2 ^ 64" using unsigned_less [where 'a = nat, of b] by simp
  then have "q < 2 ^ 52" using q by simp
  moreover have i: "unat i < 512" using assms(2) by (simp add: tidx_def)
  moreover have "unat (8 * i) = 8 * unat i" using i by (simp add: unat_word_ariths)
  ultimately show ?thesis using q by (subst unat_add_small) auto
qed

lemma page_range: "i < 512 \<Longrightarrow> 4096 * p \<le> 4096 * q + 8 * i \<and> 4096 * q + 8 * i < 4096 * p + 4096 \<longleftrightarrow> q = p" for p :: nat
  by (cases q p rule: linorder_cases) linarith+

lemma page_split:
  assumes "4096 * p + 8 * i = 4096 * q + 8 * j" "i < 512" "j < 512"
  shows "p = q \<and> i = (j::nat)"
  using page_range [OF assms(2), of q p] assms by linarith

lemma cell_inject:
  assumes "aligned b" "aligned c" "i \<in> tidx" "j \<in> tidx" "b + 8 * i = c + 8 * j"
  shows "b = c \<and> i = j"
proof -
  have "unat b + 8 * unat i = unat c + 8 * unat j"
    using assms unat_cell by metis
  moreover obtain p q where pq: "unat b = 4096 * p" "unat c = 4096 * q"
    using assms(1,2) unfolding aligned_def dvd_def by blast
  ultimately have "p = q \<and> unat i = unat j"
    using assms(3,4) by (intro page_split) (auto simp: tidx_def)
  then show ?thesis using pq by (simp add: word_unat_eq_iff)
qed

lemma pnzero_page:
  assumes "aligned b" "aligned c" "i \<in> tidx"
  shows "pnzero b 1 m (c + 8 * i) = (if c = b then 0 else m (c + 8 * i))"
proof -
  have u: "unat (c + 8 * i) = unat c + 8 * unat i" using assms by (simp add: unat_cell)
  obtain p q where pq: "unat b = 4096 * p" "unat c = 4096 * q"
    using assms(1,2) unfolding aligned_def dvd_def by blast
  have "unat b \<le> unat (c + 8 * i) \<and> unat (c + 8 * i) < unat b + 4096 \<longleftrightarrow> q = p"
    unfolding u pq using assms(3) by (intro page_range) (simp add: tidx_def)
  moreover have "c = b \<longleftrightarrow> q = p" using pq by (simp add: word_unat_eq_iff)
  ultimately show ?thesis by (simp add: pnzero_def word_le_nat_alt)
qed

lemma vpa_aligned:
  assumes "pa_to_vpa (page_base pa) = Some b"
  shows "aligned b"
proof -
  have b: "b = PMEM_VA_START + page_base pa" and s: "page_base pa < PMEM_VA_SIZE"
    using assms by (auto simp: pa_to_vpa_def bind_eq_Some_iff)
  have "unat (page_base pa) < 2 ^ 32" using s by (simp add: PMEM_VA_SIZE_def PMEM_VA_END_def PMEM_VA_START_def word_less_nat_alt)
  then have u: "unat b = unat PMEM_VA_START + unat (page_base pa)"
    unfolding b by (intro unat_add_small) (simp add: PMEM_VA_START_def)
  have "take_bit 12 (page_base pa) = 0" by (rule bit_word_eqI) (auto simp: bit_take_bit_iff bit_page_base)
  then have "unat (page_base pa) mod 4096 = 0"
    using unat_mod_distrib [of "page_base pa" 4096] by (simp add: take_bit_eq_mod)
  then show ?thesis unfolding aligned_def u by (auto simp: PMEM_VA_START_def mod_eq_0_iff_dvd)
qed

subsection \<open>Walks, level by level\<close>

text \<open>Level 3 is the PML4, level 0 the last table.\<close>

fun map_rec :: "'a page_alg option \<Rightarrow> nat \<Rightarrow> virt_addr \<Rightarrow> virt_addr \<Rightarrow> phys_addr \<Rightarrow> map_flags
    \<Rightarrow> vma \<times> 'a machine \<Rightarrow> (vma \<times> 'a machine) option" where
  "map_rec alg 0 b va pa fl (v, s) = Some (v, s\<lparr>mem := set_leaf (b + 8 * idx 0 va) pa fl (mem s)\<rparr>)"
| "map_rec alg (Suc n) b va pa fl (v, s) = do {
     (b', vs) \<leftarrow> ensure_table alg (b + 8 * idx (Suc n) va) (v, s);
     map_rec alg n b' va pa fl vs }"

fun look :: "memory \<Rightarrow> nat \<Rightarrow> virt_addr \<Rightarrow> virt_addr \<Rightarrow> u64 option option" where
  "look m 0 b va = (let e = m (b + 8 * idx 0 va) in Some (if get_flag PRESENT e then Some e else None))"
| "look m (Suc n) b va =
     (let e = m (b + 8 * idx (Suc n) va)
      in if \<not> get_flag PRESENT e then Some None
         else do { b' \<leftarrow> pa_to_vpa (entry_base e); look m n b' va })"

lemma va_table_indicies_idx: "va_table_indicies va = (idx 3 va, idx 2 va, idx 1 va, idx 0 va)"
  by (simp add: va_table_indicies_def idx_def)

lemma insert_mapping_rec: "insert_mapping alg va pa fl (v, s) = map_rec alg 3 (pgt_virt_base v) va pa fl (v, s)"
proof -
  have one: "map_rec alg (Suc n) b va pa fl vs = do {
     (b', vs) \<leftarrow> ensure_table alg (b + 8 * idx (Suc n) va) vs; map_rec alg n b' va pa fl vs }" for n b vs
    by (cases vs) simp
  have zero: "map_rec alg 0 b va pa fl vs = (case vs of (v, s) \<Rightarrow>
      Some (v, s\<lparr>mem := set_leaf (b + 8 * idx 0 va) pa fl (mem s)\<rparr>))" for b vs
    by (cases vs) simp
  show ?thesis
    by (simp add: insert_mapping_def va_table_indicies_idx numeral_3_eq_3 numeral_2_eq_2 one zero
        case_prod_beta' del: map_rec.simps)
qed

lemma get_mapping_look:
  "get_mapping va (v, s) =
    (if pgt_virt_base v = 0 then Some None
     else map_option (map_option (\<lambda>e. entry_base e OR page_offset va)) (look (mem s) 3 (pgt_virt_base v) va))"
  by (simp add: get_mapping_def va_table_indicies_idx numeral_3_eq_3 numeral_2_eq_2 Let_def split: Option.bind_splits)

text \<open>
  \<open>tab K m n b S\<close>: the memory has a table of level \<open>n\<close> at \<open>b\<close>, and \<open>S\<close> are the addresses of that
  table and of the tables below it, which are distinct; entries with indices in \<open>K\<close> are not
  looked at. An entry of an upper level is present exactly when it has a table.
\<close>

definition entry_ok :: "(virt_addr \<Rightarrow> virt_addr set \<Rightarrow> bool) \<Rightarrow> u64 \<Rightarrow> virt_addr set \<Rightarrow> bool" where
  "entry_ok P e F \<longleftrightarrow>
     (if entry_base e = 0 then \<not> get_flag PRESENT e \<and> F = {}
      else get_flag PRESENT e \<and> (case pa_to_vpa (entry_base e) of None \<Rightarrow> False | Some b' \<Rightarrow> P b' F))"

primrec tab :: "nat \<Rightarrow> u64 set \<Rightarrow> memory \<Rightarrow> virt_addr \<Rightarrow> virt_addr set \<Rightarrow> bool" where
  "tab 0 = (\<lambda>K m b S. aligned b \<and> S = {b})"
| "tab (Suc n) = (\<lambda>K m b S. aligned b \<and> (\<exists>f. S = insert b (\<Union> (f ` (tidx - K)))
     \<and> (\<forall>i \<in> tidx - K. b \<notin> f i)
     \<and> (\<forall>i \<in> tidx - K. \<forall>j \<in> tidx - K. i \<noteq> j \<longrightarrow> f i \<inter> f j = {})
     \<and> (\<forall>i \<in> tidx - K. entry_ok (tab n {} m) (m (b + 8 * i)) (f i))))"

definition same_cells :: "memory \<Rightarrow> memory \<Rightarrow> virt_addr set \<Rightarrow> bool" where
  "same_cells m m' S \<longleftrightarrow> (\<forall>c \<in> S. \<forall>i \<in> tidx. m' (c + 8 * i) = m (c + 8 * i))"

lemma entry_ok_cases:
  assumes "entry_ok P e F"
  obtains (none) "entry_base e = 0" "\<not> get_flag PRESENT e" "F = {}"
    | (some) b' where "entry_base e \<noteq> 0" "get_flag PRESENT e" "pa_to_vpa (entry_base e) = Some b'" "P b' F"
  using assms by (auto simp: entry_ok_def split: if_splits option.splits)

lemma tab_SucE:
  assumes "tab (Suc n) K m b S"
  shows "\<exists>f. S = insert b (\<Union> (f ` (tidx - K))) \<and> aligned b \<and> (\<forall>i \<in> tidx - K. b \<notin> f i)
    \<and> (\<forall>i \<in> tidx - K. \<forall>j \<in> tidx - K. i \<noteq> j \<longrightarrow> f i \<inter> f j = {})
    \<and> (\<forall>i \<in> tidx - K. entry_ok (tab n {} m) (m (b + 8 * i)) (f i))"
  using assms by auto

lemma tab_SucI:
  assumes "S = insert b (\<Union> (f ` (tidx - K)))" "aligned b" "\<And>i. i \<in> tidx - K \<Longrightarrow> b \<notin> f i"
    "\<And>i j. i \<in> tidx - K \<Longrightarrow> j \<in> tidx - K \<Longrightarrow> i \<noteq> j \<Longrightarrow> f i \<inter> f j = {}"
    "\<And>i. i \<in> tidx - K \<Longrightarrow> entry_ok (tab n {} m) (m (b + 8 * i)) (f i)"
  shows "tab (Suc n) K m b S"
  unfolding tab.simps using assms by (intro conjI exI [of _ f]) simp_all

declare tab.simps(2) [simp del]

lemma tab_aligned: "tab n K m b S \<Longrightarrow> aligned b \<and> b \<in> S \<and> (\<forall>c \<in> S. aligned c)"
proof (induction n arbitrary: K b S)
  case (Suc n)
  obtain f where f: "S = insert b (\<Union> (f ` (tidx - K)))" "aligned b"
    "\<And>i. i \<in> tidx - K \<Longrightarrow> entry_ok (tab n {} m) (m (b + 8 * i)) (f i)"
    using tab_SucE [OF Suc.prems] by blast
  have "\<forall>c \<in> f i. aligned c" if "i \<in> tidx - K" for i
    using f(3) [OF that] by (cases rule: entry_ok_cases) (use Suc.IH in auto)
  then show ?case using f(1,2) by auto
qed simp

lemma tab_cong: "tab n K m b S \<Longrightarrow> same_cells m m' S \<Longrightarrow> tab n K m' b S"
proof (induction n arbitrary: K b S)
  case (Suc n)
  obtain f where f: "S = insert b (\<Union> (f ` (tidx - K)))" "aligned b" "\<And>i. i \<in> tidx - K \<Longrightarrow> b \<notin> f i"
    "\<And>i j. i \<in> tidx - K \<Longrightarrow> j \<in> tidx - K \<Longrightarrow> i \<noteq> j \<Longrightarrow> f i \<inter> f j = {}"
    "\<And>i. i \<in> tidx - K \<Longrightarrow> entry_ok (tab n {} m) (m (b + 8 * i)) (f i)"
    using tab_SucE [OF Suc.prems(1)] by blast
  have "entry_ok (tab n {} m') (m' (b + 8 * i)) (f i)" if i: "i \<in> tidx - K" for i
  proof -
    have eq: "m' (b + 8 * i) = m (b + 8 * i)" using Suc.prems(2) f(1) i by (simp add: same_cells_def)
    have same: "same_cells m m' (f i)" using Suc.prems(2) f(1) i by (auto simp: same_cells_def)
    from f(5) [OF i] show ?thesis
      by (cases rule: entry_ok_cases) (use eq same Suc.IH in \<open>simp_all add: entry_ok_def\<close>)
  qed
  with f(1-4) show ?case by (rule tab_SucI)
qed simp

lemma tab_zero: "aligned b \<Longrightarrow> (\<And>i. i \<in> tidx \<Longrightarrow> m (b + 8 * i) = 0) \<Longrightarrow> tab n K m b {b}"
  by (cases n) (auto intro!: tab_SucI [where f = "\<lambda>_. {}"] simp: entry_ok_def)

lemma look_zero: "(\<And>i. i \<in> tidx \<Longrightarrow> m (b + 8 * i) = 0) \<Longrightarrow> look m n b va = Some None"
  by (cases n) auto

lemma look_cong:
  "tab n K m b S \<Longrightarrow> same_cells m m' S \<Longrightarrow> idx n va \<notin> K \<Longrightarrow> look m' n b va = look m n b va"
proof (induction n arbitrary: K b S)
  case 0
  then show ?case by (simp add: same_cells_def)
next
  case (Suc n)
  let ?i = "idx (Suc n) va"
  have i: "?i \<in> tidx - K" using Suc.prems(3) by simp
  obtain f where f: "S = insert b (\<Union> (f ` (tidx - K)))"
    "entry_ok (tab n {} m) (m (b + 8 * ?i)) (f ?i)" using tab_SucE [OF Suc.prems(1)] i by blast
  have eq: "m' (b + 8 * ?i) = m (b + 8 * ?i)"
    using Suc.prems(2) f(1) by (simp add: same_cells_def)
  have same: "same_cells m m' (f ?i)" using Suc.prems(2) f(1) i by (auto simp: same_cells_def)
  show ?case using f(2)
    by (cases rule: entry_ok_cases) (use eq same Suc.IH [of "{}" _ "f ?i"] in simp_all)
qed

text \<open>A subtree can be exchanged for a larger one whose additional tables are new.\<close>

lemma tab_focus:
  assumes t: "tab (Suc n) K m b S" and i: "i \<in> tidx - K" and e: "entry_base (m (b + 8 * i)) \<noteq> 0"
  obtains b' T where "pa_to_vpa (entry_base (m (b + 8 * i))) = Some b'" "get_flag PRESENT (m (b + 8 * i))"
    "tab n {} m b' T" "T \<subseteq> S" "b \<notin> T"
    "\<forall>m' T'. tab n {} m' b' T' \<longrightarrow> T \<subseteq> T' \<longrightarrow> (T' - T) \<inter> S = {} \<longrightarrow> same_cells m m' (S - T)
      \<longrightarrow> tab (Suc n) K m' b (S \<union> T')"
    "\<forall>m' va. same_cells m m' (S - T) \<longrightarrow> idx (Suc n) va \<notin> insert i K \<longrightarrow> look m' (Suc n) b va = look m (Suc n) b va"
proof -
  obtain f where f: "S = insert b (\<Union> (f ` (tidx - K)))" "aligned b" "\<forall>i \<in> tidx - K. b \<notin> f i"
    "\<forall>i \<in> tidx - K. \<forall>j \<in> tidx - K. i \<noteq> j \<longrightarrow> f i \<inter> f j = {}"
    "\<forall>i \<in> tidx - K. entry_ok (tab n {} m) (m (b + 8 * i)) (f i)"
    using tab_SucE [OF t] by blast
  from f(5) i have "entry_ok (tab n {} m) (m (b + 8 * i)) (f i)" by blast
  then obtain b' where b': "get_flag PRESENT (m (b + 8 * i))" "pa_to_vpa (entry_base (m (b + 8 * i))) = Some b'"
    "tab n {} m b' (f i)" by (cases rule: entry_ok_cases) (use e in auto)
  have "tab (Suc n) K m' b (S \<union> T')"
    if T': "tab n {} m' b' T'" "f i \<subseteq> T'" "(T' - f i) \<inter> S = {}" "same_cells m m' (S - f i)" for m' T'
  proof (rule tab_SucI [where f = "f(i := T')"])
    have bS: "b \<in> S - f i" using f(1,3) i by auto
    show "S \<union> T' = insert b (\<Union> ((f(i := T')) ` (tidx - K)))" using f(1) i T'(2) by auto
    show "b \<notin> (f(i := T')) j" if "j \<in> tidx - K" for j using f(3) T'(3) bS that by auto
    show "(f(i := T')) j \<inter> (f(i := T')) k = {}" if jk: "j \<in> tidx - K" "k \<in> tidx - K" "j \<noteq> k" for j k
    proof -
      have "T' \<inter> f l = {}" if "l \<in> tidx - K" "l \<noteq> i" for l
        using T'(2,3) f(1,4) i that by blast
      then show ?thesis using f(4) jk by auto
    qed
    show "entry_ok (tab n {} m') (m' (b + 8 * j)) ((f(i := T')) j)" if j: "j \<in> tidx - K" for j
    proof -
      have eq: "m' (b + 8 * j) = m (b + 8 * j)" using T'(4) bS j by (simp add: same_cells_def)
      show ?thesis
      proof (cases "j = i")
        case True
        then show ?thesis using eq b' e T'(1) by (simp add: entry_ok_def)
      next
        case False
        then have "f j \<subseteq> S - f i" using f(1,4) i j by blast
        then have same: "same_cells m m' (f j)" using T'(4) unfolding same_cells_def by blast
        from f(5) j have "entry_ok (tab n {} m) (m (b + 8 * j)) (f j)" by blast
        then show ?thesis
          by (cases rule: entry_ok_cases) (use False eq tab_cong [OF _ same] in \<open>simp_all add: entry_ok_def\<close>)
      qed
    qed
  qed (rule f(2))
  moreover have "look m' (Suc n) b va = look m (Suc n) b va"
    if same: "same_cells m m' (S - f i)" and va: "idx (Suc n) va \<notin> insert i K" for m' va
  proof -
    let ?j = "idx (Suc n) va"
    have j: "?j \<in> tidx - K" "?j \<noteq> i" using va by auto
    then have "f ?j \<subseteq> S - f i" "b \<in> S - f i" using f(1,3,4) i by blast+
    then have sub: "same_cells m m' (f ?j)" and eq: "m' (b + 8 * ?j) = m (b + 8 * ?j)"
      using same unfolding same_cells_def by (blast, simp)
    from f(5) j have "entry_ok (tab n {} m) (m (b + 8 * ?j)) (f ?j)" by blast
    then show ?thesis
      by (cases rule: entry_ok_cases) (use eq look_cong [OF _ sub] in simp_all)
  qed
  moreover have "f i \<subseteq> S" "b \<notin> f i" using f(1,3) i by auto
  ultimately show thesis using that [of b' "f i"] b' by blast
qed

text \<open>A new, empty table in a free entry: no lookup changes.\<close>

lemma tab_new:
  assumes t: "tab (Suc n) K m b S" and i: "i \<in> tidx - K" and e: "entry_base (m (b + 8 * i)) = 0"
    and c: "aligned c" "c \<notin> S" "\<forall>j \<in> tidx. m' (c + 8 * j) = 0"
    and e': "entry_base (m' (b + 8 * i)) \<noteq> 0" "get_flag PRESENT (m' (b + 8 * i))" "pa_to_vpa (entry_base (m' (b + 8 * i))) = Some c"
    and same: "\<forall>d \<in> S. \<forall>j \<in> tidx. d = b \<and> j = i \<or> m' (d + 8 * j) = m (d + 8 * j)"
  shows "tab (Suc n) K m' b (insert c S)"
    and "idx (Suc n) va \<notin> K \<Longrightarrow> look m' (Suc n) b va = look m (Suc n) b va"
proof -
  obtain f where f: "S = insert b (\<Union> (f ` (tidx - K)))" "aligned b" "\<forall>i \<in> tidx - K. b \<notin> f i"
    "\<forall>i \<in> tidx - K. \<forall>j \<in> tidx - K. i \<noteq> j \<longrightarrow> f i \<inter> f j = {}"
    "\<forall>i \<in> tidx - K. entry_ok (tab n {} m) (m (b + 8 * i)) (f i)"
    using tab_SucE [OF t] by blast
  have fi: "f i = {}" "\<not> get_flag PRESENT (m (b + 8 * i))"
    using f(5) i e by (auto simp: entry_ok_def)
  have sub: "same_cells m m' (f j)" if j: "j \<in> tidx - K" for j
    unfolding same_cells_def
  proof (intro ballI)
    fix d k assume d: "d \<in> f j" and k: "k \<in> tidx"
    then have "d \<in> S" "d \<noteq> b" using f(1,3) j by auto
    then show "m' (d + 8 * k) = m (d + 8 * k)" using same k by blast
  qed
  have eq: "m' (b + 8 * j) = m (b + 8 * j)" if "j \<in> tidx" "j \<noteq> i" for j
    using same f(1) that by blast
  have zero: "tab n {} m' c {c}" using c by (intro tab_zero) auto
  have other: "entry_ok (tab n {} m') (m' (b + 8 * j)) (f j)" if j: "j \<in> tidx - K" "j \<noteq> i" for j
  proof -
    from f(5) j have "entry_ok (tab n {} m) (m (b + 8 * j)) (f j)" by blast
    then show ?thesis
      by (cases rule: entry_ok_cases) (use j eq tab_cong [OF _ sub [OF j(1)]] in \<open>simp_all add: entry_ok_def\<close>)
  qed
  show "tab (Suc n) K m' b (insert c S)"
  proof (rule tab_SucI [where f = "f(i := {c})"])
    show "insert c S = insert b (\<Union> ((f(i := {c})) ` (tidx - K)))" using f(1) i fi by auto
    show "b \<notin> (f(i := {c})) j" if "j \<in> tidx - K" for j using f(1,3) c(2) that by auto
    show "(f(i := {c})) j \<inter> (f(i := {c})) k = {}" if "j \<in> tidx - K" "k \<in> tidx - K" "j \<noteq> k" for j k
      using f(1,4) c(2) that by auto
    show "entry_ok (tab n {} m') (m' (b + 8 * j)) ((f(i := {c})) j)" if "j \<in> tidx - K" for j
      using other that e' zero by (cases "j = i") (auto simp: entry_ok_def)
  qed (rule f(2))
  show "look m' (Suc n) b va = look m (Suc n) b va" if va: "idx (Suc n) va \<notin> K"
  proof (cases "idx (Suc n) va = i")
    case True
    then show ?thesis using e' fi look_zero [of m' c n va] c(3) by simp
  next
    case False
    let ?j = "idx (Suc n) va"
    from f(5) va have "entry_ok (tab n {} m) (m (b + 8 * ?j)) (f ?j)" by simp
    then show ?thesis
      by (cases rule: entry_ok_cases) (use False va eq look_cong [OF _ sub] in \<open>simp_all\<close>)
  qed
qed

subsection \<open>Pages in use\<close>

definition pages :: "'a machine \<Rightarrow> pgds" where
  "pages s = page_descriptors (pgalloc s)"

text \<open>The window addresses of the pages that are not available.\<close>

definition owned :: "pgds \<Rightarrow> virt_addr set" where
  "owned pds = {b. \<exists>k < length pds. ptype (pds ! k) \<noteq> AVAILABLE \<and> pa_to_vpa (index_to_pa k) = Some b}"

lemma index_to_pa_unat: "k < 2 ^ 52 \<Longrightarrow> unat (index_to_pa k) = k * 4096"
  by (simp add: index_to_pa_def pfn_to_pa_def page_bits_def push_bit_eq_mult unat_word_ariths unat_of_nat take_bit_nat_eq_self)

lemma page_base_index [simp]: "page_base (index_to_pa k) = index_to_pa k"
  by (rule bit_word_eqI) (auto simp: bit_page_base index_to_pa_def pfn_to_pa_def page_bits_def bit_simps)

lemma entry_base_index [simp]: "entry_base (index_to_pa k) = index_to_pa k"
  by (simp add: entry_base_page_base)

lemma index_to_pa_inj: "j < 2 ^ 52 \<Longrightarrow> k < 2 ^ 52 \<Longrightarrow> index_to_pa j = index_to_pa k \<longleftrightarrow> j = k"
  by (metis index_to_pa_unat mult_cancel2 zero_neq_numeral)

lemma pa_to_vpa_inj: "pa_to_vpa p = Some b \<Longrightarrow> pa_to_vpa q = Some b \<Longrightarrow> p = q"
  by (auto simp: pa_to_vpa_def bind_eq_Some_iff)

lemma owned_aligned: "b \<in> owned pds \<Longrightarrow> aligned b"
  unfolding owned_def using vpa_aligned [where pa = "index_to_pa k" for k] by auto

lemma owned_alloc:
  assumes "types pds' = types (mark i 1 ALLOCATED pds)" "i < length pds" "ptype (pds ! i) = AVAILABLE"
    "length pds \<le> 2 ^ 52" "pa_to_vpa (index_to_pa i) = Some b"
  shows "owned pds' = insert b (owned pds)" "b \<notin> owned pds"
proof -
  have len: "length pds' = length pds" and ty: "\<And>k. k < length pds \<Longrightarrow> ptype (pds' ! k) = (if k = i then ALLOCATED else ptype (pds ! k))"
    using assms(1) by (auto simp: types_eq_iff nth_mark)
  show "b \<notin> owned pds"
  proof
    assume "b \<in> owned pds"
    then obtain k where k: "k < length pds" "ptype (pds ! k) \<noteq> AVAILABLE" "pa_to_vpa (index_to_pa k) = Some b"
      by (auto simp: owned_def)
    then have "k = i" using pa_to_vpa_inj [OF k(3) assms(5)] index_to_pa_inj [of k i] assms(2,4) by simp
    then show False using k assms(3) by simp
  qed
  have "c \<in> owned pds' \<longleftrightarrow> c = b \<or> c \<in> owned pds" for c
    using assms(2,3,5) ty unfolding owned_def len by (auto split: if_splits)
  then show "owned pds' = insert b (owned pds)" by blast
qed

definition machine_ok :: "('a \<Rightarrow> pgds \<Rightarrow> bool) \<Rightarrow> 'a machine \<Rightarrow> bool" where
  "machine_ok good s \<longleftrightarrow> good (alg_state (pgalloc s)) (pages s) \<and> length (pages s) \<le> 2 ^ 52
     \<and> (0 < length (pages s) \<longrightarrow> ptype (pages s ! 0) \<noteq> AVAILABLE)"

context page_algorithm
begin

lemma allocate_phys_page:
  assumes ok: "machine_ok good s" and al: "allocate_phys (Some alg) 0 (v, s) = Some (r, v', s')"
  obtains i b where "r = Some i" "pa_to_vpa (index_to_pa i) = Some b" "aligned b" "b \<notin> owned (pages s)"
    "owned (pages s') = insert b (owned (pages s))" "mem s' = pnzero b 1 (mem s)" "machine_ok good s'"
    "index_to_pa i \<noteq> 0" "i < length (pages s)" "ptype (pages s ! i) = AVAILABLE"
    "v' = v\<lparr>page_allocations := page_allocations v @ [(i, 0)]\<rparr>"
    "types (pages s') = types (mark i 1 ALLOCATED (pages s))"
proof -
  obtain q pa where q: "alloc_pages (Some alg) 0 (pgalloc s) = Inr (q, pa)"
    using al by (auto simp: allocate_phys_def bind_eq_Some_iff outcome_option_def split: sum.splits)
  obtain i where i: "q = Some i" "all_type (pages s) i 1 AVAILABLE"
    "types (page_descriptors pa) = types (mark i 1 ALLOCATED (pages s))"
    "good (alg_state pa) (page_descriptors pa)"
    using alloc_pages_block [OF _ q] ok by (auto simp: machine_ok_def pages_def)
  obtain b where b: "pa_to_vpa (index_to_pa i) = Some b" "r = Some i" "v' = v\<lparr>page_allocations := page_allocations v @ [(i, 0)]\<rparr>"
    "s' = s\<lparr>pgalloc := pa, mem := pnzero b 1 (mem s)\<rparr>"
    using al q i(1) by (auto simp: allocate_phys_def bind_eq_Some_iff outcome_option_def)
  have i': "i < length (pages s)" "ptype (pages s ! i) = AVAILABLE" using i(2) by (auto simp: all_type_def)
  have len: "length (pages s) \<le> 2 ^ 52" using ok by (simp add: machine_ok_def)
  have "i \<noteq> 0" using ok i' by (cases "i = 0") (simp_all add: machine_ok_def)
  then have nz: "index_to_pa i \<noteq> 0" using index_to_pa_inj [of i 0] i'(1) len by (simp add: index_to_pa_def pfn_to_pa_def)
  have all: "length (page_descriptors pa) = length (pages s)"
    "\<forall>k < length (pages s). ptype (page_descriptors pa ! k) = ptype (mark i 1 ALLOCATED (pages s) ! k)"
    using i(3) by (auto simp: types_eq_iff)
  then have "ptype (page_descriptors pa ! 0) = ptype (pages s ! 0)"
    using \<open>i \<noteq> 0\<close> i'(1) all(2) [rule_format, of 0] nth_mark [of 0 "pages s" i 1 ALLOCATED] by (cases "pages s") simp_all
  moreover have "ptype (pages s ! 0) \<noteq> AVAILABLE" using ok i'(1) by (auto simp: machine_ok_def)
  ultimately have "machine_ok good s'" using b(4) i(4) len all(1) by (simp add: machine_ok_def pages_def)
  then show thesis
    using that [of i b] b i i' nz owned_alloc [OF i(3) i' len b(1)] vpa_aligned [of "index_to_pa i" b]
    by (simp add: pages_def)
qed

lemma ensure_table_tab:
  assumes ok: "machine_ok good s" and t: "tab (Suc n) K (mem s) b S" and own: "S \<subseteq> owned (pages s)"
    and i: "i \<in> tidx - K" and en: "ensure_table (Some alg) (b + 8 * i) (v, s) = Some (b', v', s')"
  obtains S' where "tab (Suc n) K (mem s') b S'" "S \<subseteq> S'" "S' \<subseteq> owned (pages s')" "(S' - S) \<inter> owned (pages s) = {}"
    "owned (pages s) \<subseteq> owned (pages s')" "machine_ok good s'" "pgt_virt_base v' = pgt_virt_base v"
    "next_free_address v' = next_free_address v"
    "entry_base (mem s' (b + 8 * i)) \<noteq> 0" "pa_to_vpa (entry_base (mem s' (b + 8 * i))) = Some b'"
    "\<forall>va. idx (Suc n) va \<notin> K \<longrightarrow> look (mem s') (Suc n) b va = look (mem s) (Suc n) b va"
    "\<forall>c \<in> owned (pages s). \<forall>j \<in> tidx. c = b \<and> j = i \<or> mem s' (c + 8 * j) = mem s (c + 8 * j)"
proof (cases "entry_base (mem s (b + 8 * i)) = 0")
  case False
  then have "v' = v" "s' = s" "pa_to_vpa (entry_base (mem s (b + 8 * i))) = Some b'"
    using en by (auto simp: ensure_table_def bind_eq_Some_iff)
  then show thesis using that [of S] assms False by simp
next
  case True
  let ?e = "\<lambda>k m. set_flag ALLOW_USER True (set_flag WRITABLE True
           (set_flag PRESENT True (set_entry_base (index_to_pa k) (m (b + 8 * i)))))"
  obtain r v1 s1 where al: "allocate_phys (Some alg) 0 (v, s) = Some (r, v1, s1)"
    using en True by (auto simp: ensure_table_def bind_eq_Some_iff)
  obtain k c where k: "r = Some k" "pa_to_vpa (index_to_pa k) = Some c" "aligned c" "c \<notin> owned (pages s)"
    "owned (pages s1) = insert c (owned (pages s))" "mem s1 = pnzero c 1 (mem s)" "machine_ok good s1"
    "index_to_pa k \<noteq> 0" "v1 = v\<lparr>page_allocations := page_allocations v @ [(k, 0)]\<rparr>"
    using allocate_phys_page [OF ok al] by metis
  have bk: "v' = v1" "b' = c" "s' = s1\<lparr>mem := (mem s1)(b + 8 * i := ?e k (mem s1))\<rparr>"
    using en True al k(1,2) by (auto simp: ensure_table_def bind_eq_Some_iff)
  have pg: "pages s' = pages s1" "machine_ok good s'" using bk(3) k(7) by (auto simp: pages_def machine_ok_def)
  have ab: "aligned b" "b \<in> S" using tab_aligned [OF t] by auto
  have cS: "c \<notin> S" "b \<noteq> c" using own k(4) ab by auto
  have cell: "mem s' (d + 8 * j) = (if d = b \<and> j = i then ?e k (mem s1) else if d = c then 0 else mem s (d + 8 * j))"
    if "aligned d" "j \<in> tidx" for d j
    using that i ab(1) cell_inject [of d b j i] pnzero_page [OF k(3), of d j "mem s"] by (auto simp: bk(3) k(6))
  have e: "mem s' (b + 8 * i) = ?e k (mem s1)" using bk(3) by simp
  have same: "\<forall>d \<in> owned (pages s). \<forall>j \<in> tidx. d = b \<and> j = i \<or> mem s' (d + 8 * j) = mem s (d + 8 * j)"
    using cell owned_aligned k(4) by auto
  have c0: "\<forall>j \<in> tidx. mem s' (c + 8 * j) = 0" using cell [OF k(3)] cS(2) by auto
  have sameS: "\<forall>d \<in> S. \<forall>j \<in> tidx. d = b \<and> j = i \<or> mem s' (d + 8 * j) = mem s (d + 8 * j)" using same own by blast
  have e': "entry_base (mem s' (b + 8 * i)) \<noteq> 0" "get_flag PRESENT (mem s' (b + 8 * i))"
    "pa_to_vpa (entry_base (mem s' (b + 8 * i))) = Some c"
    using e k(2,8) by simp_all
  note new = tab_new [OF t i True k(3) cS(1) c0 e' sameS]
  show thesis
  proof (rule that)
    show "tab (Suc n) K (mem s') b (insert c S)" by (rule new(1))
    show "\<forall>va. idx (Suc n) va \<notin> K \<longrightarrow> look (mem s') (Suc n) b va = look (mem s) (Suc n) b va"
      using new(2) by blast
    show "insert c S \<subseteq> owned (pages s')" "(insert c S - S) \<inter> owned (pages s) = {}" "owned (pages s) \<subseteq> owned (pages s')"
      using own k(4,5) pg(1) by auto
    show "pa_to_vpa (entry_base (mem s' (b + 8 * i))) = Some b'" using e'(3) bk(2) by simp
  qed (use e' same pg k(9) bk(1) in auto)
qed

lemma map_rec_tab:
  assumes "machine_ok good s" "tab n K (mem s) b S" "S \<subseteq> owned (pages s)" "idx n va \<notin> K"
    "map_rec (Some alg) n b va pa fl (v, s) = Some (v', s')"
  shows "\<exists>S'. tab n K (mem s') b S' \<and> S \<subseteq> S' \<and> S' \<subseteq> owned (pages s') \<and> (S' - S) \<inter> owned (pages s) = {}
    \<and> owned (pages s) \<subseteq> owned (pages s') \<and> machine_ok good s'
    \<and> pgt_virt_base v' = pgt_virt_base v \<and> next_free_address v' = next_free_address v
    \<and> (\<forall>c \<in> owned (pages s). \<forall>j \<in> tidx. c \<notin> S \<or> c = b \<and> j \<noteq> idx n va \<longrightarrow> mem s' (c + 8 * j) = mem s (c + 8 * j))
    \<and> (\<forall>va'. idx n va' \<notin> K \<longrightarrow> (\<exists>k \<le> n. idx k va' \<noteq> idx k va) \<longrightarrow> look (mem s') n b va' = look (mem s) n b va')
    \<and> (Present fl \<longrightarrow> (\<exists>e. look (mem s') n b va = Some (Some e) \<and> entry_base e = page_base pa
          \<and> (Writable fl \<longrightarrow> get_flag WRITABLE e) \<and> (User fl \<longrightarrow> get_flag ALLOW_USER e)))"
  using assms
proof (induction n arbitrary: K b S v s)
  case 0
  let ?i = "idx 0 va"
  have b: "aligned b" "S = {b}" using "0.prems"(2) by auto
  have s': "v' = v" "s' = s\<lparr>mem := set_leaf (b + 8 * ?i) pa fl (mem s)\<rparr>" using "0.prems"(5) by auto
  have same: "mem s' (c + 8 * j) = mem s (c + 8 * j)" if "c \<in> owned (pages s)" "j \<in> tidx" "\<not> (c = b \<and> j = ?i)" for c j
    using that cell_inject [of c b j ?i] b(1) owned_aligned [of c] by (auto simp: s' set_leaf_def Let_def)
  have bo: "b \<in> owned (pages s)" using b(2) "0.prems"(3) by simp
  have pg: "pages s' = pages s" "machine_ok good s'" using s' "0.prems"(1) by (simp_all add: pages_def machine_ok_def)
  have "look (mem s') 0 b va' = look (mem s) 0 b va'" if "idx 0 va' \<noteq> idx 0 va" for va'
    using same [OF bo, of "idx 0 va'"] that by simp
  moreover have "\<exists>e. look (mem s') 0 b va = Some (Some e) \<and> entry_base e = page_base pa
      \<and> (Writable fl \<longrightarrow> get_flag WRITABLE e) \<and> (User fl \<longrightarrow> get_flag ALLOW_USER e)" if "Present fl"
    using that by (simp add: s' set_leaf_def Let_def)
  ultimately show ?case
    using "0.prems"(3) b s'(1) pg same by (intro exI [of _ S]) auto
next
  case (Suc n)
  let ?i = "idx (Suc n) va"
  have i: "?i \<in> tidx - K" using Suc.prems(4) by simp
  obtain b' v1 s1 where en: "ensure_table (Some alg) (b + 8 * ?i) (v, s) = Some (b', v1, s1)"
    and rec: "map_rec (Some alg) n b' va pa fl (v1, s1) = Some (v', s')"
    using Suc.prems(5) by (auto simp: bind_eq_Some_iff)
  obtain S1 where S1: "tab (Suc n) K (mem s1) b S1" "S \<subseteq> S1" "S1 \<subseteq> owned (pages s1)" "(S1 - S) \<inter> owned (pages s) = {}"
    "owned (pages s) \<subseteq> owned (pages s1)" "machine_ok good s1" "pgt_virt_base v1 = pgt_virt_base v"
    "next_free_address v1 = next_free_address v" 
    and e: "entry_base (mem s1 (b + 8 * ?i)) \<noteq> 0" "pa_to_vpa (entry_base (mem s1 (b + 8 * ?i))) = Some b'"
    and look1: "\<forall>va. idx (Suc n) va \<notin> K \<longrightarrow> look (mem s1) (Suc n) b va = look (mem s) (Suc n) b va"
    and same1: "\<forall>c \<in> owned (pages s). \<forall>j \<in> tidx. c = b \<and> j = ?i \<or> mem s1 (c + 8 * j) = mem s (c + 8 * j)"
    by (rule ensure_table_tab [OF Suc.prems(1-3) i en])
  obtain b'' T where b'': "pa_to_vpa (entry_base (mem s1 (b + 8 * ?i))) = Some b''"
    and T: "get_flag PRESENT (mem s1 (b + 8 * ?i))" "tab n {} (mem s1) b'' T" "T \<subseteq> S1" "b \<notin> T"
    and up: "\<forall>m' T'. tab n {} m' b'' T' \<longrightarrow> T \<subseteq> T' \<longrightarrow> (T' - T) \<inter> S1 = {} \<longrightarrow> same_cells (mem s1) m' (S1 - T)
      \<longrightarrow> tab (Suc n) K m' b (S1 \<union> T')"
    and side: "\<forall>m' va'. same_cells (mem s1) m' (S1 - T) \<longrightarrow> idx (Suc n) va' \<notin> insert ?i K
      \<longrightarrow> look m' (Suc n) b va' = look (mem s1) (Suc n) b va'"
    by (rule tab_focus [OF S1(1) i e(1)])
  have [simp]: "b'' = b'" using b'' e(2) by simp
  have To: "T \<subseteq> owned (pages s1)" using T(3) S1(3) by blast
  obtain T' where T': "tab n {} (mem s') b' T'" "T \<subseteq> T'" "T' \<subseteq> owned (pages s')" "(T' - T) \<inter> owned (pages s1) = {}"
    "owned (pages s1) \<subseteq> owned (pages s')" "machine_ok good s'" "pgt_virt_base v' = pgt_virt_base v1"
    "next_free_address v' = next_free_address v1"
    and same2: "\<forall>c \<in> owned (pages s1). \<forall>j \<in> tidx. c \<notin> T \<or> c = b' \<and> j \<noteq> idx n va \<longrightarrow> mem s' (c + 8 * j) = mem s1 (c + 8 * j)"
    and look2: "\<forall>va'. (\<exists>k \<le> n. idx k va' \<noteq> idx k va) \<longrightarrow> look (mem s') n b' va' = look (mem s1) n b' va'"
    and found: "Present fl \<longrightarrow> (\<exists>e. look (mem s') n b' va = Some (Some e) \<and> entry_base e = page_base pa
          \<and> (Writable fl \<longrightarrow> get_flag WRITABLE e) \<and> (User fl \<longrightarrow> get_flag ALLOW_USER e))"
    using Suc.IH [OF S1(6) T(2) [simplified] To _ rec] by auto
  have same: "same_cells (mem s1) (mem s') (S1 - T)" using same2 S1(3) unfolding same_cells_def by blast
  have ab: "b \<in> S1" "b \<in> S" using tab_aligned [OF S1(1)] tab_aligned [OF Suc.prems(2)] by auto
  have eq: "mem s' (b + 8 * ?i) = mem s1 (b + 8 * ?i)" using same ab T(4) by (auto simp: same_cells_def)
  have "(T' - T) \<inter> S1 = {}" using T'(4) S1(3) by blast
  then have "tab (Suc n) K (mem s') b (S1 \<union> T')" using up T'(1,2) same by simp
  moreover have "look (mem s') (Suc n) b va' = look (mem s) (Suc n) b va'"
    if va': "idx (Suc n) va' \<notin> K" "\<exists>k \<le> Suc n. idx k va' \<noteq> idx k va" for va'
  proof (cases "idx (Suc n) va' = ?i")
    case True
    with va'(2) have "\<exists>k \<le> n. idx k va' \<noteq> idx k va" by (metis le_Suc_eq)
    with look2 have "look (mem s') n b' va' = look (mem s1) n b' va'" by blast
    then have "look (mem s') (Suc n) b va' = look (mem s1) (Suc n) b va'" using True eq e T(1) by simp
    then show ?thesis using look1 va'(1) by simp
  next
    case False
    then have "look (mem s') (Suc n) b va' = look (mem s1) (Suc n) b va'" using side same va'(1) by blast
    then show ?thesis using look1 va'(1) by (simp del: look.simps)
  qed
  moreover have "look (mem s') (Suc n) b va = look (mem s') n b' va" using eq e T(1) by simp
  moreover have "mem s' (c + 8 * j) = mem s (c + 8 * j)"
    if "c \<in> owned (pages s)" "j \<in> tidx" "c \<notin> S \<or> c = b \<and> j \<noteq> ?i" for c j
  proof -
    have c: "c \<in> owned (pages s1)" "c \<notin> T" "\<not> (c = b \<and> j = ?i)" using that S1(4,5) T(3,4) ab by blast+
    have "mem s' (c + 8 * j) = mem s1 (c + 8 * j)" using same2 c(1,2) that(2) by blast
    also have "\<dots> = mem s (c + 8 * j)" using same1 c(3) that(1,2) by blast
    finally show ?thesis .
  qed
  moreover have "S \<subseteq> S1 \<union> T'" "S1 \<union> T' \<subseteq> owned (pages s')" "(S1 \<union> T' - S) \<inter> owned (pages s) = {}"
    "owned (pages s) \<subseteq> owned (pages s')" using S1(2-5) T'(2-5) T(3) by blast+
  ultimately show ?case using found T'(6-8) S1(7,8)
    by (intro exI [of _ "S1 \<union> T'"]) (simp del: look.simps)
qed

end

subsection \<open>Address spaces\<close>

definition kernel_slots :: "u64 set" where
  "kernel_slots = {0x100, 0x1ff}"

definition user_va :: "virt_addr \<Rightarrow> bool" where
  "user_va va \<longleftrightarrow> fst (va_table_indicies va) \<notin> kernel_slots"

text \<open>
  The address spaces \<open>vs\<close> of a machine are sound when each has a tree of tables on pages that are
  in use and different address spaces have no table in common. The two slots of the kernel in
  the top-level tables are shared and not part of this.
\<close>

definition space :: "memory \<Rightarrow> vma \<Rightarrow> virt_addr set \<Rightarrow> bool" where
  "space m v S \<longleftrightarrow> tab 3 kernel_slots m (pgt_virt_base v) S"

fun spaces :: "memory \<Rightarrow> vma list \<Rightarrow> virt_addr set \<Rightarrow> bool" where
  "spaces m [] U \<longleftrightarrow> True"
| "spaces m (v # vs) U \<longleftrightarrow> (\<exists>S \<subseteq> U. space m v S \<and> spaces m vs (U - S))"

definition spaces_ok :: "('a \<Rightarrow> pgds \<Rightarrow> bool) \<Rightarrow> vma list \<Rightarrow> 'a machine \<Rightarrow> bool" where
  "spaces_ok good vs s \<longleftrightarrow> machine_ok good s \<and> spaces (mem s) vs (owned (pages s))"

lemma space_cong: "space m v S \<Longrightarrow> same_cells m m' S \<Longrightarrow> space m' v S"
  by (auto simp: space_def intro: tab_cong)

lemma spaces_mono: "spaces m vs U \<Longrightarrow> U \<subseteq> V \<Longrightarrow> spaces m vs V"
proof (induction vs arbitrary: U V)
  case (Cons v vs)
  obtain S where S: "S \<subseteq> U" "space m v S" "spaces m vs (U - S)" using Cons.prems(1) by auto
  moreover have "spaces m vs (V - S)" using Cons.IH [OF S(3)] Cons.prems(2) by blast
  ultimately show ?case using Cons.prems(2) by auto
qed simp

lemma spaces_cong: "spaces m vs U \<Longrightarrow> same_cells m m' U \<Longrightarrow> spaces m' vs U"
proof (induction vs arbitrary: U)
  case (Cons v vs)
  obtain S where S: "S \<subseteq> U" "space m v S" "spaces m vs (U - S)" using Cons.prems(1) by auto
  then have "same_cells m m' S" "same_cells m m' (U - S)" using Cons.prems(2) by (auto simp: same_cells_def)
  then show ?case using S Cons.IH [OF S(3)] space_cong [OF S(2)] by auto
qed simp

lemma spaces_look:
  assumes "spaces m vs U" "same_cells m m' U" "v \<in> set vs" "user_va va"
  shows "look m' 3 (pgt_virt_base v) va = look m 3 (pgt_virt_base v) va"
  using assms(1-3)
proof (induction vs arbitrary: U)
  case (Cons w vs)
  obtain S where S: "S \<subseteq> U" "space m w S" "spaces m vs (U - S)" using Cons.prems(1) by auto
  then have same: "same_cells m m' S" "same_cells m m' (U - S)" using Cons.prems(2) by (auto simp: same_cells_def)
  show ?case
  proof (cases "v = w")
    case True
    then show ?thesis using look_cong [OF S(2) [unfolded space_def] same(1)] assms(4)
      by (simp add: user_va_def va_table_indicies_idx)
  qed (use Cons.IH [OF S(3) same(2)] Cons.prems(3) in simp)
qed simp

lemma owned_nonzero: "b \<in> owned pds \<Longrightarrow> b \<noteq> 0"
proof
  assume "b \<in> owned pds" "b = 0"
  then obtain p where p: "PMEM_VA_START + p = 0" "p < PMEM_VA_SIZE"
    by (auto simp: owned_def pa_to_vpa_def bind_eq_Some_iff)
  then have "p = - PMEM_VA_START" by (simp add: eq_neg_iff_add_eq_0 add.commute)
  then show False using p(2) by (simp add: PMEM_VA_START_def PMEM_VA_SIZE_def PMEM_VA_END_def)
qed

lemma space_get:
  assumes "space m v S" "S \<subseteq> owned pds"
  shows "get_mapping va (v, s) = map_option (map_option (\<lambda>e. page_base e OR page_offset va)) (look (mem s) 3 (pgt_virt_base v) va)"
  using tab_aligned [OF assms(1) [unfolded space_def]] owned_nonzero [of "pgt_virt_base v" pds] assms(2)
  by (auto simp: get_mapping_look entry_base_page_base)

lemma same_page_idx: "va_table_indicies va = va_table_indicies va' \<longleftrightarrow> (\<forall>k \<le> 3. idx k va = idx k va')"
proof -
  have "k \<le> 3 \<longleftrightarrow> k = 0 \<or> k = 1 \<or> k = 2 \<or> k = 3" for k :: nat by linarith
  then show ?thesis by (auto simp: va_table_indicies_idx)
qed

context page_algorithm
begin

text \<open>
  One mapping: the address space stays sound, the mapping is found, no other mapping of this or
  of any other address space changes.
\<close>

lemma insert_mapping_spaces:
  assumes ok: "spaces_ok good (v # vs) s" and va: "user_va va" and fl: "Present fl"
    and ins: "insert_mapping (Some alg) va pa fl (v, s) = Some (v', s')"
  shows "spaces_ok good (v' # vs) s'"
    and "get_mapping va (v', s') = Some (Some (page_base pa OR page_offset va))"
    and "user_va va' \<Longrightarrow> va_table_indicies va' \<noteq> va_table_indicies va \<Longrightarrow> get_mapping va' (v', s') = get_mapping va' (v, s)"
    and "w \<in> set vs \<Longrightarrow> user_va va' \<Longrightarrow> get_mapping va' (w, s') = get_mapping va' (w, s)"
    and "next_free_address v' = next_free_address v \<and> pgt_virt_base v' = pgt_virt_base v"
proof -
  let ?b = "pgt_virt_base v"
  obtain S where mok: "machine_ok good s" and S: "S \<subseteq> owned (pages s)" "space (mem s) v S" "spaces (mem s) vs (owned (pages s) - S)"
    using ok by (auto simp: spaces_ok_def)
  have K: "idx 3 va \<notin> kernel_slots" using va by (simp add: user_va_def va_table_indicies_idx)
  have rec: "map_rec (Some alg) 3 ?b va pa fl (v, s) = Some (v', s')" using ins by (simp only: insert_mapping_rec)
  obtain S' where S': "tab 3 kernel_slots (mem s') ?b S'" "S \<subseteq> S'" "S' \<subseteq> owned (pages s')" "(S' - S) \<inter> owned (pages s) = {}"
    "owned (pages s) \<subseteq> owned (pages s')" "machine_ok good s'" "pgt_virt_base v' = ?b" "next_free_address v' = next_free_address v"
    and same: "\<forall>c \<in> owned (pages s). \<forall>j \<in> tidx. c \<notin> S \<or> c = ?b \<and> j \<noteq> idx 3 va \<longrightarrow> mem s' (c + 8 * j) = mem s (c + 8 * j)"
    and other: "\<forall>va'. idx 3 va' \<notin> kernel_slots \<longrightarrow> (\<exists>k \<le> 3. idx k va' \<noteq> idx k va) \<longrightarrow> look (mem s') 3 ?b va' = look (mem s) 3 ?b va'"
    and found: "\<exists>e. look (mem s') 3 ?b va = Some (Some e) \<and> entry_base e = page_base pa"
    using map_rec_tab [OF mok S(2) [unfolded space_def] S(1) K rec] fl by metis
  have sp: "space (mem s') v' S'" using S'(1,7) by (simp add: space_def)
  have sm: "same_cells (mem s) (mem s') (owned (pages s) - S)" using same unfolding same_cells_def by blast
  have "owned (pages s) - S \<subseteq> owned (pages s') - S'" using S'(4,5) by blast
  then have "spaces (mem s') vs (owned (pages s') - S')" using spaces_mono spaces_cong [OF S(3) sm] by blast
  then show "spaces_ok good (v' # vs) s'" using S'(3,6) sp by (auto simp: spaces_ok_def)
  note get' = space_get [OF sp S'(3)] and get = space_get [OF S(2,1)]
  show "get_mapping va (v', s') = Some (Some (page_base pa OR page_offset va))"
    using found S'(7) by (auto simp: get' entry_base_page_base)
  show "get_mapping va' (v', s') = get_mapping va' (v, s)" if "user_va va'" "va_table_indicies va' \<noteq> va_table_indicies va"
  proof -
    have "idx 3 va' \<notin> kernel_slots" using that(1) by (simp add: user_va_def va_table_indicies_idx)
    moreover have "\<exists>k \<le> 3. idx k va' \<noteq> idx k va" using that(2) by (simp only: same_page_idx) blast
    ultimately show ?thesis using other S'(7) by (simp add: get' get)
  qed
  show "get_mapping va' (w, s') = get_mapping va' (w, s)" if "w \<in> set vs" "user_va va'"
    using spaces_look [OF S(3) sm that] by (simp add: get_mapping_look)
  show "next_free_address v' = next_free_address v \<and> pgt_virt_base v' = pgt_virt_base v" using S'(7,8) by simp
qed

end

subsection \<open>Contiguous allocations\<close>

lemma same_page_unat:
  assumes "va_table_indicies x = va_table_indicies y"
  shows "unat x div 4096 mod 2 ^ 36 = unat y div 4096 mod 2 ^ 36"
proof -
  have bits: "bit x n = bit y n" if "12 \<le> n" "n < 48" for n
  proof -
    let ?k = "(n - 12) div 9" and ?j = "(n - 12) mod 9"
    have "?k \<le> 3" using that by (simp add: less_mult_imp_div_less)
    then have "idx ?k x = idx ?k y" using assms same_page_idx by blast
    then have "bit (idx ?k x) ?j = bit (idx ?k y) ?j" by simp
    moreover have "bit (idx ?k z) ?j = bit z n" for z
    proof -
      have "12 + 9 * ?k + ?j = n" "?j < 9" "?j < 64" using that(1) mod_less_divisor [of 9 "n - 12"] by simp_all
      then show ?thesis by (simp add: idx_def BITS_def bit_simps)
    qed
    ultimately show ?thesis by simp
  qed
  have "take_bit 36 (drop_bit 12 x) = take_bit 36 (drop_bit 12 y)"
    by (rule bit_word_eqI) (auto simp: bit_simps bits)
  then have "unat (take_bit 36 (drop_bit 12 x)) = unat (take_bit 36 (drop_bit 12 y))" by simp
  then show ?thesis by (simp add: take_bit_eq_mod drop_bit_eq_div unat_div_distrib unat_mod_distrib)
qed

lemma mod_shift_inj:
  assumes "(c + j) mod m = (c + k) mod m" "j < m" "k < (m :: nat)"
  shows "j = k"
proof -
  have le: "y - x = 0" if "(c + y) mod m = (c + x) mod m" "x \<le> y" "y < m" for x y
  proof -
    have "m dvd (c + y) - (c + x)" using mod_eq_dvd_iff_nat [of "c + x" "c + y" m] that(1,2) by simp
    then have "m dvd y - x" by simp
    then show ?thesis using that(3) by (meson dvd_imp_le le_less_trans less_irrefl diff_le_self not_gr0 leD)
  qed
  show ?thesis
  proof (cases "j \<le> k")
    case True
    then show ?thesis using le [OF assms(1) [symmetric] True assms(3)] by linarith
  next
    case False
    then have "k \<le> j" by linarith
    from le [OF assms(1) this assms(2)] False show ?thesis by linarith
  qed
qed

lemma pages_distinct:
  assumes "va_table_indicies (va + of_nat j * 0x1000) = va_table_indicies (va + of_nat k * 0x1000)" "j < 2 ^ 36" "k < 2 ^ 36"
  shows "j = k"
proof -
  have u: "unat (va + of_nat k * 0x1000) div 4096 mod 2 ^ 36 = (unat va div 4096 + k) mod 2 ^ 36" if "k < 2 ^ 36" for k
  proof -
    have "unat (va + of_nat k * 0x1000) = (unat va + k * 4096) mod 2 ^ 64"
      using that by (simp add: unat_word_ariths unat_of_nat mod_simps)
    also have "\<dots> div 4096 = (unat va + k * 4096) div 4096 mod 2 ^ 52"
      using mod_mult2_eq [of "unat va + k * 4096" 4096 "2 ^ 52"] by simp
    finally show ?thesis by (simp add: mod_mod_cancel add.commute)
  qed
  have "(unat va div 4096 + j) mod 2 ^ 36 = (unat va div 4096 + k) mod 2 ^ 36"
    using same_page_unat [OF assms(1)] u [OF assms(2)] u [OF assms(3)] by simp
  then show ?thesis using assms(2,3) by (rule mod_shift_inj)
qed

lemma index_to_pa_Suc: "index_to_pa i + 0x1000 = index_to_pa (Suc i)"
  by (simp add: index_to_pa_def pfn_to_pa_def page_bits_def push_bit_eq_mult algebra_simps)

context page_algorithm
begin

lemma map_pages_spaces:
  assumes "spaces_ok good (v # vs) s" "map_pages (Some alg) n va (index_to_pa i) (v, s) = Some (v', s')"
    "n \<le> 2 ^ 36" "\<forall>k < n. user_va (va + of_nat k * 0x1000)"
  shows "spaces_ok good (v' # vs) s'
    \<and> (\<forall>k < n. get_mapping (va + of_nat k * 0x1000) (v', s') = Some (Some (index_to_pa (i + k) OR page_offset va)))
    \<and> (\<forall>va'. user_va va' \<longrightarrow> (\<forall>k < n. va_table_indicies va' \<noteq> va_table_indicies (va + of_nat k * 0x1000))
          \<longrightarrow> get_mapping va' (v', s') = get_mapping va' (v, s))
    \<and> (\<forall>w \<in> set vs. \<forall>va'. user_va va' \<longrightarrow> get_mapping va' (w, s') = get_mapping va' (w, s))
    \<and> next_free_address v' = next_free_address v"
  using assms
proof (induction n arbitrary: va i v s)
  case (Suc n)
  obtain v1 s1 where ins: "insert_mapping (Some alg) va (index_to_pa i) \<lparr>Present = True, User = True, Writable = True\<rparr> (v, s) = Some (v1, s1)"
    and rest: "map_pages (Some alg) n (va + 0x1000) (index_to_pa (Suc i)) (v1, s1) = Some (v', s')"
    using Suc.prems(2) by (auto simp: bind_eq_Some_iff index_to_pa_Suc)
  have u: "user_va va" using Suc.prems(4) [rule_format, of 0] by simp
  note one = insert_mapping_spaces [OF Suc.prems(1) u _ ins, simplified]
  have sh: "va + 0x1000 + of_nat k * 0x1000 = va + of_nat (Suc k) * 0x1000" for k by (simp add: algebra_simps)
  have po: "page_offset (va + 0x1000) = page_offset va"
    by (simp add: page_offset_mask take_bit_eq_mod word_unat_eq_iff unat_mod_distrib unat_word_ariths mod_mod_cancel)
  have pre: "n \<le> 2 ^ 36" using Suc.prems(3) by simp
  have usr: "\<forall>k < n. user_va (va + 0x1000 + of_nat k * 0x1000)"
    using Suc.prems(4) unfolding sh by (blast intro: Suc_mono)
  note IH = Suc.IH [OF one(1) rest pre usr, unfolded sh po]
  note IH1 = IH [THEN conjunct1] and IH2 = IH [THEN conjunct2, THEN conjunct1, rule_format]
    and IH3 = IH [THEN conjunct2, THEN conjunct2, THEN conjunct1, rule_format]
    and IH4 = IH [THEN conjunct2, THEN conjunct2, THEN conjunct2, THEN conjunct1, rule_format]
    and IH5 = IH [THEN conjunct2, THEN conjunct2, THEN conjunct2, THEN conjunct2]
  have other: "\<forall>k < n. va_table_indicies va \<noteq> va_table_indicies (va + of_nat (Suc k) * 0x1000)"
  proof (intro allI impI notI)
    fix k assume "k < n" "va_table_indicies va = va_table_indicies (va + of_nat (Suc k) * 0x1000)"
    then show False using pages_distinct [of va 0 "Suc k"] Suc.prems(3) by simp
  qed
  have get: "get_mapping (va + of_nat k * 0x1000) (v', s') = Some (Some (index_to_pa (i + k) OR page_offset va))" if "k < Suc n" for k
  proof (cases k)
    case 0
    have "get_mapping va (v', s') = get_mapping va (v1, s1)" by (rule IH3 [OF u]) (use other in blast)
    then show ?thesis using one(2) 0 by simp
  next
    case (Suc l)
    then have "get_mapping (va + of_nat (Suc l) * 0x1000) (v', s') = Some (Some (index_to_pa (Suc i + l) OR page_offset va))"
      by (intro IH2) (use that Suc in simp)
    then show ?thesis using Suc by (simp only: add_Suc_right add_Suc)
  qed
  have frame: "get_mapping va' (v', s') = get_mapping va' (v, s)"
    if va': "user_va va'" "\<forall>k < Suc n. va_table_indicies va' \<noteq> va_table_indicies (va + of_nat k * 0x1000)" for va'
  proof -
    have "\<forall>k < n. va_table_indicies va' \<noteq> va_table_indicies (va + of_nat (Suc k) * 0x1000)" using va'(2) by blast
    then have "get_mapping va' (v', s') = get_mapping va' (v1, s1)" by (intro IH3 [OF va'(1)]) blast
    moreover have "va_table_indicies va' \<noteq> va_table_indicies va" using va'(2) [rule_format, of 0] by simp
    ultimately show ?thesis using one(3) [OF va'(1)] by simp
  qed
  have "next_free_address v' = next_free_address v" using IH5 one(5) by simp
  moreover have "get_mapping va' (w, s') = get_mapping va' (w, s)" if "w \<in> set vs" "user_va va'" for w va'
    using IH4 [OF that] one(4) [OF that] by simp
  ultimately show ?case using IH1 get frame by blast
qed simp

end

lemma log2ceil_1: "log2ceil 1 = 0"
  using log2ceil_least [of 1 0] by simp

lemma log2ceil_fits:
  assumes "unat (n :: u32) < 2 ^ 31" "n \<noteq> 0"
  shows "unat n \<le> 2 ^ log2ceil (scast n)"
proof -
  have "n div 2 ^ 31 = 0" using assms(1) by (simp add: word_unat_eq_iff unat_div_distrib)
  then have "\<not> bit n 31" by (simp add: bit_iff_odd)
  then have lt: "k < 31" if "bit n k" for k using that bit_imp_le_length [of n k] by (cases "k = 31") auto
  have "scast n = (ucast n :: u64)"
    by (intro bit_word_eqI) (auto simp: bit_signed_iff bit_unsigned_iff min_def dest: lt)
  moreover have "unat (ucast n :: u64) = unat n" using assms(1) by (simp add: unsigned_ucast_eq take_bit_nat_eq_self)
  moreover have "0 < (ucast n :: u64)" using assms(2) calculation(2) by (simp add: word_less_nat_alt unat_gt_0)
  ultimately show ?thesis using log2ceil_least [of "scast n" "log2ceil (scast n)"] by simp
qed

lemma unat_window:
  assumes "pa_to_vpa (index_to_pa j) = Some b" "j < 2 ^ 52"
  shows "unat b = unat PMEM_VA_START + j * 4096"
proof -
  have b: "b = PMEM_VA_START + index_to_pa j" "index_to_pa j < PMEM_VA_SIZE"
    using assms(1) by (auto simp: pa_to_vpa_def bind_eq_Some_iff)
  then have "j * 4096 < 2 ^ 32" using index_to_pa_unat [OF assms(2)]
    by (simp add: PMEM_VA_SIZE_def PMEM_VA_END_def PMEM_VA_START_def word_less_nat_alt)
  then show ?thesis unfolding b(1) index_to_pa_unat [OF assms(2), symmetric]
    by (intro unat_add_small) (simp add: PMEM_VA_START_def)
qed

lemma pnzero_owned:
  assumes c: "c \<in> owned pds" "j \<in> tidx" and b: "pa_to_vpa (index_to_pa i) = Some b" "i < 2 ^ 52"
    and av: "all_type pds i n AVAILABLE" and len: "length pds \<le> 2 ^ 52"
  shows "pnzero b n m (c + 8 * j) = m (c + 8 * j)"
proof -
  obtain k where k: "k < length pds" "ptype (pds ! k) \<noteq> AVAILABLE" "pa_to_vpa (index_to_pa k) = Some c"
    using c(1) by (auto simp: owned_def)
  have "\<not> (i \<le> k \<and> k < i + n)" using av k by (auto simp: all_type_def)
  moreover have "unat (c + 8 * j) = unat PMEM_VA_START + k * 4096 + 8 * unat j"
    using unat_cell [OF owned_aligned [OF c(1)] c(2)] unat_window [OF k(3)] k(1) len by simp
  moreover have "unat j < 512" using c(2) by (simp add: tidx_def)
  ultimately have "\<not> (unat b \<le> unat (c + 8 * j) \<and> unat (c + 8 * j) < unat b + n * 4096)"
    using unat_window [OF b] by linarith
  then show ?thesis by (auto simp: pnzero_def word_le_nat_alt)
qed

context page_algorithm
begin

lemma allocate_phys_spaces:
  assumes ok: "spaces_ok good vs s" and al: "allocate_phys (Some alg) order (v, s) = Some (r, v', s')"
  obtains i where "r = Some i" "all_type (pages s) i (2 ^ order) AVAILABLE" "spaces_ok good vs s'"
    "\<forall>w \<in> set vs. \<forall>va. user_va va \<longrightarrow> get_mapping va (w, s') = get_mapping va (w, s)"
    "v' = v\<lparr>page_allocations := page_allocations v @ [(i, order)]\<rparr>"
    "types (pages s') = types (mark i (2 ^ order) ALLOCATED (pages s))"
proof -
  have mok: "machine_ok good s" and sp: "spaces (mem s) vs (owned (pages s))" using ok by (auto simp: spaces_ok_def)
  obtain q pa where q: "alloc_pages (Some alg) order (pgalloc s) = Inr (q, pa)"
    using al by (auto simp: allocate_phys_def bind_eq_Some_iff outcome_option_def split: sum.splits)
  obtain i where i: "q = Some i" "all_type (pages s) i (2 ^ order) AVAILABLE"
    "types (page_descriptors pa) = types (mark i (2 ^ order) ALLOCATED (pages s))"
    "good (alg_state pa) (page_descriptors pa)"
    using alloc_pages_block [OF _ q] mok by (auto simp: machine_ok_def pages_def)
  obtain b where b: "pa_to_vpa (index_to_pa i) = Some b" "r = Some i" "v' = v\<lparr>page_allocations := page_allocations v @ [(i, order)]\<rparr>"
    "s' = s\<lparr>pgalloc := pa, mem := pnzero b (2 ^ order) (mem s)\<rparr>"
    using al q i(1) by (auto simp: allocate_phys_def bind_eq_Some_iff outcome_option_def)
  have len: "length (pages s) \<le> 2 ^ 52" and i': "i + 2 ^ order \<le> length (pages s)" using mok i(2) by (auto simp: machine_ok_def all_type_def)
  moreover have "(1::nat) \<le> 2 ^ order" by simp
  ultimately have lt: "i < 2 ^ 52" by linarith
  have ty: "length (page_descriptors pa) = length (pages s)"
    "\<And>k. k < length (pages s) \<Longrightarrow> ptype (pages s ! k) \<noteq> AVAILABLE \<Longrightarrow> ptype (page_descriptors pa ! k) \<noteq> AVAILABLE"
    using i(3) by (auto simp: types_eq_iff nth_mark)
  have ow: "owned (pages s) \<subseteq> owned (pages s')" using ty b(4) by (auto simp: owned_def pages_def)
  have mok': "machine_ok good s'" using mok ty i(4) b(4) by (auto simp: machine_ok_def pages_def)
  have same: "same_cells (mem s) (mem s') (owned (pages s))"
    using pnzero_owned [OF _ _ b(1) lt i(2) len] b(4) by (simp add: same_cells_def)
  have sp': "spaces (mem s') vs (owned (pages s'))" using spaces_mono [OF spaces_cong [OF sp same] ow] .
  show thesis
    using that [of i] i b mok' sp' spaces_look [OF sp same] by (simp add: spaces_ok_def pages_def get_mapping_look)
qed

lemma allocate_virt_spaces:
  assumes ok: "spaces_ok good (v # vs) s" and al: "allocate_virt (Some alg) va n (v, s) = Some (True, v', s')"
    and n: "unat n < 2 ^ 31" and usr: "\<forall>k < unat n. user_va (va + of_nat k * 0x1000)"
  shows "spaces_ok good (v' # vs) s' \<and> (\<exists>i. all_type (pages s) i (unat n) AVAILABLE
    \<and> (\<forall>k < unat n. get_mapping (va + of_nat k * 0x1000) (v', s') = Some (Some (index_to_pa (i + k) OR page_offset va))))
    \<and> (\<forall>va'. user_va va' \<longrightarrow> (\<forall>k < unat n. va_table_indicies va' \<noteq> va_table_indicies (va + of_nat k * 0x1000))
          \<longrightarrow> get_mapping va' (v', s') = get_mapping va' (v, s))
    \<and> (\<forall>w \<in> set vs. \<forall>va'. user_va va' \<longrightarrow> get_mapping va' (w, s') = get_mapping va' (w, s))
    \<and> next_free_address v' = next_free_address v"
proof -
  have n0: "n \<noteq> 0" using al by (auto simp: allocate_virt_def)
  obtain r v1 s1 where ph: "allocate_phys (Some alg) (log2ceil (scast n)) (v, s) = Some (r, v1, s1)"
    using al n0 by (auto simp: allocate_virt_def bind_eq_Some_iff)
  obtain i where i: "r = Some i" "all_type (pages s) i (2 ^ log2ceil (scast n)) AVAILABLE" "spaces_ok good (v # vs) s1"
    and g: "\<forall>w \<in> set (v # vs). \<forall>va. user_va va \<longrightarrow> get_mapping va (w, s1) = get_mapping va (w, s)"
    and v1: "v1 = v\<lparr>page_allocations := page_allocations v @ [(i, log2ceil (scast n))]\<rparr>"
    and "types (pages s1) = types (mark i (2 ^ log2ceil (scast n)) ALLOCATED (pages s))"
    by (rule allocate_phys_spaces [OF ok ph])
  have mp: "map_pages (Some alg) (unat n) va (index_to_pa i) (v1, s1) = Some (v', s')"
    using al n0 ph i(1) by (auto simp: allocate_virt_def bind_eq_Some_iff)
  have ok1: "spaces_ok good (v1 # vs) s1" using i(3) v1 by (simp add: spaces_ok_def space_def)
  have gv: "get_mapping va (v1, s1) = get_mapping va (v, s1)" for va using v1 by (simp add: get_mapping_look)
  have "unat n \<le> 2 ^ log2ceil (scast n)" using log2ceil_fits [OF n n0] .
  then have av: "all_type (pages s) i (unat n) AVAILABLE" using i(2) by (auto simp: all_type_def)
  have "unat n \<le> 2 ^ 36" using n by simp
  note m = map_pages_spaces [OF ok1 mp this usr]
  have "\<forall>va'. user_va va' \<longrightarrow> get_mapping va' (v1, s1) = get_mapping va' (v, s)" using g gv by simp
  moreover have "\<forall>w \<in> set vs. \<forall>va'. user_va va' \<longrightarrow> get_mapping va' (w, s1) = get_mapping va' (w, s)" using g by simp
  moreover have "next_free_address v1 = next_free_address v" using v1 by simp
  ultimately show ?thesis using m av by (intro conjI exI [of _ i]) simp_all
qed

end

subsection \<open>Enough memory\<close>

lemma simple_alloc_succeeds:
  assumes "all_type (page_descriptors pa) k (2 ^ order) AVAILABLE"
  shows "\<exists>p pa'. alloc_pages (Some simple_alg) order pa = Inr (Some p, pa')"
proof -
  note s = simple_search_cases [where n = "2 ^ order" and pds = "page_descriptors pa" and idx = 0]
  obtain p where "simple_search (page_descriptors pa) (2 ^ order) 0 = Inr (Some p)"
    using s assms by (auto split: sum.splits option.splits)
  then show ?thesis using s by (auto simp: alloc_pages_def simple_alg_def simple_allocate_def convert_ok)
qed

definition available :: "'a machine \<Rightarrow> nat" where
  "available s = count_list (types (pages s)) AVAILABLE"

lemma count_list_update: "i < length xs \<Longrightarrow> xs ! i = x \<Longrightarrow> y \<noteq> x \<Longrightarrow> count_list xs x = Suc (count_list (xs[i := y]) x)"
  by (induction xs arbitrary: i) (auto split: nat.splits simp: nth_Cons')

lemma types_mark_1: "i < length pds \<Longrightarrow> types (mark i (Suc 0) t pds) = (types pds)[i := t]"
  by (auto simp: nth_mark nth_list_update intro!: nth_equalityI)

abbreviation any_state :: "'a \<Rightarrow> pgds \<Rightarrow> bool" where
  "any_state \<equiv> \<lambda>st pds. True"

lemma allocate_phys_succeeds:
  assumes ok: "machine_ok any_state s" and av: "0 < available s" and len: "length (pages s) \<le> 2 ^ 20"
  shows "\<exists>i v' s'. allocate_phys (Some simple_alg) 0 (v, s) = Some (Some i, v', s')
    \<and> available s = Suc (available s') \<and> length (pages s') = length (pages s)"
proof -
  have "AVAILABLE \<in> set (types (pages s))" using av count_notin unfolding available_def by fastforce
  then obtain k where "k < length (pages s)" "ptype (pages s ! k) = AVAILABLE"
    by (auto simp: in_set_conv_nth)
  then have "all_type (page_descriptors (pgalloc s)) k (2 ^ 0) AVAILABLE" by (auto simp: all_type_def pages_def less_Suc_eq)
  then obtain i pa where al: "alloc_pages (Some simple_alg) 0 (pgalloc s) = Inr (Some i, pa)"
    using simple_alloc_succeeds by blast
  then have i: "all_type (pages s) i 1 AVAILABLE" "types (page_descriptors pa) = types (mark i 1 ALLOCATED (pages s))"
    using simple.alloc_pages_block [OF _ al] by (auto simp: pages_def)
  then have i': "i < length (pages s)" "types (pages s) ! i = AVAILABLE" by (auto simp: all_type_def)
  have "unat (index_to_pa i) < 2 ^ 32" using index_to_pa_unat [of i] i'(1) len by simp
  then obtain b where b: "pa_to_vpa (index_to_pa i) = Some b"
    by (simp add: pa_to_vpa_def PMEM_VA_SIZE_def PMEM_VA_END_def PMEM_VA_START_def word_less_nat_alt)
  have "available s = Suc (count_list (types (page_descriptors pa)) AVAILABLE)"
    using i' count_list_update [of i "types (pages s)" AVAILABLE ALLOCATED]
    by (simp add: available_def i(2) types_mark_1)
  then show ?thesis using al b arg_cong [OF i(2), of length]
    by (simp add: allocate_phys_def outcome_option_def available_def pages_def)
qed

lemma ensure_table_succeeds:
  assumes ok: "machine_ok any_state s" and t: "tab (Suc n) K (mem s) b S"
    and i: "i \<in> tidx - K" and av: "0 < available s" and len: "length (pages s) \<le> 2 ^ 20"
  shows "\<exists>b' v' s'. ensure_table (Some simple_alg) (b + 8 * i) (v, s) = Some (b', v', s')
    \<and> available s \<le> Suc (available s') \<and> length (pages s') = length (pages s)"
proof (cases "entry_base (mem s (b + 8 * i)) = 0")
  case False
  obtain b' where "pa_to_vpa (entry_base (mem s (b + 8 * i))) = Some b'"
    using tab_focus [OF t i False] by metis
  then show ?thesis using False by (simp add: ensure_table_def)
next
  case True
  obtain j v' s' where al: "allocate_phys (Some simple_alg) 0 (v, s) = Some (Some j, v', s')"
    "available s = Suc (available s')" "length (pages s') = length (pages s)"
    using allocate_phys_succeeds [OF ok av len] by metis
  moreover obtain b' where "pa_to_vpa (index_to_pa j) = Some b'"
    using al(1) by (auto simp: allocate_phys_def bind_eq_Some_iff split: option.splits)
  ultimately show ?thesis using True by (simp add: ensure_table_def available_def pages_def)
qed

lemma map_rec_succeeds:
  assumes "machine_ok any_state s" "tab n K (mem s) b S" "S \<subseteq> owned (pages s)" "idx n va \<notin> K"
    "n \<le> available s" "length (pages s) \<le> 2 ^ 20"
  shows "\<exists>r. map_rec (Some simple_alg) n b va pa fl (v, s) = Some r"
  using assms
proof (induction n arbitrary: K b S v s)
  case (Suc n)
  let ?i = "idx (Suc n) va"
  have i: "?i \<in> tidx - K" using Suc.prems(4) by simp
  obtain b' v1 s1 where en: "ensure_table (Some simple_alg) (b + 8 * ?i) (v, s) = Some (b', v1, s1)"
    "available s \<le> Suc (available s1)" "length (pages s1) = length (pages s)"
    using ensure_table_succeeds [OF Suc.prems(1,2) i] Suc.prems(5,6) by fastforce
  obtain S1 where S1: "tab (Suc n) K (mem s1) b S1" "S1 \<subseteq> owned (pages s1)" "machine_ok any_state s1"
    and e: "entry_base (mem s1 (b + 8 * ?i)) \<noteq> 0" "pa_to_vpa (entry_base (mem s1 (b + 8 * ?i))) = Some b'"
    by (rule simple.ensure_table_tab [OF Suc.prems(1-3) i en(1)])
  obtain b'' T where T: "pa_to_vpa (entry_base (mem s1 (b + 8 * ?i))) = Some b''" "tab n {} (mem s1) b'' T" "T \<subseteq> S1"
    by (rule tab_focus [OF S1(1) i e(1)])
  have "\<exists>r. map_rec (Some simple_alg) n b' va pa fl (v1, s1) = Some r"
    using Suc.IH [of s1 "{}" b' T v1] S1 T e(2) en(2,3) Suc.prems(5,6) by simp
  then show ?case using en(1) by simp
qed simp

lemma insert_mapping_memory:
  assumes "spaces_ok any_state (v # vs) s" "user_va va" "3 \<le> available s" "length (pages s) \<le> 2 ^ 20"
  shows "\<exists>v' s'. insert_mapping (Some simple_alg) va pa fl (v, s) = Some (v', s')"
proof -
  obtain S where S: "machine_ok any_state s" "S \<subseteq> owned (pages s)" "tab 3 kernel_slots (mem s) (pgt_virt_base v) S"
    using assms(1) by (auto simp: spaces_ok_def space_def)
  have "idx 3 va \<notin> kernel_slots" using assms(2) by (simp add: user_va_def va_table_indicies_idx)
  from map_rec_succeeds [OF S(1,3,2) this assms(3,4), of pa fl v] show ?thesis
    by (auto simp add: insert_mapping_rec)
qed

subsection \<open>New address spaces\<close>

lemma tab_slots:
  assumes "aligned b" "\<And>i. i \<in> tidx - K \<Longrightarrow> m (b + 8 * i) = 0"
  shows "tab (Suc n) K m b {b}" "idx (Suc n) va \<notin> K \<Longrightarrow> look m (Suc n) b va = Some None"
  using assms by (auto intro!: tab_SucI [where f = "\<lambda>_. {}"] simp: entry_ok_def)

context page_algorithm
begin

lemma vma_init_spaces:
  assumes ok: "spaces_ok good vs s" and ini: "vma_init (Some alg) s = Some (v, s1)"
    and ins: "install_default_kernel_mapping (Some t) (v, s1) = Some s2"
  shows "spaces_ok good (v # vs) s2"
    and "user_va va \<Longrightarrow> get_mapping va (v, s2) = Some None"
    and "w \<in> set vs \<Longrightarrow> user_va va \<Longrightarrow> get_mapping va (w, s2) = get_mapping va (w, s)"
    and "mem s2 (pgt_virt_base v + 8 * 0x100) = t 0x100 \<and> mem s2 (pgt_virt_base v + 8 * 0x1ff) = t 0x1ff"
proof -
  let ?v0 = "\<lparr>pgt_phys_base = 0, pgt_virt_base = 0, next_free_address = 0xfff00000000, page_allocations = []\<rparr>"
  have mok: "machine_ok good s" and sp: "spaces (mem s) vs (owned (pages s))" using ok by (auto simp: spaces_ok_def)
  obtain r v' where al: "allocate_phys (Some alg) 0 (?v0, s) = Some (r, v', s1)"
    using ini by (auto simp: vma_init_def bind_eq_Some_iff)
  obtain i b where i: "r = Some i" "pa_to_vpa (index_to_pa i) = Some b" "aligned b" "b \<notin> owned (pages s)"
    "owned (pages s1) = insert b (owned (pages s))" "mem s1 = pnzero b 1 (mem s)" "machine_ok good s1"
    using allocate_phys_page [OF mok al] by metis
  have v: "pgt_virt_base v = b" using ini al i(1,2) by (auto simp: vma_init_def bind_eq_Some_iff)
  have s2: "s2 = s1\<lparr>mem := (mem s1)(b + 8 * 0x1ff := t 0x1ff, b + 8 * 0x100 := t 0x100)\<rparr>"
    using ins v by (auto simp: install_default_kernel_mapping_def)
  have K: "0x100 \<in> tidx" "0x1ff \<in> tidx" by (simp_all add: tidx_def)
  have cell: "mem s2 (c + 8 * j) = (if c = b then 0 else mem s (c + 8 * j))"
    if "aligned c" "j \<in> tidx" "c = b \<longrightarrow> j \<notin> kernel_slots" for c j
    using that pnzero_page [OF i(3) that(1,2), of "mem s"] cell_inject [OF that(1) i(3) that(2) K(1)]
      cell_inject [OF that(1) i(3) that(2) K(2)] by (auto simp: s2 i(6) kernel_slots_def)
  have pg: "pages s2 = pages s1" "machine_ok good s2" using i(7) s2 by (auto simp: pages_def machine_ok_def)
  have "same_cells (mem s) (mem s2) (owned (pages s))"
    unfolding same_cells_def
  proof (intro ballI)
    fix c j assume c: "c \<in> owned (pages s)" and j: "j \<in> tidx"
    then have "c \<noteq> b" using i(4) by blast
    then show "mem s2 (c + 8 * j) = mem s (c + 8 * j)" using cell [OF owned_aligned [OF c] j] by simp
  qed
  note sp' = spaces_cong [OF sp this] and look' = spaces_look [OF sp this]
  have z: "mem s2 (b + 8 * j) = 0" if "j \<in> tidx - kernel_slots" for j using cell [OF i(3)] that by simp
  have "tab (Suc (Suc (Suc 0))) kernel_slots (mem s2) b {b}" by (rule tab_slots(1) [OF i(3)]) (rule z)
  then have "space (mem s2) v {b}" by (simp add: space_def numeral_3_eq_3 v)
  moreover have "spaces (mem s2) vs (owned (pages s2) - {b})"
    using sp' by (rule spaces_mono) (use i(4,5) pg in auto)
  ultimately show "spaces_ok good (v # vs) s2" using pg i(5) by (auto simp: spaces_ok_def)
  have "b \<noteq> 0" using owned_nonzero [of b "pages s1"] i(5) by simp
  moreover have "look (mem s2) (Suc (Suc (Suc 0))) b va = Some None" if "user_va va"
    by (rule tab_slots(2) [where K = kernel_slots, OF i(3)])
      (use that z in \<open>simp_all add: user_va_def va_table_indicies_idx numeral_3_eq_3\<close>)
  ultimately show "get_mapping va (v, s2) = Some None" if "user_va va"
    using that v by (simp add: get_mapping_look numeral_3_eq_3 del: look.simps)
  show "get_mapping va (w, s2) = get_mapping va (w, s)" if "w \<in> set vs" "user_va va"
    using look' [OF that] by (simp add: get_mapping_look)
  show "mem s2 (pgt_virt_base v + 8 * 0x100) = t 0x100 \<and> mem s2 (pgt_virt_base v + 8 * 0x1ff) = t 0x1ff"
    by (simp add: s2 v)
qed

end

lemma vma_init_succeeds:
  assumes "machine_ok any_state s" "0 < available s" "length (pages s) \<le> 2 ^ 20"
  shows "\<exists>v s1. vma_init (Some simple_alg) s = Some (v, s1) \<and> available s = Suc (available s1) \<and> length (pages s1) = length (pages s)"
proof -
  let ?v0 = "\<lparr>pgt_phys_base = 0, pgt_virt_base = 0, next_free_address = 0xfff00000000, page_allocations = []\<rparr>"
  obtain i v' s' where al: "allocate_phys (Some simple_alg) 0 (?v0, s) = Some (Some i, v', s')"
    "available s = Suc (available s')" "length (pages s') = length (pages s)"
    using allocate_phys_succeeds [OF assms] by metis
  moreover obtain b where "pa_to_vpa (index_to_pa i) = Some b"
    using al(1) by (auto simp: allocate_phys_def bind_eq_Some_iff split: option.splits)
  ultimately show ?thesis by (simp add: vma_init_def)
qed

text \<open>A machine with \<open>n\<close> free pages, for the examples below.\<close>

abbreviation small_machine :: "nat \<Rightarrow> unit machine" where
  "small_machine n \<equiv> \<lparr>mem = (\<lambda>a. 0),
     pgalloc = \<lparr>page_descriptors = map page (RESERVED # replicate n AVAILABLE), alg_state = ()\<rparr>\<rparr>"

lemma small_machine_ok: "n < 2 ^ 20 \<Longrightarrow> spaces_ok any_state [] (small_machine n) \<and> available (small_machine n) = n
    \<and> length (pages (small_machine n)) \<le> 2 ^ 20"
proof -
  have "count_list (replicate n AVAILABLE) AVAILABLE = n" by (induction n) simp_all
  then show "n < 2 ^ 20 \<Longrightarrow> ?thesis" by (simp add: spaces_ok_def machine_ok_def available_def pages_def)
qed

lemma small_space:
  assumes "n < 2 ^ 20 - 1"
  shows "\<exists>v s1 s2. vma_init (Some simple_alg) (small_machine (Suc n)) = Some (v, s1)
    \<and> install_default_kernel_mapping (Some (\<lambda>i. 0)) (v, s1) = Some s2
    \<and> spaces_ok any_state [v] s2 \<and> available s2 = n \<and> length (pages s2) \<le> 2 ^ 20"
proof -
  have sm: "spaces_ok any_state [] (small_machine (Suc n))" "available (small_machine (Suc n)) = Suc n"
    "length (pages (small_machine (Suc n))) \<le> 2 ^ 20" using small_machine_ok [of "Suc n"] assms by auto
  obtain v s1 where v: "vma_init (Some simple_alg) (small_machine (Suc n)) = Some (v, s1)"
    "Suc n = Suc (available s1)" "length (pages s1) \<le> 2 ^ 20"
    using vma_init_succeeds [of "small_machine (Suc n)"] sm by (auto simp: spaces_ok_def)
  define s2 where "s2 = s1\<lparr>mem := (mem s1)(pgt_virt_base v + 8 * 0x1ff := 0, pgt_virt_base v + 8 * 0x100 := 0)\<rparr>"
  have i: "install_default_kernel_mapping (Some (\<lambda>i. 0)) (v, s1) = Some s2"
    by (simp add: install_default_kernel_mapping_def s2_def)
  have "available s2 = n" "length (pages s2) \<le> 2 ^ 20" using v(2,3) by (simp_all add: available_def pages_def s2_def)
  then show ?thesis using v(1) i simple.vma_init_spaces(1) [OF sm(1) v(1) i] by blast
qed

subsection \<open>Properties\<close>

text \<open>
  C3. Address spaces are isolated and mappings are what was asked for. When \<^verbatim>\<open>insert_mapping\<close>
  returns for a present mapping of a user address, \<^verbatim>\<open>get_mapping\<close> finds the physical page with
  the offset of the address; every other page of this address space, and every page of the other
  address spaces, is mapped as before; and the page tables of all address spaces stay disjoint
  trees on pages in use.
\<close>

theorem insert_mapping_isolated:
  assumes "spaces_ok any_state (v # vs) s" "user_va va" "Present fl"
    and "insert_mapping (Some simple_alg) va pa fl (v, s) = Some (v', s')"
  shows "spaces_ok any_state (v' # vs) s'
    \<and> get_mapping va (v', s') = Some (Some (page_base pa OR page_offset va))
    \<and> (\<forall>va'. user_va va' \<longrightarrow> va_table_indicies va' \<noteq> va_table_indicies va \<longrightarrow> get_mapping va' (v', s') = get_mapping va' (v, s))
    \<and> (\<forall>w \<in> set vs. \<forall>va'. user_va va' \<longrightarrow> get_mapping va' (w, s') = get_mapping va' (w, s))"
  using simple.insert_mapping_spaces [OF assms] by blast

theorem insert_mapping_isolated_witness:
  "\<exists>v s v' s'. spaces_ok any_state [v] s
    \<and> insert_mapping (Some simple_alg) 0x400123 0x5000 \<lparr>Present = True, User = True, Writable = False\<rparr> (v, s) = Some (v', s')
    \<and> get_mapping 0x400123 (v', s') = Some (Some 0x5123)"
proof -
  obtain v and s :: "unit machine" where s: "spaces_ok any_state [v] s" "available s = 3" "length (pages s) \<le> 2 ^ 20"
    using small_space [of 3] by auto
  have u: "user_va 0x400123" by (simp add: user_va_def va_table_indicies_def BITS_def kernel_slots_def)
  obtain v' s' where i: "insert_mapping (Some simple_alg) 0x400123 0x5000 \<lparr>Present = True, User = True, Writable = False\<rparr> (v, s) = Some (v', s')"
    using insert_mapping_memory [OF s(1) u] s(2,3) by fastforce
  have "get_mapping 0x400123 (v', s') = Some (Some 0x5123)"
    using insert_mapping_isolated [OF s(1) u _ i] by (simp add: page_base_def page_offset_def page_size_def page_bits_def)
  then show ?thesis using s(1) i by blast
qed

text \<open>
  C23. Mapping a page does not fail when there is memory for its tables: with three free pages,
  and all page frames within the window onto physical memory, \<^verbatim>\<open>insert_mapping\<close> returns.
\<close>

theorem insert_mapping_succeeds:
  assumes "spaces_ok any_state (v # vs) s" "user_va va" "3 \<le> available s" "length (pages s) \<le> 2 ^ 20"
  shows "\<exists>v' s'. insert_mapping (Some simple_alg) va pa fl (v, s) = Some (v', s')"
  using insert_mapping_memory [OF assms] by blast

theorem insert_mapping_succeeds_witness:
  "\<exists>v s v' s'. available s = 3
    \<and> insert_mapping (Some simple_alg) 0x400000 0x5000 \<lparr>Present = True, User = True, Writable = True\<rparr> (v, s) = Some (v', s')"
proof -
  obtain v and s :: "unit machine" where s: "spaces_ok any_state [v] s" "available s = 3" "length (pages s) \<le> 2 ^ 20"
    using small_space [of 3] by auto
  have u: "user_va 0x400000" by (simp add: user_va_def va_table_indicies_def BITS_def kernel_slots_def)
  from insert_mapping_succeeds [OF s(1) u _ s(3), of "0x5000" "\<lparr>Present = True, User = True, Writable = True\<rparr>"] s(2)
  show ?thesis by auto
qed

text \<open>
  C14. \<^verbatim>\<open>allocate_virt\<close> maps a range of virtual pages to consecutive physical pages that were
  available before, without changing any other mapping of this or another address space.
\<close>

theorem allocate_virt_contiguous:
  assumes "spaces_ok any_state (v # vs) s" "allocate_virt (Some simple_alg) va n (v, s) = Some (True, v', s')"
    and "unat n < 2 ^ 31" "\<forall>k < unat n. user_va (va + of_nat k * 0x1000)"
  shows "spaces_ok any_state (v' # vs) s'
    \<and> (\<exists>i. all_type (pages s) i (unat n) AVAILABLE
        \<and> (\<forall>k < unat n. get_mapping (va + of_nat k * 0x1000) (v', s') = Some (Some (index_to_pa (i + k) OR page_offset va))))
    \<and> (\<forall>va'. user_va va' \<longrightarrow> (\<forall>k < unat n. va_table_indicies va' \<noteq> va_table_indicies (va + of_nat k * 0x1000))
          \<longrightarrow> get_mapping va' (v', s') = get_mapping va' (v, s))
    \<and> (\<forall>w \<in> set vs. \<forall>va'. user_va va' \<longrightarrow> get_mapping va' (w, s') = get_mapping va' (w, s))"
  using simple.allocate_virt_spaces [OF assms] by blast

theorem allocate_virt_contiguous_witness:
  "\<exists>v s v' s' i. allocate_virt (Some simple_alg) 0x400000 1 (v, s) = Some (True, v', s')
    \<and> all_type (pages s) i 1 AVAILABLE \<and> get_mapping 0x400000 (v', s') = Some (Some (index_to_pa i))"
proof -
  obtain v and s :: "unit machine" where s: "spaces_ok any_state [v] s" "available s = 4" "length (pages s) \<le> 2 ^ 20"
    using small_space [of 4] by auto
  have u: "user_va 0x400000" by (simp add: user_va_def va_table_indicies_def BITS_def kernel_slots_def)
  obtain i v1 s1 where al: "allocate_phys (Some simple_alg) 0 (v, s) = Some (Some i, v1, s1)"
    "available s = Suc (available s1)" "length (pages s1) = length (pages s)"
    using allocate_phys_succeeds [of s v] s by (auto simp: spaces_ok_def)
  obtain j where "spaces_ok any_state [v] s1" "v1 = v\<lparr>page_allocations := page_allocations v @ [(j, 0)]\<rparr>"
    by (rule simple.allocate_phys_spaces [OF s(1) al(1)])
  then have "spaces_ok any_state [v1] s1" by (simp add: spaces_ok_def space_def)
  from insert_mapping_memory [OF this u] al(2,3) s(2,3) obtain v' s' where
    "insert_mapping (Some simple_alg) 0x400000 (index_to_pa i) \<lparr>Present = True, User = True, Writable = True\<rparr> (v1, s1) = Some (v', s')"
    by fastforce
  then have a: "allocate_virt (Some simple_alg) 0x400000 1 (v, s) = Some (True, v', s')"
    using al(1) by (simp add: allocate_virt_def log2ceil_1)
  from allocate_virt_contiguous [OF s(1) a] u obtain k where
    "all_type (pages s) k 1 AVAILABLE" "get_mapping 0x400000 (v', s') = Some (Some (index_to_pa k))"
    by (auto simp: page_offset_def page_size_def page_bits_def)
  with a show ?thesis by blast
qed

text \<open>
  A new address space with the kernel mapping installed maps no user address, has the two
  entries of the kernel's template table, and leaves the other address spaces as they were.
\<close>

theorem new_space_empty:
  assumes "spaces_ok any_state vs s" "vma_init (Some simple_alg) s = Some (v, s1)"
    and "install_default_kernel_mapping (Some t) (v, s1) = Some s2"
  shows "spaces_ok any_state (v # vs) s2
    \<and> (\<forall>va. user_va va \<longrightarrow> get_mapping va (v, s2) = Some None)
    \<and> (\<forall>w \<in> set vs. \<forall>va. user_va va \<longrightarrow> get_mapping va (w, s2) = get_mapping va (w, s))
    \<and> mem s2 (pgt_virt_base v + 8 * 0x100) = t 0x100 \<and> mem s2 (pgt_virt_base v + 8 * 0x1ff) = t 0x1ff"
  using simple.vma_init_spaces [OF assms] by blast

theorem new_space_empty_witness:
  "\<exists>v s1 s2. vma_init (Some simple_alg) (small_machine 4) = Some (v, s1)
    \<and> install_default_kernel_mapping (Some (\<lambda>i. 0)) (v, s1) = Some s2 \<and> get_mapping 0x400000 (v, s2) = Some None"
proof -
  have u: "user_va 0x400000" by (simp add: user_va_def va_table_indicies_def BITS_def kernel_slots_def)
  obtain v s1 s2 where v: "vma_init (Some simple_alg) (small_machine (Suc 3)) = Some (v, s1)"
    "install_default_kernel_mapping (Some (\<lambda>i. 0)) (v, s1) = Some s2" using small_space [of 3] by auto
  have "get_mapping 0x400000 (v, s2) = Some None"
    using new_space_empty [OF small_machine_ok [THEN conjunct1] v] u by simp
  then show ?thesis using v by auto
qed

end
