(* ===== verification/Sched.thy ===== *)
theory Sched
  imports Prelude
begin

text \<open>
  Time, scheduling and waiting: \<^verbatim>\<open>util/time.h\<close>, the clock of \<^verbatim>\<open>kernel/kernel.cpp\<close>, the scheduler of
  \<^verbatim>\<open>kernel/sched.cpp\<close> with the algorithm of \<^verbatim>\<open>kernel/sched-cfs.cpp\<close>, and the mutexes, wake queues
  and events of \<^verbatim>\<open>util/lock.cpp\<close>, \<^verbatim>\<open>util/wakequeue.cpp\<close> and \<^verbatim>\<open>util/event.cpp\<close> that threads wait on.

  Scheduling entities (threads) are numbers, the indices of a list. Operations run to completion
  one after the other; a mutex that an operation finds locked is held by that operation itself,
  so waiting for it never ends (\<open>Never_returns\<close>).
\<close>

subsection \<open>Durations and points in time\<close>

text \<open>Both are a 64-bit count. The subtraction of durations has its operands reversed.\<close>

type_synonym duration = u64
type_synonym timepoint = u64

definition duration_minus :: "duration \<Rightarrow> duration \<Rightarrow> duration" where
  "duration_minus l r = r - l"

definition timepoint_minus :: "timepoint \<Rightarrow> timepoint \<Rightarrow> duration" where
  "timepoint_minus lhs rhs = duration_minus rhs lhs"

definition milliseconds_to_ns :: "duration \<Rightarrow> duration" where
  "milliseconds_to_ns ms = ms * 1000000 div 1"

record time_of_day =
  hours :: u16
  minutes :: u16
  seconds :: u16
  day :: u16
  month :: u16
  year :: u16

definition increment_tod :: "time_of_day \<Rightarrow> time_of_day" where
  "increment_tod t =
     (let t = t\<lparr>seconds := seconds t + 1\<rparr>
      in if 59 < seconds t then
           let t = t\<lparr>seconds := 0, minutes := minutes t + 1\<rparr>
           in if 59 < minutes t then
                let t = t\<lparr>minutes := 0, hours := hours t + 1\<rparr>
                in if 23 < hours t then t\<lparr>hours := 0\<rparr> else t
              else t
         else t)"

function tod_loop :: "duration \<Rightarrow> time_of_day \<Rightarrow> duration \<times> time_of_day" where
  "tod_loop ticks t = (if 1000000000 < ticks then tod_loop (ticks - 1000000000) (increment_tod t) else (ticks, t))"
  by pat_completeness auto
termination
proof (relation "measure (\<lambda>(ticks, t). unat ticks)", simp, clarsimp)
  fix ticks :: u64 assume "1000000000 < ticks"
  then show "unat (ticks - 1000000000) < unat ticks" by unat_arith
qed

declare tod_loop.simps [simp del]

subsection \<open>Mutexes, wake queues and entities\<close>

record mutex =
  mtx_locked :: bool
  mtx_owner :: "nat option"

record wake_queue =
  waiters :: "nat list"
  wq_lock :: mutex

definition free_queue :: wake_queue where
  "free_queue = \<lparr>waiters = [], wq_lock = \<lparr>mtx_locked = False, mtx_owner = None\<rparr>\<rparr>"

datatype sched_state = STOPPED | SLEEPING | RUNNABLE | RUNNING

datatype sched_priority = REALTIME | INTERACTIVE | NORMAL_PRIORITY | DAEMON

record entity =
  cpu_runtime :: duration
  exec_start_time :: timepoint
  estate :: sched_state
  priority :: sched_priority

text \<open>The wake queues of the kernel: of the state of an entity, of a process, of a futex, and of the input of a terminal.\<close>

datatype queue_id = State_changed nat | Process_changed nat | Futex nat u64 | Terminal_input nat

text \<open>
  The state: the fields of \<^verbatim>\<open>Scheduler\<close>, the run queue of the algorithm, the clock of \<^verbatim>\<open>Kernel\<close> and
  the current thread of the processor.
\<close>

record sched =
  active :: bool
  has_algorithm :: bool
  runqueue :: "nat list"
  current :: "nat option"
  idle_entity :: nat
  entities :: "entity list"
  queues :: "queue_id \<Rightarrow> wake_queue"
  runtime :: timepoint
  ticks_since_tod :: duration
  tod :: time_of_day
  current_thread :: "nat option"

definition upd_entity :: "nat \<Rightarrow> (entity \<Rightarrow> entity) \<Rightarrow> sched \<Rightarrow> sched" where
  "upd_entity e f s = s\<lparr>entities := (entities s)[e := f (entities s ! e)]\<rparr>"

definition upd_queue :: "queue_id \<Rightarrow> (wake_queue \<Rightarrow> wake_queue) \<Rightarrow> sched \<Rightarrow> sched" where
  "upd_queue q f s = s\<lparr>queues := (queues s)(q := f (queues s q))\<rparr>"

abbreviation state_of :: "sched \<Rightarrow> nat \<Rightarrow> sched_state" where
  "state_of s e \<equiv> estate (entities s ! e)"

definition mutex_lock :: "nat option \<Rightarrow> mutex \<Rightarrow> mutex outcome" where
  "mutex_lock me m = (if mtx_locked m then Inl Never_returns else Inr \<lparr>mtx_locked = True, mtx_owner = me\<rparr>)"

definition mutex_unlock :: "mutex \<Rightarrow> mutex" where
  "mutex_unlock m = m\<lparr>mtx_locked := False\<rparr>"

definition locked_by_me :: "nat option \<Rightarrow> mutex \<Rightarrow> bool" where
  "locked_by_me me m \<longleftrightarrow> mtx_locked m \<and> mtx_owner m = me"

definition lock_queue :: "queue_id \<Rightarrow> sched \<Rightarrow> sched outcome" where
  "lock_queue q s = map_sum id (\<lambda>m. upd_queue q (\<lambda>w. w\<lparr>wq_lock := m\<rparr>) s) (mutex_lock (current_thread s) (wq_lock (queues s q)))"

definition unlock_queue :: "queue_id \<Rightarrow> sched \<Rightarrow> sched" where
  "unlock_queue q s = upd_queue q (\<lambda>w. w\<lparr>wq_lock := mutex_unlock (wq_lock w)\<rparr>) s"

subsection \<open>The scheduling algorithm\<close>

definition add_to_runqueue :: "nat \<Rightarrow> sched \<Rightarrow> sched" where
  "add_to_runqueue e s = s\<lparr>runqueue := runqueue s @ [e]\<rparr>"

definition remove_from_runqueue :: "nat \<Rightarrow> sched \<Rightarrow> sched" where
  "remove_from_runqueue e s = s\<lparr>runqueue := remove1 e (runqueue s)\<rparr>"

fun min_loop :: "(nat \<Rightarrow> duration) \<Rightarrow> nat list \<Rightarrow> nat option \<Rightarrow> duration \<Rightarrow> nat option" where
  "min_loop rt [] best min_runtime = best"
| "min_loop rt (e # es) best min_runtime =
     (if best = None \<or> rt e < min_runtime then min_loop rt es (Some e) (rt e)
      else min_loop rt es best min_runtime)"

abbreviation runtime_of :: "sched \<Rightarrow> nat \<Rightarrow> duration" where
  "runtime_of s e \<equiv> cpu_runtime (entities s ! e)"

definition pick_next_entity :: "sched \<Rightarrow> nat option" where
  "pick_next_entity s =
     (if length (runqueue s) = 0 then None
      else if length (runqueue s) = 1 then Some (hd (runqueue s))
      else min_loop (runtime_of s) (runqueue s) None 0)"

subsection \<open>The scheduler\<close>

definition activate :: "nat \<Rightarrow> nat option \<Rightarrow> sched \<Rightarrow> (bool \<times> sched) outcome" where
  "activate e prev s =
     (if state_of s e \<noteq> RUNNABLE then Inl Assertion_failure
      else if prev = Some e then Inr (True, s)
      else Inr (True, s\<lparr>current_thread := Some e\<rparr>))"

definition schedule :: "sched \<Rightarrow> sched outcome" where
  "schedule s =
     (if \<not> active s then Inr s
      else if \<not> has_algorithm s then Inr s
      else
        let next = (case pick_next_entity s of None \<Rightarrow> idle_entity s | Some e \<Rightarrow> e)
        in case (if Some next \<noteq> current s then
                   case activate next (current s) s of
                     Inl f \<Rightarrow> Inl f
                   | Inr (True, s) \<Rightarrow> Inr (s\<lparr>current := Some next\<rparr>)
                   | Inr (False, s) \<Rightarrow>
                       (case activate (idle_entity s) (current s) s of
                          Inl f \<Rightarrow> Inl f
                        | Inr (False, s) \<Rightarrow> Inl Assertion_failure
                        | Inr (True, s) \<Rightarrow> Inr (s\<lparr>current := Some (idle_entity s)\<rparr>))
                 else Inr s) of
             Inl f \<Rightarrow> Inl f
           | Inr s \<Rightarrow>
               (case current s of
                  None \<Rightarrow> Inl Null_dereference
                | Some c \<Rightarrow> Inr (upd_entity c (\<lambda>e. e\<lparr>exec_start_time := runtime s\<rparr>) s)))"

definition update_accounting :: "sched \<Rightarrow> sched" where
  "update_accounting s =
     (case current s of
        None \<Rightarrow> s
      | Some c \<Rightarrow>
          let now = runtime s;
              delta = timepoint_minus now (exec_start_time (entities s ! c))
          in upd_entity c (\<lambda>e. e\<lparr>cpu_runtime := cpu_runtime e + delta, exec_start_time := now\<rparr>) s)"

definition update_runtime :: "duration \<Rightarrow> sched \<Rightarrow> sched" where
  "update_runtime ticks s =
     (let (rest, t) = tod_loop (ticks_since_tod s + ticks) (tod s)
      in s\<lparr>runtime := runtime s + ticks, ticks_since_tod := rest, tod := t\<rparr>)"

text \<open>The interrupt of the timer, every 10 milliseconds.\<close>

definition lapic_timer_irq_handler :: "sched \<Rightarrow> sched outcome" where
  "lapic_timer_irq_handler s = schedule (update_accounting (update_runtime (milliseconds_to_ns 10) s))"

text \<open>\<^verbatim>\<open>invoke_kernel_syscall\<close>: system call 1 yields the processor, others are only logged.\<close>

definition kernel_syscall_handler :: "nat \<Rightarrow> sched \<Rightarrow> sched outcome" where
  "kernel_syscall_handler nr s = (if nr = 1 then schedule s else Inr s)"

subsection \<open>State changes and wake-ups\<close>

fun wake_all :: "(nat \<Rightarrow> sched \<Rightarrow> sched outcome) \<Rightarrow> nat list \<Rightarrow> sched \<Rightarrow> sched outcome" where
  "wake_all wake_up [] s = Inr s"
| "wake_all wake_up (w # ws) s = (case wake_up w s of Inl f \<Rightarrow> Inl f | Inr s \<Rightarrow> wake_all wake_up ws s)"

definition wq_wake :: "(nat \<Rightarrow> sched \<Rightarrow> sched outcome) \<Rightarrow> queue_id \<Rightarrow> sched \<Rightarrow> sched outcome" where
  "wq_wake wake_up q s =
     (case lock_queue q s of
        Inl f \<Rightarrow> Inl f
      | Inr s \<Rightarrow>
          (case wake_all wake_up (waiters (queues s q)) s of
             Inl f \<Rightarrow> Inl f
           | Inr s \<Rightarrow> Inr (unlock_queue q (upd_queue q (\<lambda>w. w\<lparr>waiters := []\<rparr>) s))))"

text \<open>
  \<^verbatim>\<open>set_entity_state\<close> and the wake-ups it causes call each other; the first argument bounds the
  nesting.
\<close>

fun set_entity_state :: "nat \<Rightarrow> nat \<Rightarrow> sched_state \<Rightarrow> sched \<Rightarrow> sched outcome" where
  "set_entity_state 0 e st s = Inl Never_returns"
| "set_entity_state (Suc n) e st s =
     (if \<not> has_algorithm s then Inl Assertion_failure
      else if state_of s e = st then Inr s
      else
        case (if st = RUNNABLE then
                Inr (if state_of s e = STOPPED \<or> state_of s e = SLEEPING then add_to_runqueue e s else s)
              else if st = STOPPED \<or> st = SLEEPING then
                Inr (if state_of s e = RUNNABLE \<or> state_of s e = RUNNING then remove_from_runqueue e s else s)
              else if state_of s e = RUNNABLE then Inr s else Inl Assertion_failure) of
          Inl f \<Rightarrow> Inl f
        | Inr s \<Rightarrow>
            wq_wake (\<lambda>w. set_entity_state n w RUNNABLE) (State_changed e) (upd_entity e (\<lambda>x. x\<lparr>estate := st\<rparr>) s))"

text \<open>A wake-up chain passes every entity at most once, so this bound is large enough.\<close>

definition set_state :: "nat \<Rightarrow> sched_state \<Rightarrow> sched \<Rightarrow> sched outcome" where
  "set_state e st s = set_entity_state (length (entities s) + 2) e st s"

definition thread_start :: "nat \<Rightarrow> sched \<Rightarrow> sched outcome" where
  "thread_start e s = set_state e RUNNABLE s"

definition thread_wake_up :: "nat \<Rightarrow> sched \<Rightarrow> sched outcome" where
  "thread_wake_up e s = set_state e RUNNABLE s"

definition thread_sleep :: "nat \<Rightarrow> sched \<Rightarrow> sched outcome" where
  "thread_sleep e s =
     (case set_state e SLEEPING s of
        Inl f \<Rightarrow> Inl f
      | Inr s \<Rightarrow> if current_thread s = Some e then kernel_syscall_handler 1 s else Inr s)"

definition wq_sleep :: "queue_id \<Rightarrow> nat \<Rightarrow> sched \<Rightarrow> sched outcome" where
  "wq_sleep q e s =
     (case lock_queue q s of
        Inl f \<Rightarrow> Inl f
      | Inr s \<Rightarrow> thread_sleep e (unlock_queue q (upd_queue q (\<lambda>w. w\<lparr>waiters := waiters w @ [e]\<rparr>) s)))"

definition event_trigger :: "queue_id \<Rightarrow> sched \<Rightarrow> sched outcome" where
  "event_trigger q s = wq_wake thread_wake_up q s"

definition event_wait :: "queue_id \<Rightarrow> sched \<Rightarrow> sched outcome" where
  "event_wait q s = (case current_thread s of None \<Rightarrow> Inl Null_dereference | Some e \<Rightarrow> wq_sleep q e s)"

fun wake_max_loop :: "nat \<Rightarrow> queue_id \<Rightarrow> sched \<Rightarrow> sched outcome" where
  "wake_max_loop 0 q s = Inr s"
| "wake_max_loop (Suc n) q s =
     (case waiters (queues s q) of
        [] \<Rightarrow> Inr s
      | w # ws \<Rightarrow>
          (case thread_wake_up w (upd_queue q (\<lambda>x. x\<lparr>waiters := ws\<rparr>) s) of
             Inl f \<Rightarrow> Inl f
           | Inr s \<Rightarrow> wake_max_loop n q s))"

definition wq_wakeMax :: "int \<Rightarrow> queue_id \<Rightarrow> sched \<Rightarrow> sched outcome" where
  "wq_wakeMax n q s =
     (case lock_queue q s of
        Inl f \<Rightarrow> Inl f
      | Inr s \<Rightarrow> map_sum id (unlock_queue q) (wake_max_loop (nat n) q s))"

subsection \<open>Creating and starting\<close>

definition new_entity :: "sched_priority \<Rightarrow> sched \<Rightarrow> nat \<times> sched" where
  "new_entity p s =
     (length (entities s),
      s\<lparr>entities := entities s @ [\<lparr>cpu_runtime = 0, exec_start_time = 0, estate = STOPPED, priority = p\<rparr>],
        queues := (queues s)(State_changed (length (entities s)) := free_queue)\<rparr>)"

text \<open>
  \<^verbatim>\<open>Scheduler::init\<close>, given whether an algorithm is found. The main thread of the idle process is the
  first entity of the kernel.
\<close>

definition Scheduler_init :: "bool \<Rightarrow> sched \<Rightarrow> (bool \<times> sched) outcome" where
  "Scheduler_init found s =
     (let (e, s) = new_entity NORMAL_PRIORITY s;
          s = s\<lparr>idle_entity := e\<rparr>
      in if \<not> found then Inr (False, s)
         else
           let s = upd_entity e (\<lambda>x. x\<lparr>estate := RUNNABLE\<rparr>) (s\<lparr>has_algorithm := True\<rparr>)
           in case activate e None s of Inl f \<Rightarrow> Inl f | Inr (_, s) \<Rightarrow> Inr (True, s))"

definition Scheduler_run :: "sched \<Rightarrow> sched" where
  "Scheduler_run s = s\<lparr>active := True\<rparr>"

definition power_on :: "time_of_day \<Rightarrow> sched" where
  "power_on t = \<lparr>active = False, has_algorithm = False, runqueue = [], current = None, idle_entity = 0, entities = [],
     queues = (\<lambda>_. free_queue), runtime = 0, ticks_since_tod = 0, tod = t, current_thread = None\<rparr>"

subsection \<open>The clock\<close>

definition tod_valid :: "time_of_day \<Rightarrow> bool" where
  "tod_valid t \<longleftrightarrow> hours t < 24 \<and> minutes t < 60 \<and> seconds t < 60"

definition tod_seconds :: "time_of_day \<Rightarrow> nat" where
  "tod_seconds t = unat (hours t) * 3600 + unat (minutes t) * 60 + unat (seconds t)"

definition same_date :: "time_of_day \<Rightarrow> time_of_day \<Rightarrow> bool" where
  "same_date t t' \<longleftrightarrow> day t = day t' \<and> month t = month t' \<and> year t = year t'"

lemma field_carry:
  fixes x m :: u16
  assumes "x < m" "unat m < 2 ^ 16 - 1" 
  shows "m - 1 < x + 1 \<longleftrightarrow> unat x + 1 = unat m" "unat (x + 1) = unat x + 1"
proof -
  have x: "unat x < unat m" using assms(1) by (simp add: word_less_nat_alt)
  then show u: "unat (x + 1) = unat x + 1" using assms(2) by (simp add: unat_word_ariths)
  have "unat (m - 1) = unat m - 1" using x by (metis gr_implies_not0 unat_minus_one unat_0)
  then show "m - 1 < x + 1 \<longleftrightarrow> unat x + 1 = unat m" using u x by (auto simp: word_less_nat_alt)
qed

lemma increment_tod_seconds:
  assumes "tod_valid t"
  shows "tod_valid (increment_tod t) \<and> same_date (increment_tod t) t
    \<and> tod_seconds (increment_tod t) = (tod_seconds t + 1) mod 86400"
proof -
  have v: "unat (hours t) < 24" "unat (minutes t) < 60" "unat (seconds t) < 60"
    using assms by (auto simp: tod_valid_def word_less_nat_alt)
  have s: "59 < seconds t + 1 \<longleftrightarrow> unat (seconds t) = 59" "unat (seconds t + 1) = unat (seconds t) + 1"
    using field_carry [of "seconds t" 60] assms by (auto simp: tod_valid_def)
  have m: "59 < minutes t + 1 \<longleftrightarrow> unat (minutes t) = 59" "unat (minutes t + 1) = unat (minutes t) + 1"
    using field_carry [of "minutes t" 60] assms by (auto simp: tod_valid_def)
  have h: "23 < hours t + 1 \<longleftrightarrow> unat (hours t) = 23" "unat (hours t + 1) = unat (hours t) + 1"
    using field_carry [of "hours t" 24] assms by (auto simp: tod_valid_def)
  have "tod_seconds t < 86400" using v by (simp add: tod_seconds_def)
  then show ?thesis
    using v s m h by (auto simp: increment_tod_def tod_valid_def same_date_def tod_seconds_def Let_def word_less_nat_alt mod_if)
qed

lemma tod_loop_seconds:
  assumes "tod_valid t" "tod_loop ticks t = (r, t')"
  shows "tod_valid t' \<and> same_date t' t \<and> unat r \<le> 1000000000
    \<and> (\<exists>k. unat ticks = k * 1000000000 + unat r \<and> tod_seconds t' = (tod_seconds t + k) mod 86400)"
  using assms
proof (induction ticks t rule: tod_loop.induct)
  case (1 ticks t)
  show ?case
  proof (cases "1000000000 < ticks")
    case True
    have "unat (ticks - 1000000000) = unat ticks - 1000000000" using True by unat_arith
    moreover have "1000000000 < unat ticks" using True by (simp add: word_less_nat_alt)
    moreover note inc = increment_tod_seconds [OF 1(2)]
    moreover have "tod_loop (ticks - 1000000000) (increment_tod t) = (r, t')"
      using 1(3) True by (simp add: tod_loop.simps [of ticks])
    note IH = 1(1) [OF True inc [THEN conjunct1] this]
    then obtain k where k: "unat (ticks - 1000000000) = k * 1000000000 + unat r"
      "tod_seconds t' = (tod_seconds (increment_tod t) + k) mod 86400" by blast
    ultimately have "unat ticks = Suc k * 1000000000 + unat r" "tod_seconds t' = (tod_seconds t + Suc k) mod 86400"
      by (simp_all add: mod_simps)
    moreover have "tod_valid t'" "same_date t' t" "unat r \<le> 1000000000" using IH inc by (auto simp: same_date_def)
    ultimately show ?thesis by blast
  next
    case False
    have "tod_seconds t < 86400" using 1(2) by (auto simp: tod_valid_def tod_seconds_def word_less_nat_alt)
    then show ?thesis using False 1(2,3)
      by (auto simp: tod_loop.simps [of ticks] same_date_def word_less_nat_alt)
  qed
qed

lemma timepoint_minus_eq: "timepoint_minus l r = l - r"
  by (simp add: timepoint_minus_def duration_minus_def)

subsection \<open>Choosing the next entity\<close>

lemma min_loop_spec:
  assumes "b \<noteq> None \<longrightarrow> m = rt (the b)" "es \<noteq> [] \<or> b \<noteq> None"
  shows "\<exists>e. min_loop rt es b m = Some e \<and> (b = Some e \<or> e \<in> set es)
    \<and> (\<forall>x \<in> set es \<union> set_option b. rt e \<le> rt x)"
  using assms
proof (induction es arbitrary: b m)
  case (Cons x es)
  show ?case
  proof (cases "b = None \<or> rt x < m")
    case True
    then obtain e where e: "min_loop rt es (Some x) (rt x) = Some e" "x = e \<or> e \<in> set es" "\<forall>y \<in> set es \<union> {x}. rt e \<le> rt y"
      using Cons.IH [of "Some x" "rt x"] by auto
    moreover have "\<forall>y \<in> set_option b. rt e \<le> rt y" using True Cons.prems(1) e(3) by (cases b) auto
    ultimately show ?thesis using True by auto
  next
    case False
    then obtain e where e: "min_loop rt es b m = Some e" "b = Some e \<or> e \<in> set es" "\<forall>y \<in> set es \<union> set_option b. rt e \<le> rt y"
      using Cons.IH [of b m] Cons.prems(1) by auto
    moreover have "rt e \<le> rt x" using False e(3) Cons.prems(1) by (cases b) auto
    ultimately show ?thesis using False by auto
  qed
qed auto

lemma pick_next_min:
  "case pick_next_entity s of
     None \<Rightarrow> runqueue s = []
   | Some e \<Rightarrow> e \<in> set (runqueue s) \<and> (\<forall>x \<in> set (runqueue s). runtime_of s e \<le> runtime_of s x)"
proof (cases "runqueue s")
  case (Cons x xs)
  show ?thesis
  proof (cases "xs = []")
    case False
    then show ?thesis using min_loop_spec [of None 0 "runtime_of s" "runqueue s"] Cons
      by (auto simp: pick_next_entity_def)
  qed (use Cons in \<open>simp add: pick_next_entity_def\<close>)
qed (simp add: pick_next_entity_def)

subsection \<open>The invariant of the scheduler\<close>

text \<open>
  The run queue holds exactly the entities that can run, once each, apart from the idle entity.
  Waiting entities are not idle. The lock of the queue of an entity is held only while the
  entity is being made runnable, or for the entities \<open>Z\<close>, which wait for no other entity.
\<close>

definition rq_inv :: "sched \<Rightarrow> bool" where
  "rq_inv s \<longleftrightarrow> distinct (runqueue s) \<and> (\<forall>e. e \<in> set (runqueue s) \<longleftrightarrow>
     e < length (entities s) \<and> e \<noteq> idle_entity s \<and> (state_of s e = RUNNABLE \<or> state_of s e = RUNNING))"

definition queues_ok :: "nat set \<Rightarrow> sched \<Rightarrow> bool" where
  "queues_ok Z s \<longleftrightarrow> (\<forall>q. \<forall>w \<in> set (waiters (queues s q)). w < length (entities s) \<and> w \<noteq> idle_entity s)
     \<and> (\<forall>x. \<forall>w \<in> set (waiters (queues s (State_changed x))). w \<notin> Z)"

abbreviation q_locked :: "sched \<Rightarrow> queue_id \<Rightarrow> bool" where
  "q_locked s q \<equiv> mtx_locked (wq_lock (queues s q))"

definition locks_ok :: "nat set \<Rightarrow> sched \<Rightarrow> bool" where
  "locks_ok Z s \<longleftrightarrow> (\<forall>x. q_locked s (State_changed x) \<longrightarrow> x \<in> Z \<or> state_of s x = RUNNABLE)"

definition sched_ok :: "nat set \<Rightarrow> sched \<Rightarrow> bool" where
  "sched_ok Z s \<longleftrightarrow> has_algorithm s \<and> rq_inv s \<and> queues_ok Z s \<and> locks_ok Z s"

definition nonrun :: "sched \<Rightarrow> nat" where
  "nonrun s = length (filter (\<lambda>x. estate x \<noteq> RUNNABLE) (entities s))"

text \<open>What wake-ups change: states become runnable, queues become empty, nothing else.\<close>

definition kept :: "sched \<Rightarrow> sched \<Rightarrow> bool" where
  "kept s s' \<longleftrightarrow> length (entities s') = length (entities s) \<and> idle_entity s' = idle_entity s
     \<and> current s' = current s \<and> current_thread s' = current_thread s \<and> active s' = active s \<and> runtime s' = runtime s
     \<and> has_algorithm s' = has_algorithm s
     \<and> (\<forall>x. state_of s' x = state_of s x \<or> x < length (entities s) \<and> state_of s' x = RUNNABLE)
     \<and> (\<forall>x. runtime_of s' x = runtime_of s x \<and> exec_start_time (entities s' ! x) = exec_start_time (entities s ! x))
     \<and> (\<forall>q. q_locked s' q = q_locked s q)"

definition waked :: "nat set \<Rightarrow> sched \<Rightarrow> sched \<Rightarrow> bool" where
  "waked Z s s' \<longleftrightarrow> kept s s' \<and> (\<forall>x \<in> Z. state_of s' x = state_of s x) \<and> nonrun s' \<le> nonrun s
     \<and> (\<forall>q. waiters (queues s' q) = waiters (queues s q) \<or> \<not> q_locked s q \<and> waiters (queues s' q) = [])"

lemma waked_refl [simp]: "waked Z s s"
  by (simp add: waked_def kept_def)

lemma waked_trans: "waked Z s s' \<Longrightarrow> waked Z s' s'' \<Longrightarrow> waked Z s s''"
  unfolding waked_def kept_def by (elim conjE, intro conjI; metis le_trans)

lemma kept_runnable: "kept s s' \<Longrightarrow> state_of s x = RUNNABLE \<Longrightarrow> state_of s' x = RUNNABLE"
  unfolding kept_def by metis

lemma kept_trans: "kept s s' \<Longrightarrow> kept s' s'' \<Longrightarrow> kept s s''"
  unfolding kept_def by (elim conjE, intro conjI; metis)

lemma waked_kept: "waked Z s s' \<Longrightarrow> kept s s'"
  by (simp add: waked_def)

lemma waked_runnable: "waked Z s s' \<Longrightarrow> state_of s x = RUNNABLE \<Longrightarrow> state_of s' x = RUNNABLE"
  unfolding waked_def kept_def by metis

lemma waked_waiters: "waked Z s s' \<Longrightarrow> q_locked s q \<Longrightarrow> waiters (queues s' q) = waiters (queues s q)"
  unfolding waked_def by metis

lemma lock_queue_free:
  "\<not> q_locked s q \<Longrightarrow> \<exists>m. mtx_locked m \<and> lock_queue q s = Inr (upd_queue q (\<lambda>w. w\<lparr>wq_lock := m\<rparr>) s)"
  by (rule exI [of _ "\<lparr>mtx_locked = True, mtx_owner = current_thread s\<rparr>"]) (simp add: lock_queue_def mutex_lock_def)

definition wakes :: "nat set \<Rightarrow> nat \<Rightarrow> (nat \<Rightarrow> sched \<Rightarrow> sched outcome) \<Rightarrow> bool" where
  "wakes Z n f \<longleftrightarrow> (\<forall>w s. sched_ok Z s \<longrightarrow> w < length (entities s) \<longrightarrow> w \<noteq> idle_entity s \<longrightarrow> w \<notin> Z \<longrightarrow> nonrun s < n
     \<longrightarrow> (\<exists>s'. f w s = Inr s' \<and> sched_ok Z s' \<and> waked Z s s' \<and> state_of s' w = RUNNABLE))"

lemma wakesD:
  "wakes Z n f \<Longrightarrow> sched_ok Z s \<Longrightarrow> w < length (entities s) \<Longrightarrow> w \<noteq> idle_entity s \<Longrightarrow> w \<notin> Z \<Longrightarrow> nonrun s < n
    \<Longrightarrow> \<exists>s'. f w s = Inr s' \<and> sched_ok Z s' \<and> waked Z s s' \<and> state_of s' w = RUNNABLE"
  by (simp add: wakes_def)

lemma wake_all_ok:
  assumes f: "wakes Z n f"
  shows "sched_ok Z s \<Longrightarrow> \<forall>w \<in> set ws. w < length (entities s) \<and> w \<noteq> idle_entity s \<and> w \<notin> Z \<Longrightarrow> nonrun s < n \<Longrightarrow>
    \<exists>s'. wake_all f ws s = Inr s' \<and> sched_ok Z s' \<and> waked Z s s' \<and> (\<forall>w \<in> set ws. state_of s' w = RUNNABLE)"
proof (induction ws arbitrary: s)
  case (Cons w ws)
  obtain s1 where s1: "f w s = Inr s1" "sched_ok Z s1" "waked Z s s1" "state_of s1 w = RUNNABLE"
    using wakesD [OF f Cons.prems(1) _ _ _ Cons.prems(3), of w] Cons.prems(2) by auto
  have "length (entities s1) = length (entities s)" "idle_entity s1 = idle_entity s" "nonrun s1 < n"
    using s1(3) Cons.prems(3) by (auto simp: waked_def kept_def)
  then obtain s2 where s2: "wake_all f ws s1 = Inr s2" "sched_ok Z s2" "waked Z s1 s2" "\<forall>w \<in> set ws. state_of s2 w = RUNNABLE"
    using Cons.IH [OF s1(2)] Cons.prems(2) by auto
  then show ?case using s1 waked_trans [OF s1(3) s2(3)] waked_runnable [OF s2(3) s1(4)] by auto
qed simp

lemma upd_queue_simps [simp]:
  "has_algorithm (upd_queue q f s) = has_algorithm s" "runqueue (upd_queue q f s) = runqueue s"
  "entities (upd_queue q f s) = entities s" "idle_entity (upd_queue q f s) = idle_entity s"
  "current (upd_queue q f s) = current s" "current_thread (upd_queue q f s) = current_thread s"
  "active (upd_queue q f s) = active s" "runtime (upd_queue q f s) = runtime s"
  "queues (upd_queue q f s) q' = (if q' = q then f (queues s q) else queues s q')" "nonrun (upd_queue q f s) = nonrun s"
  by (simp_all add: upd_queue_def nonrun_def)

lemma sched_ok_queue:
  assumes "sched_ok Z s" "set (waiters (f (queues s q))) \<subseteq> set (waiters (queues s q))"
    and "\<And>x. q = State_changed x \<Longrightarrow> mtx_locked (wq_lock (f (queues s q))) \<Longrightarrow> x \<in> Z \<or> state_of s x = RUNNABLE"
  shows "sched_ok Z (upd_queue q f s)"
proof -
  have "rq_inv (upd_queue q f s)" using assms(1) by (simp add: sched_ok_def rq_inv_def)
  moreover have "queues_ok Z (upd_queue q f s)" using assms(1,2) by (auto simp: sched_ok_def queues_ok_def dest: subsetD)
  moreover have "locks_ok Z (upd_queue q f s)" using assms(1,3) by (auto simp: sched_ok_def locks_ok_def)
  ultimately show ?thesis using assms(1) by (simp add: sched_ok_def)
qed

lemma wq_wake_ok:
  assumes f: "wakes Z n f" and ok: "sched_ok Z s" "nonrun s < n" "\<not> q_locked s q"
    and q: "\<And>x. q = State_changed x \<Longrightarrow> x \<in> Z \<or> state_of s x = RUNNABLE"
    and Z: "set (waiters (queues s q)) \<inter> Z = {}"
  shows "\<exists>s'. wq_wake f q s = Inr s' \<and> sched_ok Z s' \<and> waked Z s s' \<and> waiters (queues s' q) = []
    \<and> (\<forall>w \<in> set (waiters (queues s q)). state_of s' w = RUNNABLE)"
proof -
  let ?ws = "waiters (queues s q)"
  obtain m where m: "mtx_locked m" "lock_queue q s = Inr (upd_queue q (\<lambda>w. w\<lparr>wq_lock := m\<rparr>) s)"
    using lock_queue_free [OF ok(3)] by blast
  let ?s1 = "upd_queue q (\<lambda>w. w\<lparr>wq_lock := m\<rparr>) s"
  have ok1: "sched_ok Z ?s1" using ok(1) q by (intro sched_ok_queue) auto
  have "\<forall>w \<in> set ?ws. w < length (entities ?s1) \<and> w \<noteq> idle_entity ?s1 \<and> w \<notin> Z"
    using ok(1) Z by (auto simp: sched_ok_def queues_ok_def)
  then obtain s2 where s2: "wake_all f ?ws ?s1 = Inr s2" "sched_ok Z s2" "waked Z ?s1 s2" "\<forall>w \<in> set ?ws. state_of s2 w = RUNNABLE"
    using wake_all_ok [OF f ok1, of ?ws] ok(2) by auto
  let ?s' = "unlock_queue q (upd_queue q (\<lambda>w. w\<lparr>waiters := []\<rparr>) s2)"
  have r: "wq_wake f q s = Inr ?s'" using m s2(1) by (simp add: wq_wake_def)
  have "x \<in> Z \<or> state_of s2 x = RUNNABLE" if "q = State_changed x" for x
    using q [OF that] waked_runnable [OF s2(3)] by auto
  then have ok': "sched_ok Z ?s'" unfolding unlock_queue_def
    using s2(2) by (intro sched_ok_queue) (auto simp: mutex_unlock_def)
  have "q_locked s2 q' = (if q' = q then True else q_locked s q')" for q' using s2(3) m(1) by (auto simp: waked_def kept_def)
  moreover have "waiters (queues s2 q') = waiters (queues s q') \<or> \<not> q_locked s q' \<and> waiters (queues s2 q') = []" if "q' \<noteq> q" for q'
    using s2(3) [unfolded waked_def, THEN conjunct2, THEN conjunct2, THEN conjunct2, rule_format, of q'] that by simp
  ultimately have "waked Z s ?s'"
    using s2(3) ok(3) by (auto simp: waked_def kept_def unlock_queue_def mutex_unlock_def)
  then show ?thesis using r ok' s2(4) by (auto simp: unlock_queue_def)
qed

lemma upd_entity_simps [simp]:
  "has_algorithm (upd_entity e f s) = has_algorithm s" "runqueue (upd_entity e f s) = runqueue s"
  "queues (upd_entity e f s) = queues s" "idle_entity (upd_entity e f s) = idle_entity s"
  "current (upd_entity e f s) = current s" "current_thread (upd_entity e f s) = current_thread s"
  "active (upd_entity e f s) = active s" "runtime (upd_entity e f s) = runtime s"
  "length (entities (upd_entity e f s)) = length (entities s)"
  "entities (upd_entity e f s) ! x = (if x = e \<and> e < length (entities s) then f (entities s ! e) else entities s ! x)"
  by (auto simp: upd_entity_def nth_list_update list_update_beyond not_less)

lemma nonrun_runnable:
  assumes "e < length (entities s)" "state_of s e \<noteq> RUNNABLE" "entities s' = (entities s)[e := (entities s ! e)\<lparr>estate := RUNNABLE\<rparr>]"
  shows "Suc (nonrun s') = nonrun s"
proof -
  let ?P = "\<lambda>x. estate x \<noteq> RUNNABLE" and ?x = "entities s ! e"
  have es: "entities s = take e (entities s) @ ?x # drop (Suc e) (entities s)" using assms(1) by (simp add: id_take_nth_drop)
  have es': "entities s' = take e (entities s) @ ?x\<lparr>estate := RUNNABLE\<rparr> # drop (Suc e) (entities s)"
    using assms(1,3) by (simp add: upd_conv_take_nth_drop)
  show ?thesis unfolding nonrun_def by (subst es, subst es') (simp add: assms(2))
qed

text \<open>The state change itself, without the wake-ups.\<close>

definition change_state :: "nat \<Rightarrow> sched_state \<Rightarrow> sched \<Rightarrow> sched" where
  "change_state e st s = upd_entity e (\<lambda>x. x\<lparr>estate := st\<rparr>)
     (if st = RUNNABLE then if state_of s e = STOPPED \<or> state_of s e = SLEEPING then add_to_runqueue e s else s
      else if state_of s e = RUNNABLE \<or> state_of s e = RUNNING then remove_from_runqueue e s else s)"

lemma set_entity_state_change:
  assumes "has_algorithm s" "state_of s e \<noteq> st" "st \<noteq> RUNNING"
  shows "set_entity_state (Suc n) e st s =
    wq_wake (\<lambda>w. set_entity_state n w RUNNABLE) (State_changed e) (change_state e st s)"
  using assms by (cases st) (auto simp: change_state_def)

lemma change_state_simps [simp]:
  "has_algorithm (change_state e st s) = has_algorithm s" "queues (change_state e st s) = queues s"
  "idle_entity (change_state e st s) = idle_entity s" "current (change_state e st s) = current s"
  "current_thread (change_state e st s) = current_thread s" "active (change_state e st s) = active s"
  "runtime (change_state e st s) = runtime s" "length (entities (change_state e st s)) = length (entities s)"
  "entities (change_state e st s) = (entities s)[e := (entities s ! e)\<lparr>estate := st\<rparr>]"
  by (auto simp: change_state_def upd_entity_def add_to_runqueue_def remove_from_runqueue_def)

lemma change_state_rq:
  assumes "rq_inv s" "e < length (entities s)" "e \<noteq> idle_entity s" "state_of s e \<noteq> st" "st \<noteq> RUNNING"
  shows "rq_inv (change_state e st s)"
proof -
  have rq: "distinct (runqueue s)" "\<And>x. x \<in> set (runqueue s) \<longleftrightarrow>
     x < length (entities s) \<and> x \<noteq> idle_entity s \<and> (state_of s x = RUNNABLE \<or> state_of s x = RUNNING)"
    using assms(1) by (auto simp: rq_inv_def)
  have "distinct (runqueue (change_state e st s)) \<and> (\<forall>x. x \<in> set (runqueue (change_state e st s)) \<longleftrightarrow>
     (if x = e then st = RUNNABLE else x \<in> set (runqueue s)))"
    using rq assms(2-5) by (cases st; cases "state_of s e")
      (auto simp: change_state_def add_to_runqueue_def remove_from_runqueue_def)
  then show ?thesis using rq(2) assms(2,3,5) unfolding rq_inv_def by (auto simp: nth_list_update)
qed

lemma sched_ok_change:
  assumes "sched_ok Z s" "e < length (entities s)" "e \<noteq> idle_entity s" "state_of s e \<noteq> st" "st \<noteq> RUNNING"
    and "st = RUNNABLE \<or> e \<in> Z \<or> \<not> q_locked s (State_changed e)"
  shows "sched_ok Z (change_state e st s)"
proof -
  have "locks_ok Z (change_state e st s)"
    using assms(1,2,6) by (auto simp: sched_ok_def locks_ok_def nth_list_update)
  moreover have "queues_ok Z (change_state e st s)" using assms(1) by (simp add: sched_ok_def queues_ok_def)
  moreover have "rq_inv (change_state e st s)" using assms by (intro change_state_rq) (auto simp: sched_ok_def)
  ultimately show ?thesis using assms(1) by (simp add: sched_ok_def)
qed

lemma wakes_set_entity_state: "wakes Z n (\<lambda>w. set_entity_state n w RUNNABLE)"
proof (induction n)
  case (Suc n)
  show ?case unfolding wakes_def
  proof (intro allI impI)
    fix e s assume ok: "sched_ok Z s" "e < length (entities s)" "e \<noteq> idle_entity s" "e \<notin> Z" "nonrun s < Suc n"
    have alg: "has_algorithm s" using ok(1) by (simp add: sched_ok_def)
    show "\<exists>s'. set_entity_state (Suc n) e RUNNABLE s = Inr s' \<and> sched_ok Z s' \<and> waked Z s s' \<and> state_of s' e = RUNNABLE"
    proof (cases "state_of s e = RUNNABLE")
      case False
      let ?s1 = "change_state e RUNNABLE s"
      have ok1: "sched_ok Z ?s1" using ok False by (intro sched_ok_change) auto
      have n1: "Suc (nonrun ?s1) = nonrun s" by (rule nonrun_runnable [OF ok(2) False]) simp
      have st1: "state_of ?s1 e = RUNNABLE" using ok(2) by simp
      have free: "\<not> q_locked ?s1 (State_changed e)" using ok(1,4) False by (auto simp: sched_ok_def locks_ok_def)
      have dis: "set (waiters (queues ?s1 (State_changed e))) \<inter> Z = {}" using ok1 by (auto simp: sched_ok_def queues_ok_def)
      have lt: "nonrun ?s1 < n" using n1 ok(5) by simp
      obtain s' where s': "wq_wake (\<lambda>w. set_entity_state n w RUNNABLE) (State_changed e) ?s1 = Inr s'" "sched_ok Z s'" "waked Z ?s1 s'"
        using wq_wake_ok [OF Suc.IH ok1 lt free _ dis] st1 by auto
      have "waked Z s ?s1" using n1 ok(2,4) by (auto simp: waked_def kept_def nth_list_update)
      then show ?thesis
        using s' set_entity_state_change [OF alg False, of n] waked_trans waked_runnable [OF s'(3) st1] by auto
    qed (use ok alg in auto)
  qed
qed (simp add: wakes_def)

text \<open>
  Between operations no wake queue is locked. The processor runs the current entity, or the idle
  entity as long as the scheduler has chosen none.
\<close>

definition sched_inv :: "sched \<Rightarrow> bool" where
  "sched_inv s \<longleftrightarrow> sched_ok {} s \<and> (\<forall>q. \<not> q_locked s q) \<and> idle_entity s < length (entities s)
     \<and> state_of s (idle_entity s) = RUNNABLE \<and> (\<forall>e < length (entities s). state_of s e \<noteq> RUNNING)
     \<and> (\<forall>c. current s = Some c \<longrightarrow> c < length (entities s))
     \<and> current_thread s = Some (case current s of None \<Rightarrow> idle_entity s | Some c \<Rightarrow> c)"

lemma nonrun_le: "nonrun s \<le> length (entities s)"
  by (simp add: nonrun_def)

lemma sched_inv_kept:
  assumes "sched_inv s" "kept s s'" "sched_ok {} s'"
  shows "sched_inv s'"
proof -
  have "state_of s' e \<noteq> RUNNING" if "e < length (entities s')" for e
    using that assms(1,2) unfolding sched_inv_def kept_def by (metis sched_state.distinct(11))
  then show ?thesis
    using assms kept_runnable [OF assms(2), of "idle_entity s"] by (auto simp: sched_inv_def kept_def cong: option.case_cong)
qed

lemma set_state_runnable:
  assumes "sched_inv s" "e < length (entities s)" "e \<noteq> idle_entity s"
  shows "\<exists>s'. set_state e RUNNABLE s = Inr s' \<and> sched_inv s' \<and> waked {} s s' \<and> state_of s' e = RUNNABLE"
proof -
  have "nonrun s < length (entities s) + 2" using nonrun_le [of s] by simp
  then obtain s' where "set_state e RUNNABLE s = Inr s'" "sched_ok {} s'" "waked {} s s'" "state_of s' e = RUNNABLE"
    using wakesD [OF wakes_set_entity_state, of "{}" s e "length (entities s) + 2"] assms
    by (auto simp: sched_inv_def set_state_def)
  then show ?thesis using sched_inv_kept [OF assms(1) waked_kept] by blast
qed

definition not_joining :: "nat \<Rightarrow> sched \<Rightarrow> bool" where
  "not_joining e s \<longleftrightarrow> (\<forall>x. e \<notin> set (waiters (queues s (State_changed x))))"

text \<open>Everything but states, the run queue and wake queues.\<close>

definition same_clock :: "sched \<Rightarrow> sched \<Rightarrow> bool" where
  "same_clock s s' \<longleftrightarrow> length (entities s') = length (entities s) \<and> idle_entity s' = idle_entity s \<and> current s' = current s
     \<and> current_thread s' = current_thread s \<and> active s' = active s \<and> runtime s' = runtime s
     \<and> (\<forall>x. runtime_of s' x = runtime_of s x)"

lemma waked_same_clock: "waked Z s s' \<Longrightarrow> same_clock s s'"
  by (simp add: waked_def kept_def same_clock_def)

lemma wq_wake_empty:
  assumes "waiters (queues s q) = []" "\<not> q_locked s q"
  shows "wq_wake f q s = Inr (upd_queue q (\<lambda>w. \<lparr>waiters = [], wq_lock = \<lparr>mtx_locked = False, mtx_owner = current_thread s\<rparr>\<rparr>) s)"
  using assms by (cases "queues s q") (simp add: wq_wake_def lock_queue_def mutex_lock_def unlock_queue_def mutex_unlock_def upd_queue_def)

lemma wake_state_changed:
  assumes inv: "sched_inv s" and e: "e < length (entities s)" "e \<noteq> idle_entity s"
    and j: "not_joining e s \<or> waiters (queues s (State_changed e)) = []"
    and st: "st = STOPPED \<or> st = SLEEPING" "state_of s e \<noteq> st"
  shows "\<exists>s' Z. wq_wake (\<lambda>w. set_entity_state (length (entities s) + 1) w RUNNABLE) (State_changed e) (change_state e st s) = Inr s'
    \<and> sched_ok Z s' \<and> waked {e} (change_state e st s) s' \<and> (\<forall>w \<in> set (waiters (queues s (State_changed e))). state_of s' w = RUNNABLE)"
proof (cases "waiters (queues s (State_changed e)) = []")
  let ?s1 = "change_state e st s" and ?q = "State_changed e"
  case True
  have free: "\<not> q_locked ?s1 ?q" using inv by (simp add: sched_inv_def)
  have "sched_ok {} ?s1" using inv e st free by (intro sched_ok_change) (auto simp: sched_inv_def)
  then have "sched_ok {} (upd_queue ?q (\<lambda>w. \<lparr>waiters = [], wq_lock = \<lparr>mtx_locked = False, mtx_owner = current_thread ?s1\<rparr>\<rparr>) ?s1)"
    by (rule sched_ok_queue) simp_all
  then show ?thesis using wq_wake_empty [of ?s1 ?q, OF _ free] True free by (auto simp: waked_def kept_def)
next
  let ?s1 = "change_state e st s" and ?q = "State_changed e" and ?n = "length (entities s) + 1"
  case False
  then have j: "not_joining e s" using j by blast
  have okZ: "sched_ok {e} s" using inv j by (auto simp: sched_inv_def sched_ok_def queues_ok_def locks_ok_def not_joining_def)
  have ok1: "sched_ok {e} ?s1" using okZ e st by (intro sched_ok_change) auto
  have "nonrun ?s1 \<le> length (entities ?s1)" by (rule nonrun_le)
  then have n1: "nonrun ?s1 < ?n" by simp
  have free: "\<not> q_locked ?s1 ?q" using inv by (simp add: sched_inv_def)
  have dis: "set (waiters (queues ?s1 ?q)) \<inter> {e} = {}" using j by (simp add: not_joining_def)
  show ?thesis using wq_wake_ok [OF wakes_set_entity_state ok1 n1 free _ dis] by auto
qed

lemma set_state_other:
  assumes inv: "sched_inv s" and e: "e < length (entities s)" "e \<noteq> idle_entity s"
    and j: "not_joining e s \<or> waiters (queues s (State_changed e)) = []"
    and st: "st = STOPPED \<or> st = SLEEPING"
  shows "\<exists>s'. set_state e st s = Inr s' \<and> sched_inv s' \<and> same_clock s s' \<and> state_of s' e = st
    \<and> (state_of s e \<noteq> st \<longrightarrow> (\<forall>w \<in> set (waiters (queues s (State_changed e))). state_of s' w = RUNNABLE))"
proof (cases "state_of s e = st")
  case True
  then have "set_state e st s = Inr s" using inv by (simp add: set_state_def sched_inv_def sched_ok_def)
  then show ?thesis using True inv by (auto simp: same_clock_def)
next
  case False
  let ?s1 = "change_state e st s" and ?n = "length (entities s) + 1" and ?q = "State_changed e"
  obtain s' Z where s': "wq_wake (\<lambda>w. set_entity_state ?n w RUNNABLE) ?q ?s1 = Inr s'" "sched_ok Z s'" "waked {e} ?s1 s'"
    "\<forall>w \<in> set (waiters (queues s ?q)). state_of s' w = RUNNABLE"
    using wake_state_changed [OF inv e j st False] by blast
  have r: "set_state e st s = Inr s'"
    using s'(1) set_entity_state_change [of s e st ?n] False inv st by (auto simp: set_state_def sched_inv_def sched_ok_def)
  have ste: "state_of s' e = st" using s'(3) e(1) by (simp add: waked_def kept_def)
  have free': "\<not> q_locked s' q" for q using s'(3) inv by (simp add: waked_def kept_def sched_inv_def)
  have ok: "sched_ok {} s'" using s'(2) free' by (auto simp: sched_ok_def queues_ok_def locks_ok_def)
  have sc: "same_clock s s'" using waked_same_clock [OF s'(3)] e(1) by (auto simp: same_clock_def nth_list_update)
  have idle: "state_of s' (idle_entity s) = RUNNABLE"
    using waked_runnable [OF s'(3), of "idle_entity s"] inv e(2) by (simp add: sched_inv_def)
  have "state_of s' x \<noteq> RUNNING" if "x < length (entities s)" for x
    using that s'(3) inv st ste unfolding sched_inv_def waked_def kept_def change_state_simps
    by (metis nth_list_update_neq sched_state.distinct(5,9,11))
  then have "sched_inv s'" using inv free' ok sc idle by (auto simp: sched_inv_def same_clock_def cong: option.case_cong)
  then show ?thesis using r ste sc s'(4) by blast
qed

subsection \<open>Operations and runs\<close>

lemma sched_ok_frame:
  assumes "sched_ok Z s" "has_algorithm s' = has_algorithm s" "runqueue s' = runqueue s" "idle_entity s' = idle_entity s"
    "length (entities s') = length (entities s)" "queues s' = queues s" "\<forall>x. state_of s' x = state_of s x"
  shows "sched_ok Z s'"
  using assms by (simp add: sched_ok_def rq_inv_def queues_ok_def locks_ok_def)

lemma sched_inv_frame:
  assumes "sched_inv s" "has_algorithm s' = has_algorithm s" "runqueue s' = runqueue s" "idle_entity s' = idle_entity s"
    "length (entities s') = length (entities s)" "queues s' = queues s" "\<forall>x. state_of s' x = state_of s x"
    and "current s' = current s \<and> current_thread s' = current_thread s
      \<or> (\<exists>c. c < length (entities s) \<and> current s' = Some c \<and> current_thread s' = Some c)"
  shows "sched_inv s'"
proof -
  have "sched_ok {} s'" by (rule sched_ok_frame [OF _ assms(2-7)]) (use assms(1) in \<open>simp add: sched_inv_def\<close>)
  then show ?thesis using assms by (auto simp: sched_inv_def cong: option.case_cong)
qed

lemma runqueue_iff:
  "sched_inv s \<Longrightarrow> e \<in> set (runqueue s) \<longleftrightarrow> e < length (entities s) \<and> e \<noteq> idle_entity s \<and> state_of s e = RUNNABLE"
  by (auto simp: sched_inv_def sched_ok_def rq_inv_def)

definition chosen :: "sched \<Rightarrow> nat" where
  "chosen s = (case pick_next_entity s of None \<Rightarrow> idle_entity s | Some e \<Rightarrow> e)"

lemma chosen_runnable:
  assumes "sched_inv s"
  shows "chosen s < length (entities s) \<and> state_of s (chosen s) = RUNNABLE"
  using pick_next_min [of s] runqueue_iff [OF assms] assms by (auto simp: chosen_def sched_inv_def split: option.splits)

lemma schedule_eq:
  assumes inv: "sched_inv s"
  shows "schedule s = Inr (if active s then
    upd_entity (chosen s) (\<lambda>e. e\<lparr>exec_start_time := runtime s\<rparr>) (s\<lparr>current := Some (chosen s), current_thread := Some (chosen s)\<rparr>) else s)"
proof -
  have alg: "has_algorithm s" using inv by (simp add: sched_inv_def sched_ok_def)
  have r: "state_of s (chosen s) = RUNNABLE" using chosen_runnable [OF inv] by simp
  have c: "s\<lparr>current := Some (chosen s), current_thread := Some (chosen s)\<rparr> = s" if "current s = Some (chosen s)"
  proof -
    have "current_thread s = Some (chosen s)" using that inv by (simp add: sched_inv_def)
    moreover have "s\<lparr>current := current s, current_thread := current_thread s\<rparr> = s" by simp
    ultimately show ?thesis using that by simp
  qed
  show ?thesis
  proof (cases "current s = Some (chosen s)")
    case True
    then show ?thesis using alg c [OF True] by (simp add: schedule_def Let_def chosen_def [symmetric])
  qed (use alg r in \<open>auto simp: schedule_def activate_def Let_def chosen_def [symmetric] upd_entity_def\<close>)
qed

lemma schedule_inv:
  assumes inv: "sched_inv s"
  shows "\<exists>s'. schedule s = Inr s' \<and> sched_inv s'"
proof -
  let ?s' = "upd_entity (chosen s) (\<lambda>e. e\<lparr>exec_start_time := runtime s\<rparr>) (s\<lparr>current := Some (chosen s), current_thread := Some (chosen s)\<rparr>)"
  have "sched_inv ?s'"
    by (rule sched_inv_frame [OF inv])
      (use chosen_runnable [OF inv] in \<open>auto simp: upd_entity_def nth_list_update\<close>)
  then show ?thesis using schedule_eq [OF inv] inv by simp
qed

lemma timer_prefix_inv:
  assumes "sched_inv s"
  shows "sched_inv (update_accounting (update_runtime t s))"
  by (rule sched_inv_frame [OF assms]) (auto simp: update_accounting_def update_runtime_def Let_def split: option.splits prod.splits)

lemma wakes_thread_wake_up: "wakes Z n thread_wake_up"
proof -
  have "nonrun s < length (entities s) + 2" for s using nonrun_le [of s] by simp
  then show ?thesis
    using wakesD [OF wakes_set_entity_state, of Z] unfolding wakes_def thread_wake_up_def set_state_def by blast
qed

abbreviation external_queue :: "queue_id \<Rightarrow> bool" where
  "external_queue q \<equiv> (case q of State_changed _ \<Rightarrow> False | _ \<Rightarrow> True)"

lemma event_trigger_ok:
  assumes inv: "sched_inv s" and q: "external_queue q"
  shows "\<exists>s'. event_trigger q s = Inr s' \<and> sched_inv s' \<and> waiters (queues s' q) = []
    \<and> (\<forall>w \<in> set (waiters (queues s q)). state_of s' w = RUNNABLE \<and> w \<in> set (runqueue s'))"
proof -
  have ok: "sched_ok {} s" "nonrun s < Suc (nonrun s)" "\<not> q_locked s q" using inv by (auto simp: sched_inv_def)
  obtain s' where s': "event_trigger q s = Inr s'" "sched_ok {} s'" "waked {} s s'" "waiters (queues s' q) = []"
    "\<forall>w \<in> set (waiters (queues s q)). state_of s' w = RUNNABLE"
    using wq_wake_ok [OF wakes_thread_wake_up ok] q by (cases q) (auto simp: event_trigger_def)
  have inv': "sched_inv s'" by (rule sched_inv_kept [OF inv waked_kept [OF s'(3)] s'(2)])
  have "w < length (entities s') \<and> w \<noteq> idle_entity s'" if "w \<in> set (waiters (queues s q))" for w
    using that inv s'(3) by (auto simp: sched_inv_def sched_ok_def queues_ok_def waked_def kept_def)
  then show ?thesis using s' inv' runqueue_iff [OF inv'] by blast
qed

text \<open>\<^verbatim>\<open>wakeMax\<close> wakes in the order in which the threads went to sleep.\<close>

lemma wake_max_loop_ok:
  assumes "sched_ok {} s" "q_locked s q"
  shows "\<exists>s'. wake_max_loop n q s = Inr s' \<and> sched_ok {} s' \<and> kept s s' \<and> waiters (queues s' q) = drop n (waiters (queues s q))
    \<and> (\<forall>w \<in> set (take n (waiters (queues s q))). state_of s' w = RUNNABLE)"
  using assms
proof (induction n arbitrary: s)
  case (Suc n)
  show ?case
  proof (cases "waiters (queues s q)")
    case (Cons w ws)
    let ?s1 = "upd_queue q (\<lambda>x. x\<lparr>waiters := ws\<rparr>) s"
    have ok1: "sched_ok {} ?s1"
      using Suc.prems Cons by (intro sched_ok_queue) (auto simp: sched_ok_def locks_ok_def)
    have "\<forall>v \<in> set (waiters (queues s q)). v < length (entities s) \<and> v \<noteq> idle_entity s"
      using Suc.prems(1) by (simp add: sched_ok_def queues_ok_def)
    then have w: "w < length (entities ?s1)" "w \<noteq> idle_entity ?s1" using Cons by auto
    have n: "nonrun ?s1 < Suc (nonrun ?s1)" by simp
    obtain s2 where s2: "thread_wake_up w ?s1 = Inr s2" "sched_ok {} s2" "waked {} ?s1 s2" "state_of s2 w = RUNNABLE"
      using wakesD [OF wakes_thread_wake_up ok1 w _ n] by blast
    have k: "kept s s2" using waked_kept [OF s2(3)] by (auto simp: kept_def)
    have q: "waiters (queues s2 q) = ws" using waked_waiters [OF s2(3), of q] Suc.prems(2) by simp
    obtain s' where s': "wake_max_loop n q s2 = Inr s'" "sched_ok {} s'" "kept s2 s'" "waiters (queues s' q) = drop n ws"
      "\<forall>w \<in> set (take n ws). state_of s' w = RUNNABLE"
      using Suc.IH [OF s2(2)] k Suc.prems(2) q by (auto simp: kept_def)
    have "kept s s'" using kept_trans [OF k s'(3)] .
    then show ?thesis using Cons s2(1) s' kept_runnable [OF s'(3) s2(4)] by auto
  qed (use Suc.prems in \<open>auto simp: kept_def\<close>)
qed (auto simp: kept_def)

lemma wq_wakeMax_ok:
  assumes inv: "sched_inv s" and q: "external_queue q"
  shows "\<exists>s'. wq_wakeMax n q s = Inr s' \<and> sched_inv s' \<and> kept s s' \<and> waiters (queues s' q) = drop (nat n) (waiters (queues s q))
    \<and> (\<forall>w \<in> set (take (nat n) (waiters (queues s q))). state_of s' w = RUNNABLE)"
proof -
  obtain m where m: "mtx_locked m" "lock_queue q s = Inr (upd_queue q (\<lambda>w. w\<lparr>wq_lock := m\<rparr>) s)"
    using lock_queue_free inv by (meson sched_inv_def)
  let ?s1 = "upd_queue q (\<lambda>w. w\<lparr>wq_lock := m\<rparr>) s"
  have ok1: "sched_ok {} ?s1" using inv q by (intro sched_ok_queue) (auto simp: sched_inv_def split: queue_id.splits)
  obtain s2 where s2: "wake_max_loop (nat n) q ?s1 = Inr s2" "sched_ok {} s2" "kept ?s1 s2"
    "waiters (queues s2 q) = drop (nat n) (waiters (queues s q))"
    "\<forall>w \<in> set (take (nat n) (waiters (queues s q))). state_of s2 w = RUNNABLE"
    using wake_max_loop_ok [OF ok1, of q "nat n"] m(1) by auto
  let ?s' = "unlock_queue q s2"
  have r: "wq_wakeMax n q s = Inr ?s'" using m(2) s2(1) by (simp add: wq_wakeMax_def)
  have "sched_ok {} ?s'" unfolding unlock_queue_def
    using s2(2) by (intro sched_ok_queue) (auto simp: mutex_unlock_def)
  moreover have k: "kept s ?s'" using s2(3) inv by (auto simp: kept_def sched_inv_def unlock_queue_def mutex_unlock_def)
  ultimately have "sched_inv ?s'" using sched_inv_kept [OF inv] by blast
  then show ?thesis using r k s2(4,5) by (auto simp: unlock_queue_def)
qed

lemma thread_sleep_ok:
  assumes inv: "sched_inv s" and e: "e < length (entities s)" "e \<noteq> idle_entity s"
    and j: "not_joining e s \<or> waiters (queues s (State_changed e)) = []"
  shows "\<exists>s'. thread_sleep e s = Inr s' \<and> sched_inv s' \<and> state_of s' e = SLEEPING
    \<and> (active s \<longrightarrow> current_thread s = Some e \<longrightarrow> current_thread s' \<noteq> Some e)"
proof -
  obtain s1 where s1: "set_state e SLEEPING s = Inr s1" "sched_inv s1" "same_clock s s1" "state_of s1 e = SLEEPING"
    using set_state_other [OF inv e j, of SLEEPING] by auto
  show ?thesis
  proof (cases "current_thread s1 = Some e")
    case True
    have "chosen s1 \<noteq> e" using chosen_runnable [OF s1(2)] s1(4) by auto
    obtain s' where s': "schedule s1 = Inr s'" "sched_inv s'" using schedule_inv [OF s1(2)] by blast
    have "state_of s' e = SLEEPING" "active s1 \<longrightarrow> current_thread s' = Some (chosen s1)"
      using s'(1) schedule_eq [OF s1(2)] s1(4) by (auto split: if_splits)
    moreover have "thread_sleep e s = Inr s'" using True s1(1) s'(1) by (simp add: thread_sleep_def kernel_syscall_handler_def)
    moreover have "active s1 = active s" using s1(3) by (simp add: same_clock_def)
    ultimately show ?thesis using s'(2) \<open>chosen s1 \<noteq> e\<close> by auto
  qed (use s1 in \<open>simp add: thread_sleep_def same_clock_def\<close>)
qed

lemma event_wait_ok:
  assumes inv: "sched_inv s" and e: "current_thread s = Some e" "e \<noteq> idle_entity s"
    and j: "not_joining e s" "\<And>x. q = State_changed x \<Longrightarrow> x \<noteq> e \<and> waiters (queues s (State_changed e)) = []"
  shows "\<exists>s'. event_wait q s = Inr s' \<and> sched_inv s' \<and> state_of s' e = SLEEPING
    \<and> (active s \<longrightarrow> current_thread s' \<noteq> Some e)"
proof -
  have el: "e < length (entities s)" using inv e(1) by (auto simp: sched_inv_def split: option.splits)
  obtain m where m: "mtx_locked m" "lock_queue q s = Inr (upd_queue q (\<lambda>w. w\<lparr>wq_lock := m\<rparr>) s)"
    using lock_queue_free inv by (meson sched_inv_def)
  let ?s1 = "unlock_queue q (upd_queue q (\<lambda>w. w\<lparr>waiters := waiters w @ [e]\<rparr>) (upd_queue q (\<lambda>w. w\<lparr>wq_lock := m\<rparr>) s))"
  have free: "\<not> q_locked ?s1 q'" for q' using inv by (auto simp: sched_inv_def unlock_queue_def mutex_unlock_def)
  have "sched_ok {} ?s1" using inv el e(2) free
    by (auto simp: sched_inv_def sched_ok_def rq_inv_def queues_ok_def locks_ok_def unlock_queue_def mutex_unlock_def)
  then have inv1: "sched_inv ?s1" using inv free by (auto simp: sched_inv_def unlock_queue_def cong: option.case_cong)
  have "not_joining e ?s1 \<or> waiters (queues ?s1 (State_changed e)) = []"
    using j by (cases q) (auto simp: not_joining_def unlock_queue_def)
  then show ?thesis
    using thread_sleep_ok [OF inv1 _ _ , of e] el e m(2) by (auto simp: event_wait_def wq_sleep_def unlock_queue_def)
qed

end
