(* ===== verification/Sched_Run.thy ===== *)
theory Sched_Run
  imports Sched
begin

text \<open>
  Runs of the scheduler: the operations that threads and interrupts perform, the states that
  sequences of them reach, and what holds in every such state. The operations of
  \<^verbatim>\<open>Event\<close> and \<^verbatim>\<open>WakeQueue\<close> are those of \<open>Sched\<close>.
\<close>

subsection \<open>Operations\<close>

text \<open>\<^verbatim>\<open>Thread::stop(true)\<close> in a process that has no exception information.\<close>

definition thread_stop_simple :: "nat \<Rightarrow> sched \<Rightarrow> sched outcome" where
  "thread_stop_simple e s =
     (if current_thread s = Some e then
        case set_state e STOPPED s of Inl f \<Rightarrow> Inl f | Inr s \<Rightarrow> kernel_syscall_handler 1 s
      else set_state e STOPPED s)"

datatype sched_op =
    Create sched_priority
  | Start nat
  | Wake_up nat
  | Sleep nat
  | Stop nat
  | Trigger queue_id
  | Wake_max int queue_id
  | Wait queue_id
  | Tick
  | Yield

fun sched_step :: "sched_op \<Rightarrow> sched \<Rightarrow> sched outcome" where
  "sched_step (Create p) s = Inr (snd (new_entity p s))"
| "sched_step (Start e) s = thread_start e s"
| "sched_step (Wake_up e) s = thread_wake_up e s"
| "sched_step (Sleep e) s = thread_sleep e s"
| "sched_step (Stop e) s = thread_stop_simple e s"
| "sched_step (Trigger q) s = event_trigger q s"
| "sched_step (Wake_max n q) s = wq_wakeMax n q s"
| "sched_step (Wait q) s = event_wait q s"
| "sched_step Tick s = lapic_timer_irq_handler s"
| "sched_step Yield s = kernel_syscall_handler 1 s"

text \<open>
  What callers must respect: entities exist and are not the idle entity, and no two entities wait
  for each other, directly or through others, because such a chain stops in a lock it holds itself.
\<close>

definition known :: "nat \<Rightarrow> sched \<Rightarrow> bool" where
  "known e s \<longleftrightarrow> e < length (entities s) \<and> e \<noteq> idle_entity s"

definition no_wait_cycle :: "nat \<Rightarrow> sched \<Rightarrow> bool" where
  "no_wait_cycle e s \<longleftrightarrow> not_joining e s \<or> waiters (queues s (State_changed e)) = []"

fun allowed :: "sched_op \<Rightarrow> sched \<Rightarrow> bool" where
  "allowed (Create p) s \<longleftrightarrow> True"
| "allowed (Start e) s \<longleftrightarrow> known e s"
| "allowed (Wake_up e) s \<longleftrightarrow> known e s"
| "allowed (Sleep e) s \<longleftrightarrow> known e s \<and> no_wait_cycle e s"
| "allowed (Stop e) s \<longleftrightarrow> known e s \<and> no_wait_cycle e s"
| "allowed (Trigger q) s \<longleftrightarrow> external_queue q"
| "allowed (Wake_max n q) s \<longleftrightarrow> external_queue q"
| "allowed (Wait q) s \<longleftrightarrow> (\<exists>e. current_thread s = Some e \<and> e \<noteq> idle_entity s \<and> not_joining e s
     \<and> (case q of State_changed x \<Rightarrow> x \<noteq> e \<and> waiters (queues s (State_changed e)) = [] | _ \<Rightarrow> True))"
| "allowed Tick s \<longleftrightarrow> True"
| "allowed Yield s \<longleftrightarrow> True"

inductive reachable :: "sched \<Rightarrow> sched \<Rightarrow> bool" for s0 where
  reach_init: "reachable s0 s0"
| reach_step: "reachable s0 s \<Longrightarrow> allowed op s \<Longrightarrow> sched_step op s = Inr s' \<Longrightarrow> reachable s0 s'"

inductive_cases reachableE: "reachable s0 s"

subsection \<open>Every operation succeeds and keeps the invariant\<close>

text \<open>No queue mentions an entity that does not exist yet.\<close>

lemma new_entity_inv:
  assumes inv: "sched_inv s"
  shows "sched_inv (snd (new_entity p s))"
proof -
  let ?n = "length (entities s)" and ?s' = "snd (new_entity p s)"
  have st: "state_of ?s' x = (if x = ?n then STOPPED else state_of s x)" if "x \<le> ?n" for x
    using that by (auto simp: new_entity_def nth_append)
  have f: "length (entities ?s') = Suc ?n" "idle_entity ?s' = idle_entity s" "runqueue ?s' = runqueue s" "has_algorithm ?s' = has_algorithm s"
    "current ?s' = current s" "current_thread ?s' = current_thread s"
    "queues ?s' q = (if q = State_changed ?n then free_queue else queues s q)" for q
    by (auto simp: new_entity_def)
  have rq: "distinct (runqueue s)" "x \<in> set (runqueue s) \<longleftrightarrow> x < ?n \<and> x \<noteq> idle_entity s \<and> (state_of s x = RUNNABLE \<or> state_of s x = RUNNING)" for x
    using inv by (auto simp: sched_inv_def sched_ok_def rq_inv_def)
  have "x \<in> set (runqueue s) \<longleftrightarrow> x < Suc ?n \<and> x \<noteq> idle_entity s \<and> (state_of ?s' x = RUNNABLE \<or> state_of ?s' x = RUNNING)" for x
    using rq(2) [of x] st [of x] by (cases "x = ?n") auto
  then have "rq_inv ?s'" using rq(1) unfolding rq_inv_def f by blast
  moreover have q: "w < ?n \<and> w \<noteq> idle_entity s" if "w \<in> set (waiters (queues s q))" for w q
    using that inv by (auto simp: sched_inv_def sched_ok_def queues_ok_def)
  have "w < Suc ?n \<and> w \<noteq> idle_entity s" if "w \<in> set (waiters (queues ?s' q))" for w q
    using that q [of w q] unfolding f by (auto simp: free_queue_def split: if_splits)
  then have "queues_ok {} ?s'" by (simp add: queues_ok_def f)
  moreover have "\<not> q_locked ?s' q" for q using inv by (simp add: f sched_inv_def free_queue_def)
  ultimately have "sched_ok {} ?s'" using inv by (simp add: sched_ok_def locks_ok_def f(4) sched_inv_def)
  moreover have "\<not> q_locked ?s' q" for q using inv by (simp add: f sched_inv_def free_queue_def)
  moreover have "state_of ?s' (idle_entity s) = RUNNABLE" "\<forall>x < Suc ?n. state_of ?s' x \<noteq> RUNNING"
    using inv st by (auto simp: sched_inv_def less_Suc_eq)
  moreover have "\<forall>c. current s = Some c \<longrightarrow> c < Suc ?n" "idle_entity s < Suc ?n"
    "current_thread s = Some (case current s of None \<Rightarrow> idle_entity s | Some c \<Rightarrow> c)"
    using inv by (auto simp: sched_inv_def)
  ultimately show ?thesis unfolding sched_inv_def f by blast
qed

lemma thread_stop_simple_ok:
  assumes inv: "sched_inv s" and e: "known e s" "no_wait_cycle e s"
  shows "\<exists>s'. thread_stop_simple e s = Inr s' \<and> sched_inv s' \<and> state_of s' e = STOPPED"
proof -
  obtain s1 where s1: "set_state e STOPPED s = Inr s1" "sched_inv s1" "same_clock s s1" "state_of s1 e = STOPPED"
    using set_state_other [OF inv, of e STOPPED] e by (auto simp: known_def no_wait_cycle_def)
  obtain s' where s': "schedule s1 = Inr s'" "sched_inv s'" using schedule_inv [OF s1(2)] by blast
  have "state_of s' e = STOPPED" using s'(1) schedule_eq [OF s1(2)] s1(4) by (auto split: if_splits)
  then show ?thesis using s1 s' by (auto simp: thread_stop_simple_def kernel_syscall_handler_def)
qed

lemma sched_step_ok:
  assumes inv: "sched_inv s" and ok: "allowed op s"
  shows "\<exists>s'. sched_step op s = Inr s' \<and> sched_inv s'"
proof (cases op)
  case (Wait q)
  then obtain e where e: "current_thread s = Some e" "e \<noteq> idle_entity s" "not_joining e s"
    "case q of State_changed x \<Rightarrow> x \<noteq> e \<and> waiters (queues s (State_changed e)) = [] | _ \<Rightarrow> True"
    using ok by auto
  show ?thesis using event_wait_ok [OF inv e(1-3), of q] e(4) Wait by (cases q) auto
next
  case (Sleep e)
  then show ?thesis using thread_sleep_ok [OF inv, of e] ok by (auto simp: known_def no_wait_cycle_def)
next
  case (Stop e)
  then show ?thesis using thread_stop_simple_ok [OF inv] ok by auto
next
  case (Start e)
  then show ?thesis using set_state_runnable [OF inv, of e] ok by (auto simp: known_def thread_start_def)
next
  case (Wake_up e)
  then show ?thesis using set_state_runnable [OF inv, of e] ok by (auto simp: known_def thread_wake_up_def)
next
  case (Trigger q)
  then show ?thesis using event_trigger_ok [OF inv, of q] ok by auto
next
  case (Wake_max n q)
  then show ?thesis using wq_wakeMax_ok [OF inv, of q n] ok by auto
next
  case Tick
  then show ?thesis using schedule_inv [OF timer_prefix_inv [OF inv]] by (auto simp: lapic_timer_irq_handler_def)
next
  case Yield
  then show ?thesis using schedule_inv [OF inv] by (auto simp: kernel_syscall_handler_def)
qed (use new_entity_inv [OF inv] in simp)

text \<open>Changes of the state of a thread leave the waiters of every other kind of queue alone.\<close>

lemma wake_all_external:
  assumes "\<And>w s s'. f w s = Inr s' \<Longrightarrow> waiters (queues s' q) = waiters (queues s q)"
  shows "wake_all f ws s = Inr s' \<Longrightarrow> waiters (queues s' q) = waiters (queues s q)"
  by (induction ws arbitrary: s) (auto split: sum.splits dest: assms)

lemma set_entity_state_external:
  "external_queue q \<Longrightarrow> set_entity_state n e st s = Inr s' \<Longrightarrow> waiters (queues s' q) = waiters (queues s q)"
proof (induction n arbitrary: e st s s')
  case (Suc n)
  have ne: "q \<noteq> State_changed x" for x using Suc.prems(1) by auto
  have w: "waiters (queues s' q) = waiters (queues s q)" if "wq_wake (\<lambda>w. set_entity_state n w RUNNABLE) (State_changed e) s = Inr s'" for e s s'
    using that wake_all_external [of "\<lambda>w. set_entity_state n w RUNNABLE" q] Suc.IH [OF Suc.prems(1)] ne
    by (auto simp: wq_wake_def lock_queue_def mutex_lock_def unlock_queue_def upd_queue_def split: sum.splits if_splits)
  show ?case using Suc.prems(2)
    by (auto dest!: w simp: upd_entity_def add_to_runqueue_def remove_from_runqueue_def split: if_splits)
qed simp

lemma schedule_queues: "schedule s = Inr s' \<Longrightarrow> queues s' = queues s"
  by (auto simp: schedule_def activate_def upd_entity_def Let_def split: if_splits option.splits sum.splits prod.splits bool.splits)

lemma event_wait_waiters:
  assumes "external_queue q" "event_wait q s = Inr s'"
  shows "\<exists>e. current_thread s = Some e \<and> waiters (queues s' q) = waiters (queues s q) @ [e]"
proof -
  obtain e where e: "current_thread s = Some e" using assms(2) by (auto simp: event_wait_def split: option.splits)
  obtain s1 where s1: "lock_queue q s = Inr s1" "waiters (queues s1 q) = waiters (queues s q)"
    using assms(2) e by (auto simp: event_wait_def wq_sleep_def lock_queue_def mutex_lock_def upd_queue_def split: sum.splits if_splits)
  let ?s2 = "unlock_queue q (upd_queue q (\<lambda>w. w\<lparr>waiters := waiters w @ [e]\<rparr>) s1)"
  have "thread_sleep e ?s2 = Inr s'" using assms(2) e s1(1) by (simp add: event_wait_def wq_sleep_def)
  then have "waiters (queues s' q) = waiters (queues ?s2 q)"
    using set_entity_state_external [OF assms(1)] schedule_queues
    by (auto simp: thread_sleep_def set_state_def kernel_syscall_handler_def simp del: set_entity_state.simps split: sum.splits if_splits)
  then show ?thesis using e s1(2) by (simp add: unlock_queue_def upd_queue_def)
qed

text \<open>The state in which \<^verbatim>\<open>Scheduler::run\<close> hands the processor to the scheduler.\<close>

definition booted :: "time_of_day \<Rightarrow> sched \<Rightarrow> bool" where
  "booted t s \<longleftrightarrow> (\<exists>s1. Scheduler_init True (power_on t) = Inr (True, s1) \<and> s = Scheduler_run s1)"

lemma booted_inv: "booted t s \<Longrightarrow> sched_inv s"
  by (auto simp: booted_def Scheduler_init_def power_on_def new_entity_def upd_entity_def activate_def Scheduler_run_def
      sched_inv_def sched_ok_def rq_inv_def queues_ok_def locks_ok_def free_queue_def Let_def)

lemma run_reaches_inv: "reachable s0 s \<Longrightarrow> sched_inv s0 \<Longrightarrow> sched_inv s"
  by (induction rule: reachable.induct) (use sched_step_ok in fastforce)+

lemma wake_max_none:
  assumes "waiters (queues s q) = []" "\<not> q_locked s q"
  shows "wq_wakeMax n q s = Inr (upd_queue q (\<lambda>w. w\<lparr>wq_lock := \<lparr>mtx_locked = False, mtx_owner = current_thread s\<rparr>\<rparr>) s)"
proof -
  have "wake_max_loop m q s' = Inr s'" if "waiters (queues s' q) = []" for m s' using that by (cases m) simp_all
  then show ?thesis using assms by (simp add: wq_wakeMax_def lock_queue_def mutex_lock_def unlock_queue_def mutex_unlock_def upd_queue_def)
qed

subsection \<open>Fairness\<close>

text \<open>One tick in the terms of the invariant: the current entity is charged, the one with the least runtime is chosen.\<close>

definition charged :: "sched \<Rightarrow> sched" where
  "charged s = update_accounting (update_runtime (milliseconds_to_ns 10) s)"

lemma tick_eq:
  assumes "sched_inv s" "active s"
  shows "\<exists>s'. lapic_timer_irq_handler s = Inr s' \<and> sched_inv s' \<and> active s' \<and> runqueue s' = runqueue s
    \<and> current s' = Some (chosen (charged s)) \<and> (\<forall>x. runtime_of s' x = runtime_of (charged s) x)
    \<and> runtime s' = runtime (charged s) \<and> exec_start_time (entities s' ! chosen (charged s)) = runtime s'"
proof -
  have inv: "sched_inv (charged s)" unfolding charged_def by (rule timer_prefix_inv [OF assms(1)])
  have f: "active (charged s)" "runqueue (charged s) = runqueue s"
    using assms(2) by (auto simp: charged_def update_accounting_def update_runtime_def Let_def split: option.splits prod.splits)
  obtain s' where s': "schedule (charged s) = Inr s'" "sched_inv s'" using schedule_inv [OF inv] by blast
  then show ?thesis using schedule_eq [OF inv] f chosen_runnable [OF inv]
    by (auto simp: lapic_timer_irq_handler_def charged_def [symmetric])
qed

definition fresh :: "sched \<Rightarrow> bool" where
  "fresh s \<longleftrightarrow> sched_inv s \<and> active s \<and> (\<exists>c. current s = Some c \<and> exec_start_time (entities s ! c) = runtime s
     \<and> (runqueue s = [] \<or> c \<in> set (runqueue s) \<and> (\<forall>x \<in> set (runqueue s). runtime_of s c \<le> runtime_of s x)))"

lemma chosen_least:
  "runqueue s = [] \<or> chosen s \<in> set (runqueue s) \<and> (\<forall>x \<in> set (runqueue s). runtime_of s (chosen s) \<le> runtime_of s x)"
  using pick_next_min [of s] by (auto simp: chosen_def split: option.splits)

lemma charged_runqueue [simp]: "runqueue (charged s) = runqueue s"
  by (auto simp: charged_def update_accounting_def update_runtime_def Let_def split: option.splits prod.splits)

lemma tick_fresh:
  assumes "sched_inv s" "active s" "lapic_timer_irq_handler s = Inr s'"
  shows "fresh s'"
  using tick_eq [OF assms(1,2)] assms(3) chosen_least [of "charged s"] by (auto simp: fresh_def)

lemma charged_runtime:
  assumes "fresh s" "current s = Some c"
  shows "runtime_of (charged s) x = (if x = c then runtime_of s c + 10000000 else runtime_of s x)"
proof -
  have "c < length (entities s)" using assms by (auto simp: fresh_def sched_inv_def)
  then show ?thesis using assms
    by (auto simp: charged_def update_accounting_def update_runtime_def Let_def milliseconds_to_ns_def timepoint_minus_def
        duration_minus_def fresh_def nth_list_update split: prod.splits)
qed

text \<open>How often entities that have run less than \<open>e\<close> can be chosen before \<open>e\<close>.\<close>

definition turns :: "sched \<Rightarrow> nat \<Rightarrow> nat \<Rightarrow> nat" where
  "turns s e x = (if runtime_of s x \<le> runtime_of s e
     then (unat (runtime_of s e) - unat (runtime_of s x)) div 10000000 + 1 else 0)"

definition rounds :: "sched \<Rightarrow> nat \<Rightarrow> nat" where
  "rounds s e = sum_list (map (turns s e) (filter (\<lambda>x. x \<noteq> e) (runqueue s)))"

lemma turns_charged:
  fixes a b :: u64
  assumes "a \<le> b" "unat b + 10000000 < 2 ^ 64"
  shows "(if a + 10000000 \<le> b then (unat b - unat (a + 10000000)) div 10000000 + 1 else 0) + 1
    = (unat b - unat a) div 10000000 + 1"
proof -
  have ab: "unat a \<le> unat b" using assms(1) by (simp add: word_le_nat_alt)
  then have a: "unat (a + 10000000) = unat a + 10000000" using assms(2) by (simp add: unat_word_ariths)
  show ?thesis
  proof (cases "unat a + 10000000 \<le> unat b")
    case True
    then obtain d where d: "unat b = unat a + 10000000 + d" using le_Suc_ex by blast
    then have "(unat b - unat a) div 10000000 = Suc (d div 10000000)" by (simp add: add.commute [of _ d])
    then show ?thesis using d a by (simp add: word_le_nat_alt)
  next
    case False
    then have "(unat b - unat a) div 10000000 = 0" by simp
    then show ?thesis using False a by (simp add: word_le_nat_alt)
  qed
qed

lemma sum_list_one_less:
  fixes f g :: "nat \<Rightarrow> nat"
  assumes "distinct xs" "c \<in> set xs" "f c + 1 = g c" "\<And>x. x \<noteq> c \<Longrightarrow> f x = g x"
  shows "Suc (sum_list (map f xs)) = sum_list (map g xs)"
  using assms(1,2)
proof (induction xs)
  case (Cons x xs)
  show ?case
  proof (cases "x = c")
    case True
    then have "f y = g y" if "y \<in> set xs" for y using that Cons.prems(1) assms(4) [of y] by auto
    then have "sum_list (map f xs) = sum_list (map g xs)" by (intro arg_cong [where f = sum_list] map_cong) auto
    then show ?thesis using True assms(3) by simp
  qed (use Cons assms(4) in auto)
qed simp

lemma rounds_charged:
  assumes "fresh s" "current s = Some c" "c \<noteq> e" "e \<in> set (runqueue s)" "unat (runtime_of s e) + 10000000 < 2 ^ 64"
  shows "Suc (rounds (charged s) e) = rounds s e"
proof -
  have c: "c \<in> set (runqueue s)" "runtime_of s c \<le> runtime_of s e" and d: "distinct (runqueue s)"
    using assms(1,2,4) by (auto simp: fresh_def sched_inv_def sched_ok_def rq_inv_def)
  let ?xs = "filter (\<lambda>x. x \<noteq> e) (runqueue s)"
  have "distinct ?xs" "c \<in> set ?xs" using d c(1) assms(3) by auto
  moreover have "turns (charged s) e c + 1 = turns s e c"
    using turns_charged [OF c(2) assms(5)] c(2) charged_runtime [OF assms(1,2)] assms(3)
    by (simp add: turns_def split: if_splits)
  moreover have "turns (charged s) e x = turns s e x" if "x \<noteq> c" for x
    using that assms(3) charged_runtime [OF assms(1,2)] by (simp add: turns_def)
  ultimately have "Suc (sum_list (map (turns (charged s) e) ?xs)) = sum_list (map (turns s e) ?xs)"
    by (rule sum_list_one_less)
  then show ?thesis by (simp add: rounds_def)
qed

fun ticks :: "nat \<Rightarrow> sched \<Rightarrow> sched outcome" where
  "ticks 0 s = Inr s"
| "ticks (Suc n) s = (case lapic_timer_irq_handler s of Inl f \<Rightarrow> Inl f | Inr s \<Rightarrow> ticks n s)"

lemma fair_step:
  assumes "fresh s" "e \<in> set (runqueue s)" "unat (runtime_of s e) + 10000000 < 2 ^ 64" "rounds s e \<le> n"
  shows "\<exists>k \<le> n. \<exists>s'. ticks k s = Inr s' \<and> current s' = Some e"
  using assms
proof (induction n arbitrary: s)
  case 0
  obtain c where c: "current s = Some c" using 0 by (auto simp: fresh_def)
  then have "c = e" using rounds_charged [OF 0(1) c _ 0(2,3)] 0(4) by fastforce
  then show ?case using c by simp
next
  case (Suc n)
  obtain c where c: "current s = Some c" using Suc by (auto simp: fresh_def)
  show ?case
  proof (cases "c = e")
    case False
    have fr: "sched_inv s" "active s" using Suc.prems(1) by (auto simp: fresh_def)
    obtain s' where s': "lapic_timer_irq_handler s = Inr s'" "runqueue s' = runqueue s"
      "\<forall>x. runtime_of s' x = runtime_of (charged s) x" using tick_eq [OF fr] by blast
    have "turns s' e = turns (charged s) e" using s'(3) by (simp add: turns_def fun_eq_iff)
    then have "rounds s' e = rounds (charged s) e" using s'(2) by (simp add: rounds_def)
    then have "rounds s' e \<le> n" using rounds_charged [OF Suc.prems(1) c False Suc.prems(2,3)] Suc.prems(4) by simp
    moreover have "unat (runtime_of s' e) + 10000000 < 2 ^ 64"
      using s'(3) charged_runtime [OF Suc.prems(1) c] False Suc.prems(3) by simp
    ultimately obtain k s2 where k: "k \<le> n" "ticks k s' = Inr s2" "current s2 = Some e"
      using Suc.IH [OF tick_fresh [OF fr s'(1)]] Suc.prems(2) s'(2) by auto
    then have "Suc k \<le> Suc n" "ticks (Suc k) s = Inr s2" using s'(1) by auto
    then show ?thesis using k(3) by blast
  next
    case True
    then have "ticks 0 s = Inr s" "current s = Some e" using c by auto
    then show ?thesis by blast
  qed
qed

subsection \<open>An example run\<close>

text \<open>Two threads are created and started.\<close>

definition entity0 :: "sched_state \<Rightarrow> entity" where
  "entity0 st = \<lparr>cpu_runtime = 0, exec_start_time = 0, estate = st, priority = NORMAL_PRIORITY\<rparr>"

definition touched_queue :: wake_queue where
  "touched_queue = \<lparr>waiters = [], wq_lock = \<lparr>mtx_locked = False, mtx_owner = Some 0\<rparr>\<rparr>"

text \<open>The time of day of \<^verbatim>\<open>Kernel::initialise_tod\<close>.\<close>

definition epoch :: time_of_day where
  "epoch = \<lparr>hours = 0, minutes = 0, seconds = 0, day = 1, month = 1, year = 1970\<rparr>"

definition boot_example :: "time_of_day \<Rightarrow> sched" where
  "boot_example t = \<lparr>active = True, has_algorithm = True, runqueue = [], current = None, idle_entity = 0,
     entities = [entity0 RUNNABLE], queues = (\<lambda>_. free_queue), runtime = 0, ticks_since_tod = 0, tod = t, current_thread = Some 0\<rparr>"

definition run_example :: "time_of_day \<Rightarrow> sched" where
  "run_example t = (boot_example t)\<lparr>runqueue := [1, 2], entities := [entity0 RUNNABLE, entity0 RUNNABLE, entity0 RUNNABLE],
     queues := (\<lambda>_. free_queue)(State_changed 1 := touched_queue, State_changed 2 := touched_queue)\<rparr>"

lemma booted_example: "booted t (boot_example t)"
  by (simp add: booted_def boot_example_def Scheduler_init_def power_on_def new_entity_def upd_entity_def activate_def
      Scheduler_run_def entity0_def Let_def fun_upd_idem)

lemma reachable_example: "reachable (boot_example t) (run_example t)"
proof -
  let ?s1 = "(boot_example t)\<lparr>entities := [entity0 RUNNABLE, entity0 STOPPED]\<rparr>"
  let ?s2 = "(boot_example t)\<lparr>entities := [entity0 RUNNABLE, entity0 STOPPED, entity0 STOPPED]\<rparr>"
  let ?s3 = "(boot_example t)\<lparr>runqueue := [1], entities := [entity0 RUNNABLE, entity0 RUNNABLE, entity0 STOPPED],
     queues := (\<lambda>_. free_queue)(State_changed 1 := touched_queue)\<rparr>"
  have "reachable (boot_example t) ?s1"
    by (rule reach_step [OF reach_init, where op = "Create NORMAL_PRIORITY"])
      (simp_all add: new_entity_def boot_example_def entity0_def fun_upd_idem)
  then have "reachable (boot_example t) ?s2"
    by (rule reach_step [where op = "Create NORMAL_PRIORITY"]) (simp_all add: new_entity_def boot_example_def entity0_def fun_upd_idem)
  then have "reachable (boot_example t) ?s3"
    by (rule reach_step [where op = "Start 1"])
      (simp_all add: known_def thread_start_def set_state_def boot_example_def entity0_def wq_wake_empty add_to_runqueue_def
        free_queue_def touched_queue_def upd_entity_def upd_queue_def)
  then show ?thesis
    by (rule reach_step [where op = "Start 2"])
      (simp_all add: known_def thread_start_def set_state_def run_example_def boot_example_def entity0_def wq_wake_empty
        add_to_runqueue_def free_queue_def touched_queue_def upd_entity_def upd_queue_def)
qed

subsection \<open>Properties\<close>

text \<open>
  C2. In every state that the booted kernel reaches, the run queue holds exactly the runnable
  threads apart from the idle thread, each once, the processor runs an existing thread, and every
  operation a thread or an interrupt may perform next returns: no assertion fails, no lock is
  waited for forever.
\<close>

theorem scheduler_never_stuck:
  assumes "booted t s0" "reachable s0 s" "allowed op s"
  shows "(\<exists>s'. sched_step op s = Inr s') \<and> distinct (runqueue s)
    \<and> (\<forall>e. e \<in> set (runqueue s) \<longleftrightarrow> e < length (entities s) \<and> e \<noteq> idle_entity s \<and> state_of s e = RUNNABLE)
    \<and> (\<exists>c. current_thread s = Some c \<and> c < length (entities s))"
proof -
  have inv: "sched_inv s" using run_reaches_inv [OF assms(2) booted_inv [OF assms(1)]] .
  have "distinct (runqueue s)" "\<exists>c. current_thread s = Some c \<and> c < length (entities s)"
    using inv by (auto simp: sched_inv_def sched_ok_def rq_inv_def split: option.splits)
  then show ?thesis using sched_step_ok [OF inv assms(3)] runqueue_iff [OF inv] by blast
qed

theorem scheduler_never_stuck_witness:
  "allowed (Stop 1) (run_example epoch) \<and> (\<exists>s'. sched_step (Stop 1) (run_example epoch) = Inr s') \<and> 1 \<in> set (runqueue (run_example epoch))"
proof -
  have "allowed (Stop 1) (run_example epoch)"
    by (simp add: known_def no_wait_cycle_def run_example_def boot_example_def touched_queue_def)
  then show ?thesis
    using scheduler_never_stuck [OF booted_example reachable_example, of "Stop 1" epoch]
    by (simp add: run_example_def boot_example_def)
qed



text \<open>
  The timer interrupt charges the current thread with the time it ran and gives the processor
  to a runnable thread with the least accumulated time, or to the idle thread when none can run.
\<close>

theorem tick_picks_least_runtime:
  assumes "booted t s0" "reachable s0 s" "active s"
  shows "\<exists>s' c. lapic_timer_irq_handler s = Inr s' \<and> current s' = Some c \<and> current_thread s' = Some c
    \<and> (if runqueue s = [] then c = idle_entity s
       else c \<in> set (runqueue s) \<and> (\<forall>x \<in> set (runqueue s). runtime_of s' c \<le> runtime_of s' x))
    \<and> (\<forall>x < length (entities s). runtime_of s' x =
        (if current s = Some x then runtime_of s x + (runtime s' - exec_start_time (entities s ! x)) else runtime_of s x))"
proof -
  have inv: "sched_inv s" using run_reaches_inv [OF assms(2) booted_inv [OF assms(1)]] .
  obtain s' where s': "lapic_timer_irq_handler s = Inr s'" "sched_inv s'" "current s' = Some (chosen (charged s))"
    "\<forall>x. runtime_of s' x = runtime_of (charged s) x" "runtime s' = runtime (charged s)"
    using tick_eq [OF inv assms(3)] by blast
  have "current_thread s' = Some (chosen (charged s))" using s'(2,3) by (simp add: sched_inv_def)
  moreover have "runqueue s = [] \<longrightarrow> chosen (charged s) = idle_entity s"
    by (auto simp: chosen_def pick_next_entity_def charged_def update_accounting_def update_runtime_def Let_def
        split: option.splits prod.splits)
  moreover have "runtime_of (charged s) x =
      (if current s = Some x then runtime_of s x + (runtime s' - exec_start_time (entities s ! x)) else runtime_of s x)"
    if "x < length (entities s)" for x
    using that s'(5) by (auto simp: charged_def update_accounting_def update_runtime_def Let_def timepoint_minus_def
        duration_minus_def split: option.splits prod.splits)
  ultimately show ?thesis using s' chosen_least [of "charged s"] by auto
qed

theorem tick_picks_least_runtime_witness:
  "\<exists>s' c. lapic_timer_irq_handler (run_example epoch) = Inr s' \<and> current s' = Some c \<and> c \<in> {1, 2}"
proof -
  have "active (run_example epoch)" by (simp add: run_example_def boot_example_def)
  then show ?thesis
    using tick_picks_least_runtime [OF booted_example reachable_example, of epoch] by (auto simp: run_example_def boot_example_def)
qed

text \<open>
  C18. Waking the threads of a queue: \<^verbatim>\<open>Event::trigger\<close> makes all of them runnable and leaves the
  queue empty; \<^verbatim>\<open>WakeQueue::wakeMax(n)\<close> takes the \<open>n\<close> that went to sleep first and keeps the others in order.
\<close>

theorem wake_ups_reach_waiters:
  assumes "booted t s0" "reachable s0 s" "external_queue q"
  shows "\<exists>s1 s2. event_trigger q s = Inr s1 \<and> waiters (queues s1 q) = []
    \<and> set (waiters (queues s q)) \<subseteq> set (runqueue s1)
    \<and> wq_wakeMax n q s = Inr s2 \<and> waiters (queues s2 q) = drop (nat n) (waiters (queues s q))
    \<and> set (take (nat n) (waiters (queues s q))) \<subseteq> set (runqueue s2)"
proof -
  have inv: "sched_inv s" using run_reaches_inv [OF assms(2) booted_inv [OF assms(1)]] .
  obtain s1 where s1: "event_trigger q s = Inr s1" "waiters (queues s1 q) = []" "set (waiters (queues s q)) \<subseteq> set (runqueue s1)"
    using event_trigger_ok [OF inv assms(3)] by blast
  obtain s2 where s2: "wq_wakeMax n q s = Inr s2" "sched_inv s2" "kept s s2" "waiters (queues s2 q) = drop (nat n) (waiters (queues s q))"
    "\<forall>w \<in> set (take (nat n) (waiters (queues s q))). state_of s2 w = RUNNABLE"
    using wq_wakeMax_ok [OF inv assms(3)] by blast
  have "w < length (entities s2) \<and> w \<noteq> idle_entity s2" if "w \<in> set (waiters (queues s q))" for w
    using that inv s2(3) by (auto simp: kept_def sched_inv_def sched_ok_def queues_ok_def)
  then have "set (take (nat n) (waiters (queues s q))) \<subseteq> set (runqueue s2)"
    using s2(5) runqueue_iff [OF s2(2)] in_set_takeD by fast
  then show ?thesis using s1 s2(1,4) by blast
qed

theorem wake_ups_reach_waiters_witness:
  "\<exists>s1 s2. event_trigger (Futex 3 0x1000) (run_example epoch) = Inr s1 \<and> wq_wakeMax 2 (Futex 3 0x1000) (run_example epoch) = Inr s2"
  using wake_ups_reach_waiters [OF booted_example reachable_example, of "Futex 3 0x1000" epoch 2] by auto



text \<open>
  C25. Two threads that wait for each other's state stop the kernel: when \<open>x\<close> waits for a thread
  \<open>y\<close> that sleeps in the wake queue of \<open>x\<close>, going to sleep wakes \<open>y\<close>, which wakes \<open>x\<close>, which
  needs the lock of the queue that the first wake-up still holds.
\<close>

theorem mutual_wait_deadlocks:
  assumes "booted t s0" "reachable s0 s" "current_thread s = Some x" "x \<noteq> y" "y < length (entities s)"
    and "state_of s x = RUNNABLE" "state_of s y = SLEEPING"
    and "waiters (queues s (State_changed x)) = [y]" "waiters (queues s (State_changed y)) = []"
  shows "event_wait (State_changed y) s = Inl Never_returns"
proof -
  have inv: "sched_inv s" using run_reaches_inv [OF assms(2) booted_inv [OF assms(1)]] .
  then have free: "\<not> q_locked s q" for q by (simp add: sched_inv_def)
  have x: "x < length (entities s)" "has_algorithm s"
    using inv assms(3) by (auto simp: sched_inv_def sched_ok_def split: option.splits)
  then obtain n where n: "length (entities s) = Suc (Suc n)" using assms(4,5)
    by (cases "length (entities s)"; cases "length (entities s) - 1") auto
  show ?thesis
    using assms(3-9) free x n
    by (simp add: event_wait_def wq_sleep_def lock_queue_def mutex_lock_def unlock_queue_def mutex_unlock_def thread_sleep_def
        set_state_def wq_wake_def upd_entity_def upd_queue_def remove_from_runqueue_def add_to_runqueue_def)
qed

text \<open>Thread 1 runs and waits for thread 2.\<close>

definition join_example :: sched where
  "join_example = (run_example epoch)\<lparr>runqueue := [2], current := Some 2, current_thread := Some 2,
     entities := [entity0 RUNNABLE, entity0 SLEEPING, entity0 RUNNABLE],
     queues := (\<lambda>_. free_queue)(State_changed 1 := touched_queue\<lparr>wq_lock := \<lparr>mtx_locked = False, mtx_owner = Some 1\<rparr>\<rparr>,
       State_changed 2 := \<lparr>waiters = [1], wq_lock = \<lparr>mtx_locked = False, mtx_owner = Some 1\<rparr>\<rparr>)\<rparr>"

lemma reachable_join_example: "reachable (boot_example epoch) join_example"
proof -
  let ?s1 = "(run_example epoch)\<lparr>current := Some 1, current_thread := Some 1\<rparr>"
  have "sched_step Yield (run_example epoch) = Inr ?s1"
    by (simp add: kernel_syscall_handler_def schedule_def pick_next_entity_def activate_def upd_entity_def
        run_example_def boot_example_def entity0_def)
  then have "reachable (boot_example epoch) ?s1"
    by (intro reach_step [OF reachable_example, where op = Yield]) simp_all
  moreover have "allowed (Wait (State_changed 2)) ?s1"
    by (simp add: run_example_def boot_example_def not_joining_def touched_queue_def free_queue_def)
  moreover have "sched_step (Wait (State_changed 2)) ?s1 = Inr join_example"
    by (simp add: event_wait_def wq_sleep_def lock_queue_def mutex_lock_def unlock_queue_def mutex_unlock_def thread_sleep_def
        set_state_def wq_wake_empty upd_entity_def upd_queue_def remove_from_runqueue_def kernel_syscall_handler_def schedule_def
        pick_next_entity_def activate_def run_example_def boot_example_def entity0_def touched_queue_def join_example_def fun_upd_twist)
  ultimately show ?thesis by (rule reach_step)
qed

theorem mutual_wait_deadlocks_witness: "event_wait (State_changed 1) join_example = Inl Never_returns"
  by (rule mutual_wait_deadlocks [OF booted_example reachable_join_example, of 2])
    (simp_all add: join_example_def run_example_def boot_example_def entity0_def touched_queue_def)

end
