(* ===== verification/Process.thy ===== *)
theory Process
  imports Vma Sched_Run Device
begin

text \<open>
  Threads, processes and kernel objects: \<^verbatim>\<open>kernel/thread.cpp\<close>, \<^verbatim>\<open>include/infos/kernel/thread.h\<close>,
  \<^verbatim>\<open>kernel/process.cpp\<close>, \<^verbatim>\<open>include/infos/kernel/process.h\<close> and the object manager of \<^verbatim>\<open>kernel/om.cpp\<close>.

  A thread is the scheduling entity of the same number; processes are numbers too. The saved
  registers of a thread lie in memory, at its native context. Locks that an operation takes and gives
  back before it returns are left out where nothing in between can wait for them.
\<close>

subsection \<open>Saved registers\<close>

text \<open>The fields of \<^verbatim>\<open>X86Context\<close> in the order of their addresses.\<close>

datatype x86_field =
    Previous_context | Fs | Gs | R15 | R14 | R13 | R12 | R11 | R10 | R9 | R8 | Rbp | Rdi | Rsi | Rdx | Rcx | Rbx | Rax
  | Extra | Rip | Cs | Rflags | Rsp | Ss

fun field_index :: "x86_field \<Rightarrow> nat" where
  "field_index Previous_context = 0" | "field_index Fs = 1" | "field_index Gs = 2"
| "field_index R15 = 3" | "field_index R14 = 4" | "field_index R13 = 5" | "field_index R12 = 6"
| "field_index R11 = 7" | "field_index R10 = 8" | "field_index R9 = 9" | "field_index R8 = 10"
| "field_index Rbp = 11" | "field_index Rdi = 12" | "field_index Rsi = 13" | "field_index Rdx = 14"
| "field_index Rcx = 15" | "field_index Rbx = 16" | "field_index Rax = 17"
| "field_index Extra = 18" | "field_index Rip = 19" | "field_index Cs = 20" | "field_index Rflags = 21"
| "field_index Rsp = 22" | "field_index Ss = 23"

definition field_addr :: "virt_addr \<Rightarrow> x86_field \<Rightarrow> virt_addr" where
  "field_addr c f = c + 8 * of_nat (field_index f)"

subsection \<open>State\<close>

datatype thread_privilege = Kernel_Thread | User_Thread

record thread =
  thread_owner :: nat
  thread_privilege :: thread_privilege
  entry_point :: virt_addr
  current_entry_argument :: u32
  thread_id :: u32
  native_context :: virt_addr
  kernel_stack :: virt_addr
  thread_name :: chars
  in_syscall :: bool
  before_syscall_context :: virt_addr

record exception_prepare_info =
  unwind_address :: virt_addr
  malloc_ptr :: virt_addr
  free_ptr :: virt_addr

text \<open>The exception information is \<open>None\<close> while \<^verbatim>\<open>exceptionInfoPresent\<close> is false.\<close>

record kprocess =
  proc_name :: chars
  kernel_process :: bool
  terminated :: bool
  proc_vma :: vma
  proc_threads :: "nat list"
  main_thread :: nat
  exception_info :: "exception_prepare_info option"
  wake_queue_map :: "(u64, queue_id) kmap"
  futex_mutex :: mutex

text \<open>What a handle stands for: the object, of one of four classes, and the thread that registered it.\<close>

datatype kernel_object = File_object nat | Directory_object nat | Process_object nat | Thread_object nat

record object_descriptor =
  od_owner :: nat
  od_object :: kernel_object

record 'a kernel =
  ksched :: sched
  kmachine :: "'a machine"
  kprocs :: "kprocess list"
  kthreads :: "thread list"
  next_handle :: u64
  kobjects :: "(u64, object_descriptor) kmap"

definition upd_thread :: "nat \<Rightarrow> (thread \<Rightarrow> thread) \<Rightarrow> ('a, 'b) kernel_scheme \<Rightarrow> ('a, 'b) kernel_scheme" where
  "upd_thread e f k = k\<lparr>kthreads := (kthreads k)[e := f (kthreads k ! e)]\<rparr>"

definition upd_proc :: "nat \<Rightarrow> (kprocess \<Rightarrow> kprocess) \<Rightarrow> ('a, 'b) kernel_scheme \<Rightarrow> ('a, 'b) kernel_scheme" where
  "upd_proc p f k = k\<lparr>kprocs := (kprocs k)[p := f (kprocs k ! p)]\<rparr>"

definition upd_mem :: "(memory \<Rightarrow> memory) \<Rightarrow> ('a, 'b) kernel_scheme \<Rightarrow> ('a, 'b) kernel_scheme" where
  "upd_mem f k = k\<lparr>kmachine := (kmachine k)\<lparr>mem := f (mem (kmachine k))\<rparr>\<rparr>"

definition on_sched :: "(sched \<Rightarrow> sched outcome) \<Rightarrow> ('a, 'b) kernel_scheme \<Rightarrow> ('a, 'b) kernel_scheme outcome" where
  "on_sched f k = andthen (f (ksched k)) (\<lambda>s. Inr (k\<lparr>ksched := s\<rparr>))"

definition or_stop :: "'c option \<Rightarrow> 'c outcome" where
  "or_stop r = (case r of None \<Rightarrow> Inl Assertion_failure | Some x \<Rightarrow> Inr x)"

subsection \<open>Threads\<close>

text \<open>\<^verbatim>\<open>*--stack = w\<close> for every word of a list.\<close>

fun push_all :: "u64 list \<Rightarrow> virt_addr \<times> memory \<Rightarrow> virt_addr \<times> memory" where
  "push_all [] s = s"
| "push_all (w # ws) (stack, m) = push_all ws (stack - 8, m(stack - 8 := w))"

definition initial_frame :: "thread \<Rightarrow> u64 list" where
  "initial_frame t = (let is_kernel_thread = (thread_privilege t = Kernel_Thread)
     in [if is_kernel_thread then 0x10 else 0x23, 0, 0x202, if is_kernel_thread then 0x8 else 0x1b, entry_point t, 0] @ replicate 18 0)"

definition prepare_initial_stack :: "thread \<times> memory \<Rightarrow> thread \<times> memory" where
  "prepare_initial_stack = (\<lambda>(t, m).
     let (stack, m) = push_all (initial_frame t) (kernel_stack t, m)
     in (t\<lparr>native_context := stack\<rparr>, m(field_addr stack Rsp := kernel_stack t)))"

definition Thread_new :: "'a page_alg option \<Rightarrow> nat \<Rightarrow> thread_privilege \<Rightarrow> virt_addr \<Rightarrow> sched_priority \<Rightarrow> chars
    \<Rightarrow> ('a, 'b) kernel_scheme \<Rightarrow> (nat \<times> ('a, 'b) kernel_scheme) outcome" where
  "Thread_new alg p priv entry prio name k =
     andthen (or_stop (allocate_phys alg 1 (proc_vma (kprocs k ! p), kmachine k))) (\<lambda>(pgd, v, m).
     andthen (or_stop pgd) (\<lambda>i.
     andthen (or_stop (pa_to_vpa (index_to_pa i))) (\<lambda>base.
       let (e, s) = new_entity prio (ksched k);
           t = \<lparr>thread_owner = p, thread_privilege = priv, entry_point = entry, current_entry_argument = 0, thread_id = 0,
                native_context = 0, kernel_stack = base + 0x2000, thread_name = name, in_syscall = False, before_syscall_context = 0\<rparr>;
           (t, mm) = prepare_initial_stack (t, mem m)
       in Inr (e, (upd_proc p (\<lambda>q. q\<lparr>proc_vma := v\<rparr>) k)\<lparr>ksched := s, kmachine := m\<lparr>mem := mm\<rparr>, kthreads := kthreads k @ [t]\<rparr>))))"

definition argument_field :: "u32 \<Rightarrow> x86_field option" where
  "argument_field n = (if n = 0 then Some Rdi else if n = 1 then Some Rsi else if n = 2 then Some Rdx else if n = 3 then Some Rcx else None)"

definition add_entry_argument :: "nat \<Rightarrow> u64 \<Rightarrow> ('a, 'b) kernel_scheme \<Rightarrow> ('a, 'b) kernel_scheme" where
  "add_entry_argument e arg k =
     (let t = kthreads k ! e
      in case argument_field (current_entry_argument t) of
           None \<Rightarrow> k
         | Some f \<Rightarrow> upd_thread e (\<lambda>t. t\<lparr>current_entry_argument := current_entry_argument t + 1\<rparr>)
             (upd_mem (\<lambda>m. m(field_addr (native_context t) f := arg)) k))"

text \<open>The result of \<^verbatim>\<open>allocate_virt\<close> is not looked at.\<close>

definition allocate_user_stack :: "'a page_alg option \<Rightarrow> nat \<Rightarrow> virt_addr \<Rightarrow> u64 \<Rightarrow> ('a, 'b) kernel_scheme \<Rightarrow> ('a, 'b) kernel_scheme outcome" where
  "allocate_user_stack alg e vaddr sz k =
     (let t = kthreads k ! e; p = thread_owner t
      in andthen (or_stop (allocate_virt alg vaddr (ucast (drop_bit 12 (align_up_page sz))) (proc_vma (kprocs k ! p), kmachine k))) (\<lambda>(ok, v, m).
         Inr (upd_mem (\<lambda>mm. mm(field_addr (native_context t) Rsp := vaddr + sz - 8)) ((upd_proc p (\<lambda>q. q\<lparr>proc_vma := v\<rparr>) k)\<lparr>kmachine := m\<rparr>))))"

definition enter_syscall :: "nat \<Rightarrow> ('a, 'b) kernel_scheme \<Rightarrow> ('a, 'b) kernel_scheme" where
  "enter_syscall e k = upd_thread e (\<lambda>t. t\<lparr>in_syscall := True, before_syscall_context := native_context t\<rparr>) k"

definition leave_syscall :: "nat \<Rightarrow> ('a, 'b) kernel_scheme \<Rightarrow> ('a, 'b) kernel_scheme" where
  "leave_syscall e k = upd_thread e (\<lambda>t. t\<lparr>in_syscall := False\<rparr>) k"

subsection \<open>Processes\<close>

definition create_thread :: "'a page_alg option \<Rightarrow> nat \<Rightarrow> thread_privilege \<Rightarrow> virt_addr \<Rightarrow> chars \<Rightarrow> sched_priority
    \<Rightarrow> ('a, 'b) kernel_scheme \<Rightarrow> (nat \<times> ('a, 'b) kernel_scheme) outcome" where
  "create_thread alg p priv entry name prio k =
     (if kernel_process (kprocs k ! p) \<and> priv = User_Thread then Inl Assertion_failure
      else andthen (Thread_new alg p priv entry prio name k) (\<lambda>(e, k).
        let k = upd_thread e (\<lambda>t. t\<lparr>thread_id := of_nat (length (proc_threads (kprocs k ! p)))\<rparr>) k
        in Inr (e, upd_proc p (\<lambda>q. q\<lparr>proc_threads := proc_threads q @ [e]\<rparr>) k)))"

definition Process_new :: "'a page_alg option \<Rightarrow> (u64 \<Rightarrow> u64) option \<Rightarrow> chars \<Rightarrow> bool \<Rightarrow> virt_addr
    \<Rightarrow> ('a, 'b) kernel_scheme \<Rightarrow> (nat \<times> ('a, 'b) kernel_scheme) outcome" where
  "Process_new alg template_pml4 name is_kernel entry k =
     andthen (or_stop (vma_init alg (kmachine k))) (\<lambda>(v, m).
     andthen (or_stop (install_default_kernel_mapping template_pml4 (v, m))) (\<lambda>m.
       let p = length (kprocs k);
           proc = \<lparr>proc_name = name, kernel_process = is_kernel, terminated = False, proc_vma = v, proc_threads = [], main_thread = 0,
                   exception_info = None, wake_queue_map = kempty, futex_mutex = \<lparr>mtx_locked = False, mtx_owner = None\<rparr>\<rparr>;
           k = k\<lparr>kmachine := m, kprocs := kprocs k @ [proc],
                 ksched := (ksched k)\<lparr>queues := (queues (ksched k))(Process_changed p := free_queue)\<rparr>\<rparr>
       in andthen (create_thread alg p (if is_kernel then Kernel_Thread else User_Thread) entry (map of_char ''main'') NORMAL_PRIORITY k) (\<lambda>(e, k).
          Inr (p, upd_proc p (\<lambda>q. q\<lparr>main_thread := e\<rparr>) k))))"

definition Process_start :: "nat \<Rightarrow> ('a, 'b) kernel_scheme \<Rightarrow> ('a, 'b) kernel_scheme outcome" where
  "Process_start p k = on_sched (thread_start (main_thread (kprocs k ! p))) k"

text \<open>
  \<^verbatim>\<open>terminate\<close> stops the threads one after the other. When it comes to the thread that runs it, that
  thread yields in \<^verbatim>\<open>stop\<close> and, being stopped, does not come back to the rest of the loop.
\<close>

fun stop_threads :: "nat list \<Rightarrow> sched \<Rightarrow> sched outcome" where
  "stop_threads [] s = Inr s"
| "stop_threads (e # es) s = andthen (thread_stop_simple e s) (\<lambda>s'. if current_thread s' = current_thread s then stop_threads es s' else Inr s')"

definition terminate :: "nat \<Rightarrow> ('a, 'b) kernel_scheme \<Rightarrow> ('a, 'b) kernel_scheme outcome" where
  "terminate p k =
     (let k = upd_proc p (\<lambda>q. q\<lparr>exception_info := None, terminated := True\<rparr>) k
      in andthen (on_sched (event_trigger (Process_changed p)) k) (\<lambda>k. on_sched (stop_threads (proc_threads (kprocs k ! p))) k))"

definition Process_destroy :: "nat \<Rightarrow> ('a, 'b) kernel_scheme \<Rightarrow> unit outcome" where
  "Process_destroy p k = (if \<forall>e \<in> set (proc_threads (kprocs k ! p)). state_of (ksched k) e = STOPPED then Inr () else Inl Assertion_failure)"

text \<open>The futexes of a process, one wake queue for each address that was waited for.\<close>

definition lock_futexes :: "nat \<Rightarrow> ('a, 'b) kernel_scheme \<Rightarrow> ('a, 'b) kernel_scheme outcome" where
  "lock_futexes p k = andthen (mutex_lock (current_thread (ksched k)) (futex_mutex (kprocs k ! p))) (\<lambda>m. Inr (upd_proc p (\<lambda>q. q\<lparr>futex_mutex := m\<rparr>) k))"

definition unlock_futexes :: "nat \<Rightarrow> ('a, 'b) kernel_scheme \<Rightarrow> ('a, 'b) kernel_scheme" where
  "unlock_futexes p k = upd_proc p (\<lambda>q. q\<lparr>futex_mutex := mutex_unlock (futex_mutex q)\<rparr>) k"

definition set_thread_waiting :: "nat \<Rightarrow> nat \<Rightarrow> virt_addr \<Rightarrow> ('a, 'b) kernel_scheme \<Rightarrow> ('a, 'b) kernel_scheme outcome" where
  "set_thread_waiting p e va k =
     andthen (lock_futexes p k) (\<lambda>k.
     let k = (if kget (wake_queue_map (kprocs k ! p)) va = None
              then (upd_proc p (\<lambda>q. q\<lparr>wake_queue_map := kadd va (Futex p va) (wake_queue_map q)\<rparr>) k)
                \<lparr>ksched := (ksched k)\<lparr>queues := (queues (ksched k))(Futex p va := free_queue)\<rparr>\<rparr>
              else k)
     in case kget (wake_queue_map (kprocs k ! p)) va of
          None \<Rightarrow> Inl Null_dereference
        | Some q \<Rightarrow> on_sched (wq_sleep q e) (unlock_futexes p k))"

text \<open>The count is converted to a signed 32-bit number.\<close>

definition wake_up_threads :: "nat \<Rightarrow> virt_addr \<Rightarrow> u64 \<Rightarrow> ('a, 'b) kernel_scheme \<Rightarrow> ('a, 'b) kernel_scheme outcome" where
  "wake_up_threads p va number k =
     (case kget (wake_queue_map (kprocs k ! p)) va of
        None \<Rightarrow> Inr k
      | Some q \<Rightarrow> on_sched (wq_wakeMax (sint (ucast number :: u32)) q) k)"

subsection \<open>The object manager\<close>

definition register_object :: "nat \<Rightarrow> kernel_object \<Rightarrow> ('a, 'b) kernel_scheme \<Rightarrow> u64 \<times> ('a, 'b) kernel_scheme" where
  "register_object e obj k =
     (let handle = next_handle k
      in (handle, k\<lparr>next_handle := next_handle k + 1, kobjects := kadd handle \<lparr>od_owner = e, od_object = obj\<rparr> (kobjects k)\<rparr>))"

definition get_object_secure :: "nat \<Rightarrow> u64 \<Rightarrow> ('a, 'b) kernel_scheme \<Rightarrow> kernel_object option" where
  "get_object_secure e handle k =
     (case kget (kobjects k) handle of
        None \<Rightarrow> None
      | Some obj \<Rightarrow> if thread_owner (kthreads k ! od_owner obj) \<noteq> thread_owner (kthreads k ! e) then None else Some (od_object obj))"


subsection \<open>The first frame of a thread\<close>

lemma push_all_eq:
  "fst (push_all ws (p, m)) = p - 8 * of_nat (length ws)"
proof (induction ws arbitrary: p m)
  case (Cons w ws)
  have "fst (push_all (w # ws) (p, m)) = (p - 8) - 8 * of_nat (length ws)" using Cons by simp
  then show ?case by (simp add: distrib_left)
qed simp

lemma slot_inj:
  assumes "i < 2 ^ 60" "j < 2 ^ 60" "(p :: u64) - 8 * of_nat i = p - 8 * of_nat j"
  shows "i = j"
proof -
  have "(8 * of_nat i :: u64) = 8 * of_nat j" using assms(3) by simp
  moreover have "unat (8 * of_nat i :: u64) = 8 * i" if "i < 2 ^ 60" for i
    using that by (simp add: unat_word_ariths unat_of_nat)
  ultimately have "8 * i = 8 * j" using assms(1,2) by metis
  then show ?thesis by simp
qed


lemma push_all_other:
  "\<forall>i < length ws. a \<noteq> p - 8 * of_nat (Suc i) \<Longrightarrow> snd (push_all ws (p, m)) a = m a"
proof (induction ws arbitrary: p m)
  case (Cons w ws)
  have "a \<noteq> p - 8" using Cons.prems by (auto dest: spec [of _ 0])
  moreover have "\<forall>i < length ws. a \<noteq> (p - 8) - 8 * of_nat (Suc i)"
    using Cons.prems by (auto simp: algebra_simps dest: spec [of _ "Suc _"])
  then have "snd (push_all ws (p - 8, m(p - 8 := w))) a = (m(p - 8 := w)) a" by (rule Cons.IH)
  ultimately show ?case by simp
qed simp

lemma push_all_nth:
  "i < length ws \<Longrightarrow> length ws < 2 ^ 59 \<Longrightarrow> snd (push_all ws (p, m)) (p - 8 * of_nat (Suc i)) = ws ! i"
proof (induction ws arbitrary: p m i)
  case (Cons w ws)
  show ?case
  proof (cases i)
    case 0
    have "p - 8 \<noteq> (p - 8) - 8 * of_nat (Suc j)" if "j < length ws" for j
      using that Cons.prems slot_inj [of 0 "Suc j" "p - 8"] by auto
    then have "snd (push_all ws (p - 8, m(p - 8 := w))) (p - 8) = (m(p - 8 := w)) (p - 8)" by (intro push_all_other) blast
    then show ?thesis using 0 by simp
  next
    case (Suc j)
    have "snd (push_all ws (p - 8, m(p - 8 := w))) ((p - 8) - 8 * of_nat (Suc j)) = ws ! j"
      using Cons.prems Suc by (intro Cons.IH) auto
    moreover have "(p - 8) - 8 * of_nat (Suc j) = p - 8 * of_nat (Suc i)" using Suc by simp
    ultimately have "snd (push_all ws (p - 8, m(p - 8 := w))) (p - 8 * of_nat (Suc i)) = ws ! j" by metis
    then show ?thesis unfolding push_all.simps Suc nth_Cons_Suc .
  qed
qed simp

lemma initial_frame_length [simp]: "length (initial_frame t) = 24"
  by (simp add: initial_frame_def Let_def)

text \<open>Every saved register of a new thread.\<close>

definition first_register :: "thread \<Rightarrow> x86_field \<Rightarrow> u64" where
  "first_register t f = (case f of
      Ss \<Rightarrow> if thread_privilege t = Kernel_Thread then 0x10 else 0x23
    | Cs \<Rightarrow> if thread_privilege t = Kernel_Thread then 0x8 else 0x1b
    | Rsp \<Rightarrow> kernel_stack t | Rflags \<Rightarrow> 0x202 | Rip \<Rightarrow> entry_point t | _ \<Rightarrow> 0)"

lemma prepare_initial_stack_ok:
  assumes "prepare_initial_stack (t, m) = (t', m')"
  shows "t' = t\<lparr>native_context := kernel_stack t - 192\<rparr>" "m' (field_addr (native_context t') f) = first_register t f"
    "(\<And>i. i < 24 \<Longrightarrow> a \<noteq> kernel_stack t - 8 * of_nat (Suc i)) \<Longrightarrow> m' a = m a"
proof -
  let ?s = "kernel_stack t"
  obtain m1 where m1: "push_all (initial_frame t) (?s, m) = (?s - 192, m1)"
    using push_all_eq [of "initial_frame t" ?s m] by (cases "push_all (initial_frame t) (?s, m)") simp
  show t': "t' = t\<lparr>native_context := ?s - 192\<rparr>" using assms m1 by (simp add: prepare_initial_stack_def)
  have m': "m' = m1(field_addr (?s - 192) Rsp := ?s)" using assms m1 by (simp add: prepare_initial_stack_def)
  have slot: "field_addr (?s - 192) f = ?s - 8 * of_nat (Suc (23 - field_index f))" for f
    by (cases f) (simp_all add: field_addr_def)
  have at: "m1 (field_addr (?s - 192) f) = initial_frame t ! (23 - field_index f)" for f
    using push_all_nth [of "23 - field_index f" "initial_frame t" ?s m] m1 unfolding slot by simp
  have "field_addr (?s - 192) f = field_addr (?s - 192) Rsp \<Longrightarrow> f = Rsp"
    by (cases f) (simp_all add: field_addr_def)
  then show "m' (field_addr (native_context t') f) = first_register t f"
    unfolding t' m' by (cases f) (auto simp: at first_register_def initial_frame_def Let_def)
  show "m' a = m a" if "\<And>i. i < 24 \<Longrightarrow> a \<noteq> ?s - 8 * of_nat (Suc i)"
  proof -
    have "a \<noteq> field_addr (?s - 192) Rsp" using that [of 1] slot [of Rsp] by simp
    then show ?thesis using push_all_other [of "initial_frame t" a ?s m] that m1 unfolding m' by simp
  qed
qed

subsection \<open>The invariant of threads and processes\<close>

text \<open>
  The address spaces of all processes are sound; every thread has an entity and a process, and its
  saved registers lie in its kernel stack, two pages that are in use.
\<close>

definition stack_at :: "pgds \<Rightarrow> thread \<Rightarrow> nat \<Rightarrow> nat \<Rightarrow> bool" where
  "stack_at pds t i j \<longleftrightarrow> i + 2 \<le> length pds \<and> ptype (pds ! i) \<noteq> AVAILABLE \<and> ptype (pds ! Suc i) \<noteq> AVAILABLE
     \<and> pa_to_vpa (index_to_pa i) = Some (kernel_stack t - 0x2000) \<and> native_context t = kernel_stack t - 0x2000 + 8 * of_nat j \<and> j + 24 \<le> 1024"

definition threads_ok :: "('a, 'b) kernel_scheme \<Rightarrow> bool" where
  "threads_ok k \<longleftrightarrow> length (kthreads k) = length (entities (ksched k))
     \<and> (\<forall>t \<in> set (kthreads k). thread_owner t < length (kprocs k) \<and> (\<exists>i j. stack_at (pages (kmachine k)) t i j))"

definition kernel_ok :: "('a \<Rightarrow> pgds \<Rightarrow> bool) \<Rightarrow> ('a, 'b) kernel_scheme \<Rightarrow> bool" where
  "kernel_ok good k \<longleftrightarrow> spaces_ok good (map proc_vma (kprocs k)) (kmachine k) \<and> threads_ok k"

text \<open>Memory changes inside pages that were available before: nothing in use notices.\<close>

definition only_block :: "nat \<Rightarrow> nat \<Rightarrow> memory \<Rightarrow> memory \<Rightarrow> bool" where
  "only_block i n m m' \<longleftrightarrow> (\<exists>b. pa_to_vpa (index_to_pa i) = Some b \<and> pnzero b n m' = pnzero b n m)"

lemma only_block_cells:
  assumes "only_block i n m m'" "all_type pds i n AVAILABLE" "length pds \<le> 2 ^ 52" "i < 2 ^ 52"
  shows "same_cells m m' (owned pds)"
proof -
  obtain b where b: "pa_to_vpa (index_to_pa i) = Some b" "pnzero b n m' = pnzero b n m" using assms(1) by (auto simp: only_block_def)
  show ?thesis unfolding same_cells_def
  proof (intro ballI)
    fix c j assume cj: "c \<in> owned pds" "j \<in> tidx"
    show "m' (c + 8 * j) = m (c + 8 * j)"
      using pnzero_owned [OF cj b(1) assms(4,2,3), of m'] pnzero_owned [OF cj b(1) assms(4,2,3), of m] b(2) by simp
  qed
qed

lemma window_bound: "pa_to_vpa pa = Some b \<Longrightarrow> b < PMEM_VA_END"
  using vpa_roundtrip [of pa b] by (auto simp: vpa_to_pa_def bind_eq_Some_iff)

lemma two_pages_disjoint:
  fixes A B P :: nat
  assumes "B = P + i * 4096" "A = P + i' * 4096 + x" "x < 8192" "B \<le> A" "A < B + n * 4096"
    and dis: "\<not> (i \<le> i' \<and> i' < i + n)" "\<not> (i \<le> Suc i' \<and> Suc i' < i + n)"
  shows False
proof -
  have le: "i \<le> Suc i'" using assms(1-4) by linarith
  have "i' < i + n" using assms(1,2,5) by linarith
  then have "i = Suc i'" using le dis(1) by linarith
  then have "n = 0" using dis(2) by linarith
  then show False using assms(4,5) by simp
qed

lemma only_block_registers:
  assumes ob: "only_block i n m m'" "all_type pds i n AVAILABLE" "length pds \<le> 2 ^ 52" "i < 2 ^ 52" and st: "stack_at pds t i' j"
  shows "m' (field_addr (native_context t) f) = m (field_addr (native_context t) f)"
proof -
  obtain b where b: "pa_to_vpa (index_to_pa i) = Some b" "pnzero b n m' = pnzero b n m" using ob(1) by (auto simp: only_block_def)
  let ?c = "kernel_stack t - 0x2000" and ?a = "field_addr (native_context t) f"
  have l: "i' + 2 \<le> length pds" "j + 24 \<le> 1024" "field_index f < 24" using st by (cases f; simp add: stack_at_def)+
  have c: "unat ?c = unat PMEM_VA_START + i' * 4096" using st l ob(3) by (intro unat_window) (auto simp: stack_at_def)
  have ub: "unat b = unat PMEM_VA_START + i * 4096" by (rule unat_window [OF b(1) ob(4)])
  have a: "?a = ?c + 8 * of_nat (j + field_index f)" using st by (simp add: stack_at_def field_addr_def algebra_simps)
  have "unat ?c < 2 ^ 64 - 2 ^ 13"
    using window_bound [of "index_to_pa i'" ?c] st by (auto simp: stack_at_def PMEM_VA_END_def word_less_nat_alt)
  then have ua: "unat ?a = unat ?c + 8 * (j + field_index f)"
    unfolding a using l by (simp add: unat_word_ariths unat_of_nat)
  have "ptype (pds ! k) \<noteq> AVAILABLE" if "k = i' \<or> k = Suc i'" for k using st that by (auto simp: stack_at_def)
  then have dis: "\<not> (i \<le> i' \<and> i' < i + n)" "\<not> (i \<le> Suc i' \<and> Suc i' < i + n)" using ob(2) by (auto simp: all_type_def)
  have "8 * (j + field_index f) < 8192" using l by simp
  then have "\<not> (unat b \<le> unat ?a \<and> unat ?a < unat b + n * 4096)"
    using two_pages_disjoint [OF ub ua [unfolded c] _ _ _ dis] by blast
  then have "pnzero b n x ?a = x ?a" for x by (auto simp: pnzero_def word_le_nat_alt)
  then show ?thesis using b(2) by metis
qed

lemma spaces_bases: "map pgt_virt_base vs = map pgt_virt_base vs' \<Longrightarrow> spaces m vs U = spaces m vs' U"
proof (induction vs arbitrary: vs' U)
  case (Cons v vs)
  obtain w ws where w: "vs' = w # ws" "pgt_virt_base v = pgt_virt_base w" "map pgt_virt_base vs = map pgt_virt_base ws" using Cons.prems by auto
  show ?case using Cons.IH [OF w(3)] w(2) unfolding w(1) by (simp add: space_def)
qed simp

subsection \<open>Creating a thread\<close>

lemma frame_only_block:
  assumes b: "pa_to_vpa (index_to_pa i) = Some b" and t: "kernel_stack t = b + 0x2000"
    and p: "prepare_initial_stack (t, pnzero b 2 m) = (t', m')"
  shows "only_block i 2 m m'"
proof -
  have bound: "unat b + 8192 < 2 ^ 64" using window_bound [OF b] by (simp add: PMEM_VA_END_def word_less_nat_alt)
  have "pnzero b 2 m' a = pnzero b 2 m a" for a
  proof (cases "b \<le> a \<and> unat a < unat b + 2 * 4096")
    case False
    have "a \<noteq> kernel_stack t - 8 * of_nat (Suc j)" if "j < 24" for j
    proof -
      have d: "(of_nat (8184 - 8 * j) :: u64) = 8184 - 8 * of_nat j" using that by (subst of_nat_diff) auto
      obtain n where n: "n < 8192" "kernel_stack t - 8 * of_nat (Suc j) = b + of_nat n"
      proof
        show "8192 - 8 * Suc j < 8192" "kernel_stack t - 8 * of_nat (Suc j) = b + of_nat (8192 - 8 * Suc j)"
          using d unfolding t by simp_all
      qed
      have "unat (b + of_nat n) = unat b + n" using bound n(1) by (simp add: unat_word_ariths unat_of_nat)
      then show ?thesis using False n unfolding n(2) by (auto simp: word_le_nat_alt)
    qed
    then have "m' a = pnzero b 2 m a" by (rule prepare_initial_stack_ok(3) [OF p])
    then show ?thesis using False by (auto simp: pnzero_def)
  qed (simp add: pnzero_def)
  then show ?thesis using b by (auto simp: only_block_def)
qed

lemma Thread_new_eq:
  assumes "Thread_new (Some simple_alg) p priv entry prio name k = Inr (e, k')" "spaces_ok any_state vs (kmachine k)"
  obtains i b m v t mm where "pa_to_vpa (index_to_pa i) = Some b" "all_type (pages (kmachine k)) i 2 AVAILABLE"
    "types (pages m) = types (mark i 2 ALLOCATED (pages (kmachine k)))" "spaces_ok any_state vs m"
    "prepare_initial_stack (t, pnzero b 2 (mem (kmachine k))) = (t\<lparr>native_context := b + 0x2000 - 192\<rparr>, mm)" "kernel_stack t = b + 0x2000"
    "thread_owner t = p" "thread_privilege t = priv" "entry_point t = entry"
    "e = length (entities (ksched k))" "pgt_virt_base v = pgt_virt_base (proc_vma (kprocs k ! p))"
    "k' = (upd_proc p (\<lambda>q. q\<lparr>proc_vma := v\<rparr>) k)\<lparr>ksched := snd (new_entity prio (ksched k)), kmachine := m\<lparr>mem := mm\<rparr>,
      kthreads := kthreads k @ [t\<lparr>native_context := b + 0x2000 - 192\<rparr>]\<rparr>"
proof -
  obtain r v m where al: "allocate_phys (Some simple_alg) 1 (proc_vma (kprocs k ! p), kmachine k) = Some (r, v, m)"
    using assms(1) by (auto simp: Thread_new_def or_stop_def split: option.splits prod.splits)
  obtain i where i: "r = Some i" "all_type (pages (kmachine k)) i (2 ^ 1) AVAILABLE" "spaces_ok any_state vs m"
    "v = (proc_vma (kprocs k ! p))\<lparr>page_allocations := page_allocations (proc_vma (kprocs k ! p)) @ [(i, 1)]\<rparr>"
    "types (pages m) = types (mark i (2 ^ 1) ALLOCATED (pages (kmachine k)))"
    by (rule simple.allocate_phys_spaces [OF assms(2) al])
  obtain b where b: "pa_to_vpa (index_to_pa i) = Some b" "mem m = pnzero b 2 (mem (kmachine k))"
    using al i(1) by (auto simp: allocate_phys_def bind_eq_Some_iff split: option.splits)
  let ?t = "\<lparr>thread_owner = p, thread_privilege = priv, entry_point = entry, current_entry_argument = 0, thread_id = 0,
                native_context = 0, kernel_stack = b + 0x2000, thread_name = name, in_syscall = False, before_syscall_context = 0\<rparr>"
  obtain t' mm where pr: "prepare_initial_stack (?t, pnzero b 2 (mem (kmachine k))) = (t', mm)" by fastforce
  have t': "t' = ?t\<lparr>native_context := b + 0x2000 - 192\<rparr>" using prepare_initial_stack_ok(1) [OF pr] by simp
  have "Inr (e, k') = Inr (length (entities (ksched k)), (upd_proc p (\<lambda>q. q\<lparr>proc_vma := v\<rparr>) k)\<lparr>ksched := snd (new_entity prio (ksched k)),
      kmachine := m\<lparr>mem := mm\<rparr>, kthreads := kthreads k @ [t']\<rparr>)"
    using assms(1) al i(1) b pr by (auto simp: Thread_new_def or_stop_def new_entity_def)
  then show thesis using that [of i b m ?t mm v] b(1) i pr t' by simp
qed

lemma create_thread_eq:
  assumes ok: "kernel_ok any_state k" and p: "p < length (kprocs k)"
    and cr: "create_thread (Some simple_alg) p priv entry name prio k = Inr (e, k')"
  obtains i t v where "only_block i 2 (mem (kmachine k)) (mem (kmachine k'))" "all_type (pages (kmachine k)) i 2 AVAILABLE"
    "types (pages (kmachine k')) = types (mark i 2 ALLOCATED (pages (kmachine k)))" "machine_ok any_state (kmachine k')"
    "\<forall>f. mem (kmachine k') (field_addr (native_context t) f) = first_register t f"
    "stack_at (pages (kmachine k')) t i 1000" "thread_owner t = p" "thread_privilege t = priv" "entry_point t = entry"
    "e = length (kthreads k)" "kthreads k' = kthreads k @ [t]" "ksched k' = snd (new_entity prio (ksched k))"
    "pgt_virt_base v = pgt_virt_base (proc_vma (kprocs k ! p))"
    "kprocs k' = (kprocs k)[p := (kprocs k ! p)\<lparr>proc_vma := v, proc_threads := proc_threads (kprocs k ! p) @ [e]\<rparr>]"
proof -
  let ?M = "kmachine k" and ?id = "of_nat (length (proc_threads (kprocs k ! p))) :: u32"
  have sp: "spaces_ok any_state (map proc_vma (kprocs k)) ?M" and tk: "threads_ok k" using ok by (auto simp: kernel_ok_def)
  obtain k1 where k1: "Thread_new (Some simple_alg) p priv entry prio name k = Inr (e, k1)"
    and k': "k' = upd_proc p (\<lambda>q. q\<lparr>proc_threads := proc_threads q @ [e]\<rparr>)
       (upd_thread e (\<lambda>t. t\<lparr>thread_id := of_nat (length (proc_threads (kprocs k1 ! p)))\<rparr>) k1)"
    using cr by (auto simp: create_thread_def andthen_eq_Inr Let_def split: if_splits)
  obtain i b m v t mm where T: "pa_to_vpa (index_to_pa i) = Some b" "all_type (pages ?M) i 2 AVAILABLE"
    "types (pages m) = types (mark i 2 ALLOCATED (pages ?M))" "spaces_ok any_state (map proc_vma (kprocs k)) m"
    "prepare_initial_stack (t, pnzero b 2 (mem ?M)) = (t\<lparr>native_context := b + 0x2000 - 192\<rparr>, mm)" "kernel_stack t = b + 0x2000"
    "thread_owner t = p" "thread_privilege t = priv" "entry_point t = entry"
    "e = length (entities (ksched k))" "pgt_virt_base v = pgt_virt_base (proc_vma (kprocs k ! p))"
    "k1 = (upd_proc p (\<lambda>q. q\<lparr>proc_vma := v\<rparr>) k)\<lparr>ksched := snd (new_entity prio (ksched k)), kmachine := m\<lparr>mem := mm\<rparr>,
      kthreads := kthreads k @ [t\<lparr>native_context := b + 0x2000 - 192\<rparr>]\<rparr>"
    by (rule Thread_new_eq [OF k1 sp])
  let ?t = "t\<lparr>native_context := b + 0x2000 - 192, thread_id := ?id\<rparr>"
  have e: "e = length (kthreads k)" using T(10) tk by (simp add: threads_ok_def)
  have k'': "kthreads k' = kthreads k @ [?t]" "kmachine k' = m\<lparr>mem := mm\<rparr>" "ksched k' = snd (new_entity prio (ksched k))"
    "kprocs k' = (kprocs k)[p := (kprocs k ! p)\<lparr>proc_vma := v, proc_threads := proc_threads (kprocs k ! p) @ [e]\<rparr>]"
    using k' T(12) e p by (simp_all add: upd_proc_def upd_thread_def)
  have pg: "pages (m\<lparr>mem := mm\<rparr>) = pages m" by (simp add: pages_def)
  have "i + 2 \<le> length (pages ?M)" using T(2) by (simp add: all_type_def)
  then have "i + 2 \<le> length (pages m)" "ptype (pages m ! i) \<noteq> AVAILABLE" "ptype (pages m ! Suc i) \<noteq> AVAILABLE"
    using T(3) by (auto simp: types_eq_iff nth_mark)
  then have st: "stack_at (pages m) ?t i 1000" using T(1,6) by (simp add: stack_at_def)
  have reg: "mm (field_addr (native_context ?t) f) = first_register ?t f" for f
    using prepare_initial_stack_ok(2) [OF T(5), of f] by (simp add: first_register_def cong: x86_field.case_cong)
  have "machine_ok any_state (m\<lparr>mem := mm\<rparr>)" using T(4) by (simp add: spaces_ok_def machine_ok_def pages_def)
  then show thesis
    using that [of i ?t v] frame_only_block [OF T(1,6,5)] T st reg e k'' by (simp add: pg)
qed

lemma create_thread_ok:
  assumes ok: "kernel_ok any_state k" and p: "p < length (kprocs k)"
    and cr: "create_thread (Some simple_alg) p priv entry name prio k = Inr (e, k')"
  shows "kernel_ok any_state k' \<and> e = length (kthreads k) \<and> length (kthreads k') = Suc e
    \<and> thread_owner (kthreads k' ! e) = p \<and> thread_privilege (kthreads k' ! e) = priv \<and> entry_point (kthreads k' ! e) = entry
    \<and> proc_threads (kprocs k' ! p) = proc_threads (kprocs k ! p) @ [e] \<and> state_of (ksched k') e = STOPPED
    \<and> (\<forall>f. mem (kmachine k') (field_addr (native_context (kthreads k' ! e)) f) = first_register (kthreads k' ! e) f)
    \<and> (\<forall>e' < e. kthreads k' ! e' = kthreads k ! e'
        \<and> (\<forall>f. mem (kmachine k') (field_addr (native_context (kthreads k ! e')) f) = mem (kmachine k) (field_addr (native_context (kthreads k ! e')) f)))
    \<and> (\<forall>q < length (kprocs k). \<forall>va. user_va va \<longrightarrow>
        get_mapping va (proc_vma (kprocs k' ! q), kmachine k') = get_mapping va (proc_vma (kprocs k ! q), kmachine k))"
proof -
  let ?M = "kmachine k" and ?M' = "kmachine k'" and ?vs = "map proc_vma (kprocs k)" and ?vs' = "map proc_vma (kprocs k')"
  have tk: "threads_ok k" and spm: "spaces (mem ?M) ?vs (owned (pages ?M))" and len: "length (pages ?M) \<le> 2 ^ 52"
    using ok by (auto simp: kernel_ok_def spaces_ok_def machine_ok_def)
  obtain i t v where T: "only_block i 2 (mem ?M) (mem ?M')" "all_type (pages ?M) i 2 AVAILABLE"
    "types (pages ?M') = types (mark i 2 ALLOCATED (pages ?M))" "machine_ok any_state ?M'"
    "\<forall>f. mem ?M' (field_addr (native_context t) f) = first_register t f"
    "stack_at (pages ?M') t i 1000" "thread_owner t = p" "thread_privilege t = priv" "entry_point t = entry"
    "e = length (kthreads k)" "kthreads k' = kthreads k @ [t]" "ksched k' = snd (new_entity prio (ksched k))"
    "pgt_virt_base v = pgt_virt_base (proc_vma (kprocs k ! p))"
    "kprocs k' = (kprocs k)[p := (kprocs k ! p)\<lparr>proc_vma := v, proc_threads := proc_threads (kprocs k ! p) @ [e]\<rparr>]"
    by (rule create_thread_eq [OF assms])
  have i: "i < 2 ^ 52" using T(2) len by (simp add: all_type_def)
  have ty: "length (pages ?M') = length (pages ?M)" "\<And>j. j < length (pages ?M) \<Longrightarrow> ptype (pages ?M ! j) \<noteq> AVAILABLE \<Longrightarrow> ptype (pages ?M' ! j) \<noteq> AVAILABLE"
    using T(3) by (auto simp: types_eq_iff nth_mark)
  have same: "same_cells (mem ?M) (mem ?M') (owned (pages ?M))" by (rule only_block_cells [OF T(1,2) len i])
  have ow: "owned (pages ?M) \<subseteq> owned (pages ?M')" using ty by (auto simp: owned_def)
  have bases: "map pgt_virt_base ?vs' = map pgt_virt_base ?vs"
    using p T(13) unfolding T(14) by (auto simp: list_eq_iff_nth_eq nth_list_update)
  have "spaces_ok any_state ?vs' ?M'"
    using spaces_bases [OF bases] spaces_mono [OF spaces_cong [OF spm same] ow] T(4) by (simp add: spaces_ok_def)
  moreover have "stack_at (pages ?M') x i' j" if "stack_at (pages ?M) x i' j" for x i' j using that ty by (auto simp: stack_at_def)
  then have "\<exists>i j. stack_at (pages ?M') x i j" if "x \<in> set (kthreads k)" for x using that tk unfolding threads_ok_def by blast
  then have "threads_ok k'" using tk p T(6,7) unfolding threads_ok_def T(11,12,14) by (auto simp: new_entity_def)
  moreover have "mem ?M' (field_addr (native_context (kthreads k ! e')) f) = mem ?M (field_addr (native_context (kthreads k ! e')) f)" if "e' < e" for e' f
    using that T(10) tk only_block_registers [OF T(1,2) len i] unfolding threads_ok_def by (metis nth_mem)
  moreover have "get_mapping va (proc_vma (kprocs k' ! q), ?M') = get_mapping va (proc_vma (kprocs k ! q), ?M)" if "q < length (kprocs k)" "user_va va" for q va
    using arg_cong [OF bases, of "\<lambda>xs. xs ! q"] that spaces_look [OF spm same _ that(2), of "proc_vma (kprocs k ! q)"]
    by (simp add: get_mapping_look T(14))
  moreover have "state_of (ksched k') e = STOPPED" using tk T(10,12) by (simp add: new_entity_def threads_ok_def)
  ultimately show ?thesis using T p by (simp add: kernel_ok_def nth_append)
qed


subsection \<open>Stopping the threads of a process\<close>

text \<open>A change of state wakes waiters but adds none, and only threads that wait for another change with it.\<close>

definition calm :: "nat set \<Rightarrow> sched \<Rightarrow> sched \<Rightarrow> bool" where
  "calm E s s' \<longleftrightarrow> (\<forall>q. set (waiters (queues s' q)) \<subseteq> set (waiters (queues s q)))
     \<and> (\<forall>x. x \<notin> E \<longrightarrow> not_joining x s \<longrightarrow> state_of s' x = state_of s x)"

lemma calm_refl [simp]: "calm E s s"
  by (simp add: calm_def)

lemma calm_not_joining: "calm E s s' \<Longrightarrow> not_joining x s \<Longrightarrow> not_joining x s'"
  by (auto simp: calm_def not_joining_def)

lemma calm_trans:
  assumes "calm E s s'" "calm F s' s''"
  shows "calm (E \<union> F) s s''"
proof -
  have "set (waiters (queues s'' q)) \<subseteq> set (waiters (queues s q))" for q using assms unfolding calm_def by blast
  moreover have "state_of s'' x = state_of s x" if "x \<notin> E \<union> F" "not_joining x s" for x
    using assms that calm_not_joining [OF assms(1) that(2)] unfolding calm_def by simp
  ultimately show ?thesis by (simp add: calm_def)
qed

lemma calm_mono: "calm E s s' \<Longrightarrow> E \<subseteq> F \<Longrightarrow> calm F s s'"
  by (auto simp: calm_def)

lemma wake_all_calm:
  assumes "\<And>w s s'. f w s = Inr s' \<Longrightarrow> calm {w} s s'"
  shows "wake_all f ws s = Inr s' \<Longrightarrow> calm (set ws) s s'"
proof (induction ws arbitrary: s)
  case (Cons w ws)
  obtain s1 where s1: "f w s = Inr s1" "wake_all f ws s1 = Inr s'" using Cons.prems by (auto split: sum.splits)
  then show ?case using calm_trans [OF assms [OF s1(1)] Cons.IH [OF s1(2)]] by simp
qed simp

lemma wq_wake_calm:
  assumes "\<And>w s s'. f w s = Inr s' \<Longrightarrow> calm {w} s s'" "wq_wake f q s = Inr s'"
  shows "calm (set (waiters (queues s q))) s s'"
proof -
  obtain m s1 where s1: "wake_all f (waiters (queues s q)) (upd_queue q (\<lambda>w. w\<lparr>wq_lock := m\<rparr>) s) = Inr s1"
    "s' = unlock_queue q (upd_queue q (\<lambda>w. w\<lparr>waiters := []\<rparr>) s1)"
    using assms(2) by (auto simp: wq_wake_def lock_queue_def mutex_lock_def upd_queue_def split: sum.splits if_splits)
  have wl: "waiters (queues (upd_queue q (\<lambda>w. w\<lparr>wq_lock := m\<rparr>) s) q') = waiters (queues s q')"
    "entities (upd_queue q (\<lambda>w. w\<lparr>wq_lock := m\<rparr>) s) = entities s" for q' by (simp_all add: upd_queue_def)
  have "calm (set (waiters (queues s q))) s s1" using wake_all_calm [OF assms(1) s1(1)] unfolding calm_def not_joining_def wl .
  moreover have "set (waiters (queues s' q')) \<subseteq> set (waiters (queues s1 q'))" "entities s' = entities s1" for q'
    unfolding s1(2) by (auto simp: unlock_queue_def upd_queue_def)
  ultimately show ?thesis unfolding calm_def by (metis order_trans)
qed

lemma set_entity_state_calm: "set_entity_state n e st s = Inr s' \<Longrightarrow> calm {e} s s'"
proof (induction n arbitrary: e st s s')
  case (Suc n)
  have w: "calm {e} s s'" if "wq_wake (\<lambda>w. set_entity_state n w RUNNABLE) (State_changed e) (upd_entity e f r) = Inr s'"
    "queues r = queues s" "entities r = entities s" for e f r s s'
  proof -
    have "calm (set (waiters (queues s (State_changed e)))) (upd_entity e f r) s'"
      using wq_wake_calm [OF Suc.IH that(1)] that(2) by (simp add: upd_entity_def)
    then show ?thesis using that(2,3) unfolding calm_def not_joining_def upd_entity_def
      by (auto simp: nth_list_update)
  qed
  show ?case using Suc.prems by (auto intro: w simp: add_to_runqueue_def remove_from_runqueue_def split: if_splits)
qed simp

lemma estate_update: "estate (xs[i := (xs ! i)\<lparr>exec_start_time := r\<rparr>] ! x) = estate (xs ! x)"
  by (cases "i < length xs"; cases "x = i") (auto simp: list_update_beyond)

lemma schedule_calm: "schedule s = Inr s' \<Longrightarrow> calm {} s s'"
  by (auto simp: schedule_def activate_def upd_entity_def calm_def Let_def estate_update
      split: if_splits option.splits sum.splits prod.splits bool.splits)

lemma thread_stop_calm: "thread_stop_simple e s = Inr s' \<Longrightarrow> calm {e} s s'"
  using calm_trans [OF set_entity_state_calm schedule_calm]
  by (fastforce simp: thread_stop_simple_def set_state_def kernel_syscall_handler_def dest: set_entity_state_calm
      simp del: set_entity_state.simps split: if_splits sum.splits)

text \<open>The threads of the list up to and including the one that runs.\<close>

fun upto_running :: "nat option \<Rightarrow> nat list \<Rightarrow> nat list" where
  "upto_running c [] = []"
| "upto_running c (e # es) = (if c = Some e then [e] else e # upto_running c es)"

lemma thread_stop_switches:
  assumes inv: "sched_inv s" "active s" and e: "known e s" "not_joining e s" "current_thread s = Some e" and st: "thread_stop_simple e s = Inr s'"
  shows "current_thread s' \<noteq> Some e"
proof -
  obtain r where r: "set_state e STOPPED s = Inr r" "sched_inv r" "same_clock s r" "state_of r e = STOPPED"
    using set_state_other [OF inv(1), of e STOPPED] e by (auto simp: known_def)
  have "schedule r = Inr s'" using st e(3) r(1) by (simp add: thread_stop_simple_def kernel_syscall_handler_def)
  moreover have "active r" "chosen r \<noteq> e" using r inv(2) chosen_runnable [OF r(2)] by (auto simp: same_clock_def)
  ultimately show ?thesis using schedule_eq [OF r(2)] by auto
qed

lemma stop_threads_ok:
  assumes "sched_inv s" "active s" "\<forall>e \<in> set es. known e s \<and> not_joining e s" "distinct es"
  shows "\<exists>s'. stop_threads es s = Inr s' \<and> sched_inv s' \<and> calm (set (upto_running (current_thread s) es)) s s'
    \<and> (\<forall>e \<in> set (upto_running (current_thread s) es). state_of s' e = STOPPED)"
  using assms
proof (induction es arbitrary: s)
  case (Cons e es)
  have e: "known e s" "not_joining e s" using Cons.prems(3) by auto
  obtain s1 where s1: "thread_stop_simple e s = Inr s1" "sched_inv s1" "state_of s1 e = STOPPED"
    using thread_stop_simple_ok [OF Cons.prems(1) e(1)] e(2) by (auto simp: no_wait_cycle_def)
  have c1: "calm {e} s s1" by (rule thread_stop_calm [OF s1(1)])
  show ?case
  proof (cases "current_thread s = Some e")
    case True
    have "current_thread s1 \<noteq> Some e" by (rule thread_stop_switches [OF Cons.prems(1,2) e True s1(1)])
    then show ?thesis using True s1 c1 by auto
  next
    case False
    have "set_state e STOPPED s = Inr s1" using s1(1) False by (simp add: thread_stop_simple_def)
    then have sc: "same_clock s s1" using set_state_other [OF Cons.prems(1), of e STOPPED] e by (auto simp: known_def)
    then have k1: "current_thread s1 = current_thread s" "active s1" using Cons.prems(2) by (auto simp: same_clock_def)
    have "\<forall>x \<in> set es. known x s1 \<and> not_joining x s1"
      using Cons.prems(3) sc calm_not_joining [OF c1] by (auto simp: known_def same_clock_def)
    then obtain s' where s': "stop_threads es s1 = Inr s'" "sched_inv s'" "calm (set (upto_running (current_thread s1) es)) s1 s'"
      "\<forall>x \<in> set (upto_running (current_thread s1) es). state_of s' x = STOPPED"
      using Cons.IH [OF s1(2) k1(2)] Cons.prems(4) by auto
    have "set (upto_running c es) \<subseteq> set es" for c by (induction es) auto
    then have "e \<notin> set (upto_running (current_thread s) es)" using Cons.prems(4) by auto
    then have "state_of s' e = STOPPED" using s'(3) s1(3) calm_not_joining [OF c1 e(2)] k1(1) by (auto simp: calm_def)
    then show ?thesis using s1(1) s' k1(1) False calm_trans [OF c1 s'(3)] by auto
  qed
qed auto

lemma event_trigger_kept:
  assumes inv: "sched_inv s" and q: "external_queue q" and tr: "event_trigger q s = Inr s'"
  shows "kept s s' \<and> calm (set (waiters (queues s q))) s s'"
proof -
  have ok: "sched_ok {} s" "nonrun s < Suc (nonrun s)" "\<not> q_locked s q" using inv by (auto simp: sched_inv_def)
  have "kept s s'" using wq_wake_ok [OF wakes_thread_wake_up ok] q tr waked_kept by (cases q) (auto simp: event_trigger_def)
  moreover have "calm {w} r r'" if "thread_wake_up w r = Inr r'" for w r r'
    using that set_entity_state_calm by (simp add: thread_wake_up_def set_state_def del: set_entity_state.simps)
  then have "calm (set (waiters (queues s q))) s s'" using wq_wake_calm tr by (metis event_trigger_def)
  ultimately show ?thesis by simp
qed

lemma terminate_ok:
  assumes p: "p < length (kprocs k)" and inv: "sched_inv (ksched k)" "active (ksched k)"
    and ths: "distinct (proc_threads (kprocs k ! p))" "\<forall>e \<in> set (proc_threads (kprocs k ! p)). known e (ksched k) \<and> not_joining e (ksched k)"
  shows "\<exists>k'. terminate p k = Inr k' \<and> terminated (kprocs k' ! p) \<and> sched_inv (ksched k')
    \<and> (\<forall>e \<in> set (upto_running (current_thread (ksched k)) (proc_threads (kprocs k ! p))). state_of (ksched k') e = STOPPED)
    \<and> (\<forall>e. e \<notin> set (upto_running (current_thread (ksched k)) (proc_threads (kprocs k ! p))) \<longrightarrow> not_joining e (ksched k) \<longrightarrow>
        state_of (ksched k') e = (if e \<in> set (waiters (queues (ksched k) (Process_changed p))) then RUNNABLE else state_of (ksched k) e))"
proof -
  let ?s = "ksched k" and ?q = "Process_changed p" and ?ths = "proc_threads (kprocs k ! p)"
  obtain s1 where s1: "event_trigger ?q ?s = Inr s1" "sched_inv s1" "\<forall>w \<in> set (waiters (queues ?s ?q)). state_of s1 w = RUNNABLE"
    using event_trigger_ok [OF inv(1), of ?q] by auto
  have kc: "kept ?s s1" "calm (set (waiters (queues ?s ?q))) ?s s1" using event_trigger_kept [OF inv(1) _ s1(1)] by auto
  have a: "active s1" "current_thread s1 = current_thread ?s" using kc(1) inv(2) by (auto simp: kept_def)
  have "\<forall>e \<in> set ?ths. known e s1 \<and> not_joining e s1" using ths(2) kc calm_not_joining [OF kc(2)] by (auto simp: known_def kept_def)
  then obtain s' where s': "stop_threads ?ths s1 = Inr s'" "sched_inv s'" "calm (set (upto_running (current_thread ?s) ?ths)) s1 s'"
    "\<forall>e \<in> set (upto_running (current_thread ?s) ?ths). state_of s' e = STOPPED"
    using stop_threads_ok [OF s1(2) a(1) _ ths(1)] a(2) by auto
  have "state_of s' e = (if e \<in> set (waiters (queues ?s ?q)) then RUNNABLE else state_of ?s e)"
    if "e \<notin> set (upto_running (current_thread ?s) ?ths)" "not_joining e ?s" for e
    using that s'(3) s1(3) kc(2) calm_not_joining [OF kc(2) that(2)] by (auto simp: calm_def)
  moreover have "terminate p k = Inr ((upd_proc p (\<lambda>q. q\<lparr>exception_info := None, terminated := True\<rparr>) k)\<lparr>ksched := s'\<rparr>)"
    using s1(1) s'(1) p by (simp add: terminate_def on_sched_def upd_proc_def)
  ultimately show ?thesis using s' p by (simp add: upd_proc_def)
qed


subsection \<open>Handles\<close>

fun register_all :: "(nat \<times> kernel_object) list \<Rightarrow> ('a, 'b) kernel_scheme \<Rightarrow> u64 list \<times> ('a, 'b) kernel_scheme" where
  "register_all [] k = ([], k)"
| "register_all ((e, obj) # rs) k = (let (h, k) = register_object e obj k; (hs, k) = register_all rs k in (h # hs, k))"

lemma register_all_ok:
  assumes "register_all rs k = (hs, k')" "unat (next_handle k) + length rs < 2 ^ 64"
  shows "hs = map (\<lambda>i. next_handle k + of_nat i) [0..<length rs] \<and> kthreads k' = kthreads k
    \<and> (\<forall>i < length rs. kget (kobjects k') (next_handle k + of_nat i) = Some \<lparr>od_owner = fst (rs ! i), od_object = snd (rs ! i)\<rparr>)
    \<and> (\<forall>h. h \<notin> set hs \<longrightarrow> kget (kobjects k') h = kget (kobjects k) h)"
  using assms
proof (induction rs arbitrary: k hs)
  case (Cons r rs)
  obtain e obj where r: "r = (e, obj)" by fastforce
  define k1 where "k1 = snd (register_object e obj k)"
  have k1: "next_handle k1 = next_handle k + 1" "kthreads k1 = kthreads k"
    "kobjects k1 = kadd (next_handle k) \<lparr>od_owner = e, od_object = obj\<rparr> (kobjects k)"
    by (simp_all add: k1_def register_object_def Let_def)
  obtain hs' where hs': "register_all rs k1 = (hs', k')" "hs = next_handle k # hs'"
    using Cons.prems(1) r by (auto simp: k1_def register_object_def Let_def split: prod.splits)
  have u: "unat (next_handle k1) = unat (next_handle k) + 1" using Cons.prems(2) k1(1) by (simp add: unat_word_ariths)
  have IH: "hs' = map (\<lambda>i. next_handle k1 + of_nat i) [0..<length rs]" "kthreads k' = kthreads k1"
    "\<forall>i < length rs. kget (kobjects k') (next_handle k1 + of_nat i) = Some \<lparr>od_owner = fst (rs ! i), od_object = snd (rs ! i)\<rparr>"
    "\<forall>h. h \<notin> set hs' \<longrightarrow> kget (kobjects k') h = kget (kobjects k1) h"
    using Cons.IH [OF hs'(1)] Cons.prems(2) u by auto
  have sh: "next_handle k1 + of_nat i = next_handle k + of_nat (Suc i)" for i using k1(1) by simp
  have "next_handle k \<noteq> next_handle k + of_nat (Suc i)" if "i < length rs" for i
  proof -
    have "unat (of_nat (Suc i) :: u64) = Suc i" using that Cons.prems(2) by (simp add: unat_of_nat del: of_nat_Suc)
    then have "(of_nat (Suc i) :: u64) \<noteq> 0" by (metis nat.distinct(2) unat_0)
    then show ?thesis by simp
  qed
  then have new: "next_handle k \<notin> set hs'" unfolding IH(1) sh by auto
  have "hs = map (\<lambda>i. next_handle k + of_nat i) [0..<length (r # rs)]"
    unfolding hs'(2) IH(1) sh length_Cons map_upt_Suc by simp
  moreover have "kget (kobjects k') (next_handle k + of_nat i) = Some \<lparr>od_owner = fst ((r # rs) ! i), od_object = snd ((r # rs) ! i)\<rparr>"
    if "i < length (r # rs)" for i
    using that IH(3,4) new k1(3) sh r by (cases i) (auto simp: kmaps.get_add)
  moreover have "kget (kobjects k') h = kget (kobjects k) h" if "h \<notin> set hs" for h
    using that IH(4) hs'(2) k1(3) by (auto simp: kmaps.get_add)
  moreover have "kthreads k' = kthreads k" using IH(2) k1(2) by simp
  ultimately show ?case by blast
qed simp

subsection \<open>Futexes\<close>

lemma sint_small_ucast:
  fixes n :: u64
  assumes "unat n < 2 ^ 31"
  shows "sint (ucast n :: u32) = int (unat n)"
proof -
  have "int (unat n) < int (2 ^ 31)" using assms by (simp only: of_nat_less_iff)
  then have u: "uint n < 2 ^ 31" by simp
  have "uint (ucast n :: u32) = take_bit 32 (uint n)" by (simp add: unsigned_ucast_eq)
  also have "\<dots> = uint n" using u by (intro take_bit_int_eq_self) simp_all
  finally have "uint (ucast n :: u32) = uint n" .
  moreover have "signed_take_bit 31 (uint n) = uint n" using u by (intro signed_take_bit_int_eq_self) (simp_all add: order_trans [of _ 0])
  ultimately show ?thesis by (simp add: sint_uint)
qed

lemma free_queue_inv:
  assumes "sched_inv s" "external_queue q"
  shows "sched_inv (s\<lparr>queues := (queues s)(q := free_queue)\<rparr>)"
  using assms by (auto simp: sched_inv_def sched_ok_def rq_inv_def queues_ok_def locks_ok_def free_queue_def cong: option.case_cong)


subsection \<open>Examples\<close>

text \<open>Two adjacent pages are enough for a thread.\<close>

lemma create_thread_succeeds:
  assumes ok: "kernel_ok any_state k" and i: "all_type (pages (kmachine k)) i 2 AVAILABLE" "length (pages (kmachine k)) \<le> 2 ^ 20"
    and p: "\<not> (kernel_process (kprocs k ! p) \<and> priv = User_Thread)"
  shows "\<exists>e k'. create_thread (Some simple_alg) p priv entry name prio k = Inr (e, k')"
proof -
  obtain j pa where al: "alloc_pages (Some simple_alg) 1 (pgalloc (kmachine k)) = Inr (Some j, pa)"
    using simple_alloc_succeeds [of "pgalloc (kmachine k)" i 1] i(1) by (auto simp: pages_def)
  then have "all_type (pages (kmachine k)) j 2 AVAILABLE"
    using simple.alloc_pages_block [OF _ al] by (auto simp: pages_def)
  then have "j < 2 ^ 20" using i(2) by (simp add: all_type_def)
  then have "unat (index_to_pa j) < 2 ^ 32" using index_to_pa_unat [of j] by simp
  then obtain b where "pa_to_vpa (index_to_pa j) = Some b"
    by (simp add: pa_to_vpa_def PMEM_VA_SIZE_def PMEM_VA_END_def PMEM_VA_START_def word_less_nat_alt)
  then show ?thesis using al p
    by (auto simp: create_thread_def Thread_new_def allocate_phys_def outcome_option_def or_stop_def new_entity_def Let_def split: prod.splits)
qed

definition example_process :: "vma \<Rightarrow> nat list \<Rightarrow> kprocess" where
  "example_process v es = \<lparr>proc_name = [], kernel_process = False, terminated = False, proc_vma = v, proc_threads = es, main_thread = 0,
     exception_info = None, wake_queue_map = kempty, futex_mutex = \<lparr>mtx_locked = False, mtx_owner = None\<rparr>\<rparr>"

abbreviation no_space :: vma where
  "no_space \<equiv> \<lparr>pgt_phys_base = 0, pgt_virt_base = 0, next_free_address = 0, page_allocations = []\<rparr>"

definition example_kernel :: "sched \<Rightarrow> unit machine \<Rightarrow> vma \<Rightarrow> nat list \<Rightarrow> thread list \<Rightarrow> unit kernel" where
  "example_kernel s m v es ts = \<lparr>ksched = s, kmachine = m, kprocs = [example_process v es], kthreads = ts, next_handle = 1, kobjects = kempty\<rparr>"

definition example_thread :: "nat \<Rightarrow> thread" where
  "example_thread p = \<lparr>thread_owner = p, thread_privilege = User_Thread, entry_point = 0, current_entry_argument = 0, thread_id = 0,
     native_context = 0, kernel_stack = 0, thread_name = [], in_syscall = False, before_syscall_context = 0\<rparr>"

lemma example_space:
  "\<exists>v m. spaces_ok any_state [v] (m :: unit machine) \<and> (\<exists>i. all_type (pages m) i 2 AVAILABLE) \<and> length (pages m) \<le> 2 ^ 20"
proof -
  let ?m = "small_machine 4" and ?v0 = "\<lparr>pgt_phys_base = 0, pgt_virt_base = 0, next_free_address = 0xfff00000000, page_allocations = []\<rparr>"
  have sm: "spaces_ok any_state [] ?m" "available ?m = 4" "length (pages ?m) \<le> 2 ^ 20" using small_machine_ok [of 4] by auto
  obtain i v1 s1 where al: "allocate_phys (Some simple_alg) 0 (?v0, ?m) = Some (Some i, v1, s1)"
    using allocate_phys_succeeds [of ?m ?v0] sm by (auto simp: spaces_ok_def)
  obtain j where j: "all_type (pages ?m) j (2 ^ 0) AVAILABLE" "types (pages s1) = types (mark j (2 ^ 0) ALLOCATED (pages ?m))"
    by (rule simple.allocate_phys_spaces [OF sm(1) al]) auto
  obtain b where b: "pa_to_vpa (index_to_pa i) = Some b"
    using al by (auto simp: allocate_phys_def bind_eq_Some_iff split: option.splits)
  define v where "v = v1\<lparr>pgt_phys_base := index_to_pa i, pgt_virt_base := b\<rparr>"
  have vi: "vma_init (Some simple_alg) ?m = Some (v, s1)" using al b by (simp add: vma_init_def v_def)
  define s2 where "s2 = s1\<lparr>mem := (mem s1)(pgt_virt_base v + 8 * 0x1ff := 0, pgt_virt_base v + 8 * 0x100 := 0)\<rparr>"
  have km: "install_default_kernel_mapping (Some (\<lambda>i. 0)) (v, s1) = Some s2" by (simp add: install_default_kernel_mapping_def s2_def)
  have pg: "pages s2 = pages s1" by (simp add: s2_def pages_def)
  have "length (pages ?m) = 5" by (simp add: pages_def)
  then have ty: "length (pages s2) = 5" "\<And>x. x < 5 \<Longrightarrow> x \<noteq> j \<Longrightarrow> ptype (pages s2 ! x) = ptype (pages ?m ! x)"
    using j(2) unfolding pg by (auto simp: types_eq_iff nth_mark)
  have av: "ptype (pages ?m ! x) = AVAILABLE" if "0 < x" "x < 5" for x using that by (cases x) (auto simp: pages_def)
  have "all_type (pages s2) (if j < 3 then 3 else 1) 2 AVAILABLE" using ty av by (auto simp: all_type_def)
  moreover have "spaces_ok any_state [v] s2" by (rule simple.vma_init_spaces(1) [OF sm(1) vi km])
  moreover have "length (pages s2) \<le> 2 ^ 20" using ty(1) by simp
  ultimately show ?thesis by blast
qed

subsection \<open>Properties\<close>

text \<open>
  C7. Creating a thread succeeds when there are two adjacent free pages for its stack, except for a user thread of a kernel
  process. The new thread belongs to the process, is stopped, and starts at its entry point with the
  segments of its privilege and all other registers cleared. Nothing else changes: the saved registers
  of every other thread and every mapping of every address space are as before.
\<close>

theorem new_thread_starts_at_entry:
  assumes "kernel_ok any_state k" "p < length (kprocs k)" "\<not> (kernel_process (kprocs k ! p) \<and> priv = User_Thread)"
    and "all_type (pages (kmachine k)) i 2 AVAILABLE" "length (pages (kmachine k)) \<le> 2 ^ 20"
  shows "\<exists>e k'. create_thread (Some simple_alg) p priv entry name prio k = Inr (e, k') \<and> kernel_ok any_state k'
    \<and> e = length (kthreads k) \<and> thread_owner (kthreads k' ! e) = p \<and> state_of (ksched k') e = STOPPED
    \<and> (\<forall>f. mem (kmachine k') (field_addr (native_context (kthreads k' ! e)) f) = (case f of
          Rip \<Rightarrow> entry | Rflags \<Rightarrow> 0x202 | Rsp \<Rightarrow> kernel_stack (kthreads k' ! e)
        | Cs \<Rightarrow> if priv = Kernel_Thread then 0x8 else 0x1b | Ss \<Rightarrow> if priv = Kernel_Thread then 0x10 else 0x23 | _ \<Rightarrow> 0))
    \<and> (\<forall>e' < e. kthreads k' ! e' = kthreads k ! e'
        \<and> (\<forall>f. mem (kmachine k') (field_addr (native_context (kthreads k ! e')) f) = mem (kmachine k) (field_addr (native_context (kthreads k ! e')) f)))
    \<and> (\<forall>q < length (kprocs k). \<forall>va. user_va va \<longrightarrow>
        get_mapping va (proc_vma (kprocs k' ! q), kmachine k') = get_mapping va (proc_vma (kprocs k ! q), kmachine k))"
proof -
  obtain e k' where cr: "create_thread (Some simple_alg) p priv entry name prio k = Inr (e, k')"
    using create_thread_succeeds [OF assms(1,4,5,3)] by blast
  note ok = create_thread_ok [OF assms(1,2) cr]
  have "first_register (kthreads k' ! e) f = (case f of
          Rip \<Rightarrow> entry | Rflags \<Rightarrow> 0x202 | Rsp \<Rightarrow> kernel_stack (kthreads k' ! e)
        | Cs \<Rightarrow> if priv = Kernel_Thread then 0x8 else 0x1b | Ss \<Rightarrow> if priv = Kernel_Thread then 0x10 else 0x23 | _ \<Rightarrow> 0)" for f
    using ok by (cases f) (auto simp: first_register_def)
  then show ?thesis using cr ok by auto
qed

theorem new_thread_starts_at_entry_witness:
  "\<exists>v m e k'. create_thread (Some simple_alg) 0 User_Thread 0x400000 [] NORMAL_PRIORITY (example_kernel (power_on epoch) m v [] []) = Inr (e, k')
    \<and> mem (kmachine k') (field_addr (native_context (kthreads k' ! e)) Rip) = 0x400000
    \<and> mem (kmachine k') (field_addr (native_context (kthreads k' ! e)) Cs) = 0x1b"
proof -
  obtain v i and m :: "unit machine" where m: "spaces_ok any_state [v] m" "all_type (pages m) i 2 AVAILABLE" "length (pages m) \<le> 2 ^ 20"
    using example_space by blast
  let ?k = "example_kernel (power_on epoch) m v [] []"
  have "kernel_ok any_state ?k" using m(1) by (simp add: kernel_ok_def threads_ok_def example_kernel_def example_process_def power_on_def)
  then obtain e k' where r: "create_thread (Some simple_alg) 0 User_Thread 0x400000 [] NORMAL_PRIORITY ?k = Inr (e, k')"
    and f: "\<forall>f. mem (kmachine k') (field_addr (native_context (kthreads k' ! e)) f) = (case f of
          Rip \<Rightarrow> 0x400000 | Rflags \<Rightarrow> 0x202 | Rsp \<Rightarrow> kernel_stack (kthreads k' ! e)
        | Cs \<Rightarrow> if User_Thread = Kernel_Thread then 0x8 else 0x1b | Ss \<Rightarrow> if User_Thread = Kernel_Thread then 0x10 else 0x23 | _ \<Rightarrow> 0)"
    using new_thread_starts_at_entry [where k = ?k and p = 0 and priv = User_Thread and i = i and entry = "0x400000" and name = "[]" and prio = NORMAL_PRIORITY] m(2,3)
    by (auto simp: example_kernel_def example_process_def)
  have "mem (kmachine k') (field_addr (native_context (kthreads k' ! e)) Rip) = 0x400000"
    "mem (kmachine k') (field_addr (native_context (kthreads k' ! e)) Cs) = 0x1b" using f by simp_all
  then show ?thesis using r by blast
qed

text \<open>
  C16. Terminating a process, none of whose threads waits for another thread, marks it as terminated, wakes the threads that
  wait for it, and stops its threads in order, up to the thread that runs the call: the threads that
  come after that one in the list of the process keep their state.
\<close>

theorem terminate_stops_threads:
  assumes "p < length (kprocs k)" "sched_inv (ksched k)" "active (ksched k)" "distinct (proc_threads (kprocs k ! p))"
    and "\<forall>e \<in> set (proc_threads (kprocs k ! p)). known e (ksched k) \<and> not_joining e (ksched k)"
  shows "\<exists>k'. terminate p k = Inr k' \<and> terminated (kprocs k' ! p) \<and> sched_inv (ksched k')
    \<and> (\<forall>e \<in> set (upto_running (current_thread (ksched k)) (proc_threads (kprocs k ! p))). state_of (ksched k') e = STOPPED)
    \<and> (\<forall>e. e \<notin> set (upto_running (current_thread (ksched k)) (proc_threads (kprocs k ! p))) \<longrightarrow> not_joining e (ksched k) \<longrightarrow>
        state_of (ksched k') e = (if e \<in> set (waiters (queues (ksched k) (Process_changed p))) then RUNNABLE else state_of (ksched k) e))"
  by (rule terminate_ok [OF assms])

theorem terminate_stops_threads_witness:
  "\<exists>k'. terminate 0 (example_kernel (run_example epoch) (small_machine 0) no_space [1, 2] []) = Inr k' \<and> terminated (kprocs k' ! 0)
    \<and> state_of (ksched k') 1 = STOPPED \<and> state_of (ksched k') 2 = STOPPED"
proof -
  let ?k = "example_kernel (run_example epoch) (small_machine 0) no_space [1, 2] []"
  have "sched_inv (ksched ?k)" using run_reaches_inv [OF reachable_example booted_inv [OF booted_example]] by (simp add: example_kernel_def)
  moreover have "active (ksched ?k)" "current_thread (ksched ?k) = Some 0" "proc_threads (kprocs ?k ! 0) = [1, 2]" "length (kprocs ?k) = 1"
    by (simp_all add: example_kernel_def example_process_def run_example_def boot_example_def)
  moreover have "known e (ksched ?k) \<and> not_joining e (ksched ?k)" if "e = 1 \<or> e = 2" for e
    using that by (auto simp: known_def not_joining_def example_kernel_def run_example_def boot_example_def touched_queue_def free_queue_def)
  ultimately show ?thesis using terminate_stops_threads [of 0 ?k] by auto
qed

text \<open>
  C8. Handles are private to a process: after any sequence of registrations, the handle of each registration is different
  from all others; threads of the process that registered the object get the object, threads of other
  processes get nothing, and a number that was never handed out stands for nothing.
\<close>

theorem handles_are_private:
  assumes "kobjects k = kempty" "next_handle k = 1" "length rs < 2 ^ 64 - 1" "register_all rs k = (hs, k')"
  shows "distinct hs \<and> length hs = length rs
    \<and> (\<forall>i < length rs. get_object_secure e (hs ! i) k'
        = (if thread_owner (kthreads k ! fst (rs ! i)) = thread_owner (kthreads k ! e) then Some (snd (rs ! i)) else None))
    \<and> (\<forall>h. h \<notin> set hs \<longrightarrow> get_object_secure e h k' = None)"
proof -
  have R: "hs = map (\<lambda>i. next_handle k + of_nat i) [0..<length rs]" "kthreads k' = kthreads k"
    "\<forall>i < length rs. kget (kobjects k') (next_handle k + of_nat i) = Some \<lparr>od_owner = fst (rs ! i), od_object = snd (rs ! i)\<rparr>"
    "\<forall>h. h \<notin> set hs \<longrightarrow> kget (kobjects k') h = None"
    using register_all_ok [OF assms(4)] assms(1-3) by (auto simp: kmaps.get_emp)
  have "inj_on (\<lambda>i. next_handle k + of_nat i) {..<length rs}"
  proof (rule inj_onI)
    fix i j assume ij: "i \<in> {..<length rs}" "j \<in> {..<length rs}" "next_handle k + of_nat i = next_handle k + of_nat j"
    then have "unat (of_nat i :: u64) = unat (of_nat j :: u64)" by simp
    then show "i = j" using ij(1,2) assms(3) by (simp add: unat_of_nat)
  qed
  then have "distinct hs" unfolding R(1) by (simp add: distinct_map atLeast0LessThan)
  moreover have "hs ! i = next_handle k + of_nat i" if "i < length rs" for i using that unfolding R(1) by simp
  then have "get_object_secure e (hs ! i) k'
      = (if thread_owner (kthreads k ! fst (rs ! i)) = thread_owner (kthreads k ! e) then Some (snd (rs ! i)) else None)" if "i < length rs" for i
    using that R(2,3) by (simp add: get_object_secure_def)
  moreover have "get_object_secure e h k' = None" if "h \<notin> set hs" for h using that R(4) by (simp add: get_object_secure_def)
  moreover have "length hs = length rs" by (simp add: R(1))
  ultimately show ?thesis by (intro conjI allI impI)
qed


theorem handles_are_private_witness:
  "\<exists>h1 h2 k'. register_all [(1, File_object 5), (2, Thread_object 7)]
      (example_kernel (run_example epoch) (small_machine 0) no_space [] [example_thread 0, example_thread 0, example_thread 1]) = ([h1, h2], k')
    \<and> h1 \<noteq> h2 \<and> get_object_secure 0 h1 k' = Some (File_object 5) \<and> get_object_secure 0 h2 k' = None"
proof -
  let ?k = "example_kernel (run_example epoch) (small_machine 0) no_space [] [example_thread 0, example_thread 0, example_thread 1]"
  let ?rs = "[(1, File_object 5), (2, Thread_object 7)]"
  obtain hs k' where r: "register_all ?rs ?k = (hs, k')" by fastforce
  have "kobjects ?k = kempty" "next_handle ?k = 1" "length ?rs < 2 ^ 64 - 1" by (simp_all add: example_kernel_def)
  note p = handles_are_private [OF this r, of 0]
  then obtain h1 h2 where hs: "hs = [h1, h2]" by (auto simp: length_Suc_conv)
  have "h1 \<noteq> h2" "get_object_secure 0 h1 k' = Some (File_object 5)" "get_object_secure 0 h2 k' = None"
    using p unfolding hs by (auto simp: example_kernel_def example_thread_def less_Suc_eq All_less_Suc)
  then show ?thesis using r hs by blast
qed

lemma set_thread_waiting_ok:
  assumes p: "p < length (kprocs k)" "\<not> mtx_locked (futex_mutex (kprocs k ! p))"
    and map: "\<forall>q. kget (wake_queue_map (kprocs k ! p)) va = Some q \<longrightarrow> q = Futex p va"
    and e: "sched_inv (ksched k)" "current_thread (ksched k) = Some e" "e \<noteq> idle_entity (ksched k)" "not_joining e (ksched k)"
  obtains k1 where "set_thread_waiting p e va k = Inr k1" "sched_inv (ksched k1)" "state_of (ksched k1) e = SLEEPING"
    "active (ksched k) \<longrightarrow> current_thread (ksched k1) \<noteq> Some e" "kget (wake_queue_map (kprocs k1 ! p)) va = Some (Futex p va)"
    "waiters (queues (ksched k1) (Futex p va))
      = (if kget (wake_queue_map (kprocs k ! p)) va = None then [] else waiters (queues (ksched k) (Futex p va))) @ [e]"
proof -
  let ?q = "Futex p va" and ?m = "kget (wake_queue_map (kprocs k ! p)) va"
  define s0 where "s0 = (if ?m = None then (ksched k)\<lparr>queues := (queues (ksched k))(?q := free_queue)\<rparr> else ksched k)"
  have s0: "sched_inv s0" "current_thread s0 = Some e" "e \<noteq> idle_entity s0" "not_joining e s0" "active s0 = active (ksched k)"
    using e free_queue_inv [OF e(1), of ?q] by (auto simp: s0_def not_joining_def free_queue_def)
  obtain s1 where s1: "event_wait ?q s0 = Inr s1" "sched_inv s1" "state_of s1 e = SLEEPING" "active s0 \<longrightarrow> current_thread s1 \<noteq> Some e"
    using event_wait_ok [OF s0(1-4), of ?q] by auto
  have w: "waiters (queues s1 ?q) = waiters (queues s0 ?q) @ [e]" using event_wait_waiters [OF _ s1(1)] s0(2) by auto
  have sl: "wq_sleep ?q e s0 = Inr s1" using s1(1) s0(2) by (simp add: event_wait_def)
  show thesis
  proof (cases ?m)
    case None
    then show thesis using that sl p s1 w s0(5) unfolding s0_def
      by (simp add: set_thread_waiting_def lock_futexes_def mutex_lock_def unlock_futexes_def on_sched_def upd_proc_def Let_def kmaps.get_add free_queue_def)
  next
    case (Some q)
    then show thesis using that sl p map s1 w s0(5) unfolding s0_def
      by (simp add: set_thread_waiting_def lock_futexes_def mutex_lock_def unlock_futexes_def on_sched_def upd_proc_def Let_def)
  qed
qed

text \<open>
  C17. A thread that waits for a futex is asleep until it is woken: waking as many threads as were waiting makes it runnable.
\<close>

theorem futex_wake_reaches_waiter:
  assumes p: "p < length (kprocs k)" "\<not> mtx_locked (futex_mutex (kprocs k ! p))"
    and map: "\<forall>q. kget (wake_queue_map (kprocs k ! p)) va = Some q \<longrightarrow> q = Futex p va"
    and e: "sched_inv (ksched k)" "current_thread (ksched k) = Some e" "e \<noteq> idle_entity (ksched k)" "not_joining e (ksched k)"
    and n: "length (waiters (queues (ksched k) (Futex p va))) < unat n" "unat n < 2 ^ 31"
  shows "\<exists>k1 k2. set_thread_waiting p e va k = Inr k1 \<and> state_of (ksched k1) e = SLEEPING
    \<and> wake_up_threads p va n k1 = Inr k2 \<and> state_of (ksched k2) e = RUNNABLE \<and> e \<in> set (runqueue (ksched k2))"
proof -
  let ?q = "Futex p va"
  obtain k1 where k1: "set_thread_waiting p e va k = Inr k1" "sched_inv (ksched k1)" "state_of (ksched k1) e = SLEEPING"
      "kget (wake_queue_map (kprocs k1 ! p)) va = Some ?q"
    and w: "waiters (queues (ksched k1) ?q) = (if kget (wake_queue_map (kprocs k ! p)) va = None then [] else waiters (queues (ksched k) ?q)) @ [e]"
    by (rule set_thread_waiting_ok [OF p map e])
  let ?s1 = "ksched k1"
  have "sint (ucast n :: u32) = int (unat n)" by (rule sint_small_ucast [OF n(2)])
  then obtain s2 where s2: "wq_wakeMax (sint (ucast n :: u32)) ?q ?s1 = Inr s2" "sched_inv s2"
    "\<forall>w \<in> set (take (unat n) (waiters (queues ?s1 ?q))). state_of s2 w = RUNNABLE" "kept ?s1 s2"
    using wq_wakeMax_ok [OF k1(2), of ?q "sint (ucast n :: u32)"] by auto
  have "e \<in> set (take (unat n) (waiters (queues ?s1 ?q)))" using w n(1) by (simp add: take_Cons')
  then have r: "state_of s2 e = RUNNABLE" using s2(3) by blast
  have "e \<in> set (waiters (queues ?s1 ?q))" using w by simp
  then have "e < length (entities ?s1) \<and> e \<noteq> idle_entity ?s1" using k1(2) unfolding sched_inv_def sched_ok_def queues_ok_def by blast
  then have "e \<in> set (runqueue s2)" using r s2(4) runqueue_iff [OF s2(2)] by (simp add: kept_def)
  moreover have "wake_up_threads p va n k1 = Inr (k1\<lparr>ksched := s2\<rparr>)" using k1 s2(1) by (simp add: wake_up_threads_def on_sched_def)
  ultimately show ?thesis using k1 r by auto
qed

theorem futex_wake_reaches_waiter_witness:
  "\<exists>k1 k2. set_thread_waiting 0 1 0x500000 (example_kernel ((run_example epoch)\<lparr>current := Some 1, current_thread := Some 1\<rparr>) (small_machine 0) no_space [1, 2] []) = Inr k1
    \<and> wake_up_threads 0 0x500000 1 k1 = Inr k2 \<and> state_of (ksched k2) 1 = RUNNABLE"
proof -
  let ?s = "(run_example epoch)\<lparr>current := Some 1, current_thread := Some 1\<rparr>"
  let ?k = "example_kernel ?s (small_machine 0) no_space [1, 2] []"
  have "sched_inv ?s"
    by (rule sched_inv_frame [OF run_reaches_inv [OF reachable_example booted_inv [OF booted_example]]])
      (auto simp: run_example_def boot_example_def)
  moreover have "not_joining 1 ?s" "waiters (queues ?s (Futex 0 0x500000)) = []" "idle_entity ?s = 0"
    by (auto simp: run_example_def boot_example_def not_joining_def touched_queue_def free_queue_def)
  ultimately show ?thesis using futex_wake_reaches_waiter [where p = 0 and k = ?k and va = "0x500000" and e = 1 and n = 1]
    by (auto simp: example_kernel_def example_process_def kmaps.get_emp)
qed

end
