(* ===== verification/Elf.thy ===== *)
theory Elf
  imports Vfs Process
begin

text \<open>
  Starting programs: the loader of \<^verbatim>\<open>fs/exec/elf-loader.cpp\<close> and \<^verbatim>\<open>Kernel::launch_process\<close> of
  \<^verbatim>\<open>kernel/kernel.cpp\<close>. The image is given by what its virtual functions return: the bytes of
  \<^verbatim>\<open>read\<close> and \<^verbatim>\<open>pread\<close>, where \<open>None\<close> stops the kernel. What a fresh array holds before it is filled
  is the argument \<open>junk\<close>.
\<close>

subsection \<open>File format\<close>

text \<open>Little-endian numbers in a sequence of bytes.\<close>

fun le_value :: "chars \<Rightarrow> nat" where
  "le_value [] = 0"
| "le_value (b # bs) = unat b + 256 * le_value bs"

definition le_at :: "nat \<Rightarrow> nat \<Rightarrow> chars \<Rightarrow> nat" where
  "le_at off n xs = le_value (take n (drop off xs))"

record elf64_header =
  magic_number :: u32
  eclass :: u8
  ident_data :: u8
  elf_type :: u16
  elf_machine :: u16
  elf_version :: u32
  elf_entry_point :: u64
  phoff :: u64
  phentsize :: u16
  phnum :: u16

definition ELF64Header :: "chars \<Rightarrow> elf64_header" where
  "ELF64Header xs = \<lparr>magic_number = of_nat (le_at 0 4 xs), eclass = of_nat (le_at 4 1 xs), ident_data = of_nat (le_at 5 1 xs),
     elf_type = of_nat (le_at 16 2 xs), elf_machine = of_nat (le_at 18 2 xs), elf_version = of_nat (le_at 20 4 xs),
     elf_entry_point = of_nat (le_at 24 8 xs), phoff = of_nat (le_at 32 8 xs), phentsize = of_nat (le_at 54 2 xs), phnum = of_nat (le_at 56 2 xs)\<rparr>"

record elf64_program_header_entry =
  ph_type :: u32
  ph_offset :: u64
  ph_vaddr :: u64
  ph_filesz :: u64
  ph_memsz :: u64

definition ELF64ProgramHeaderEntry :: "chars \<Rightarrow> elf64_program_header_entry" where
  "ELF64ProgramHeaderEntry xs = \<lparr>ph_type = of_nat (le_at 0 4 xs), ph_offset = of_nat (le_at 8 8 xs), ph_vaddr = of_nat (le_at 16 8 xs),
     ph_filesz = of_nat (le_at 32 8 xs), ph_memsz = of_nat (le_at 40 8 xs)\<rparr>"

text \<open>The checks of the header before anything is created.\<close>

definition elf_accepts :: "chars \<Rightarrow> bool" where
  "elf_accepts xs =
     (if length xs \<noteq> 64 then False
      else let hdr = ELF64Header xs
        in if magic_number hdr \<noteq> 0x464c457f then False
           else if eclass hdr \<noteq> 2 then False
           else if ident_data hdr \<noteq> 1 then False
           else if elf_type hdr \<noteq> 2 then False
           else if elf_machine hdr \<noteq> 0x3e then False
           else if elf_version hdr \<noteq> 1 then False
           else True)"

subsection \<open>Loading\<close>

text \<open>An operation on the address space of a process.\<close>

definition on_vma :: "nat \<Rightarrow> (vma \<times> 'a machine \<Rightarrow> ('c \<times> vma \<times> 'a machine) option) \<Rightarrow> ('a, 'b) kernel_scheme \<Rightarrow> ('c \<times> ('a, 'b) kernel_scheme) outcome" where
  "on_vma p f k = andthen (or_stop (f (proc_vma (kprocs k ! p), kmachine k))) (\<lambda>(r, v, m).
     Inr (r, (upd_proc p (\<lambda>q. q\<lparr>proc_vma := v\<rparr>) k)\<lparr>kmachine := m\<rparr>))"

text \<open>\<^verbatim>\<open>new char[n]\<close> filled by \<^verbatim>\<open>pread\<close>.\<close>

definition read_segment :: "(u64 \<Rightarrow> u64 \<Rightarrow> chars option) \<Rightarrow> (nat \<Rightarrow> chars) \<Rightarrow> u64 \<Rightarrow> u64 \<Rightarrow> chars outcome" where
  "read_segment pread junk sz off = andthen (or_stop (pread sz off)) (\<lambda>xs. Inr (xs @ drop (length xs) (junk (unat sz))))"

definition load_segment :: "'a page_alg option \<Rightarrow> (u64 \<Rightarrow> u64 \<Rightarrow> chars option) \<Rightarrow> (nat \<Rightarrow> chars) \<Rightarrow> elf64_program_header_entry \<Rightarrow> nat
    \<Rightarrow> ('a, 'b) kernel_scheme \<Rightarrow> ('a, 'b) kernel_scheme outcome" where
  "load_segment alg pread junk ent p k =
     andthen (or_stop (is_mapped (ph_vaddr ent) (proc_vma (kprocs k ! p), kmachine k))) (\<lambda>mapped.
     andthen (if mapped then Inr k
              else let va = ph_vaddr ent AND 0xfffffffffffff000; shift = ph_vaddr ent - va
                   in map_sum id snd (on_vma p (allocate_virt alg va
                        (ucast (drop_bit 12 (align_up_page (ph_memsz ent)) + (if 0 < shift then 1 else 0)))) k)) (\<lambda>k.
     andthen (read_segment pread junk (ph_filesz ent) (ph_offset ent)) (\<lambda>buffer.
     map_sum id snd (on_vma p (copy_to (ph_vaddr ent) buffer) k))))"

text \<open>
  The loop over the program headers. The result is \<open>None\<close> for \<^verbatim>\<open>return NULL\<close>, which deletes the
  process, and otherwise whether an interpreter was asked for.
\<close>

definition linker_name :: chars where
  "linker_name = map of_char ''__INFOS_DYNAMIC_LINKER__'' @ [0]"

fun load_loop :: "'a page_alg option \<Rightarrow> (u64 \<Rightarrow> u64 \<Rightarrow> chars option) \<Rightarrow> (nat \<Rightarrow> chars) \<Rightarrow> elf64_header \<Rightarrow> nat \<Rightarrow> nat \<Rightarrow> nat \<Rightarrow> bool
    \<Rightarrow> ('a, 'b) kernel_scheme \<Rightarrow> (bool option \<times> ('a, 'b) kernel_scheme) outcome" where
  "load_loop alg pread junk hdr p i 0 use_interp k = Inr (Some use_interp, k)"
| "load_loop alg pread junk hdr p i (Suc n) use_interp k =
     (let off = phoff hdr + ucast ((of_nat i :: u32) * ucast (phentsize hdr))
      in andthen (or_stop (pread 56 off)) (\<lambda>xs.
         if length xs \<noteq> 56 then andthen (Process_destroy p k) (\<lambda>_. Inr (None, k))
         else let ent = ELF64ProgramHeaderEntry xs
           in if ph_type ent = 1 then
                andthen (load_segment alg pread junk ent p k) (load_loop alg pread junk hdr p (Suc i) n use_interp)
              else if ph_type ent = 3 then
                andthen (read_segment pread junk (ph_filesz ent) (ph_offset ent)) (\<lambda>buffer.
                andthen (or_stop (strncmp (Some buffer) (Some linker_name) (unat (ph_filesz ent)))) (\<lambda>r.
                if r \<noteq> 0 then andthen (Process_destroy p k) (\<lambda>_. Inr (None, k))
                else load_loop alg pread junk hdr p (Suc i) n True k))
              else load_loop alg pread junk hdr p (Suc i) n use_interp k))"

text \<open>Map a page and copy a string without its terminator; \<open>False\<close> is \<^verbatim>\<open>return NULL\<close>.\<close>

definition pass_string :: "'a page_alg option \<Rightarrow> nat \<Rightarrow> virt_addr \<Rightarrow> chars \<Rightarrow> ('a, 'b) kernel_scheme \<Rightarrow> (bool \<times> ('a, 'b) kernel_scheme) outcome" where
  "pass_string alg p va str k =
     andthen (on_vma p (allocate_virt alg va 1) k) (\<lambda>(_, k). on_vma p (copy_to va str) k)"

definition pass_cmdline :: "'a page_alg option \<Rightarrow> nat \<Rightarrow> nat \<Rightarrow> chars \<Rightarrow> ('a, 'b) kernel_scheme \<Rightarrow> (bool \<times> ('a, 'b) kernel_scheme) outcome" where
  "pass_cmdline alg p t cmdline k =
     (if cmdline \<noteq> [] then
        andthen (pass_string alg p 0x102000 cmdline k) (\<lambda>(ok, k). Inr (ok, if ok then add_entry_argument t 0x102000 k else k))
      else Inr (True, add_entry_argument t 0 k))"

definition elf_load :: "'a page_alg option \<Rightarrow> (u64 \<Rightarrow> u64) option \<Rightarrow> (nat \<Rightarrow> chars) \<Rightarrow> (u64 \<Rightarrow> chars option) \<Rightarrow> (u64 \<Rightarrow> u64 \<Rightarrow> chars option)
    \<Rightarrow> chars \<Rightarrow> chars \<Rightarrow> ('a, 'b) kernel_scheme \<Rightarrow> (nat option \<times> ('a, 'b) kernel_scheme) outcome" where
  "elf_load alg template_pml4 junk read pread cmdline path k =
     andthen (or_stop (read 64)) (\<lambda>xs.
     if \<not> elf_accepts xs then Inr (None, k)
     else let hdr = ELF64Header xs
       in andthen (Process_new alg template_pml4 (map of_char ''user'') False (elf_entry_point hdr) k) (\<lambda>(p, k).
          andthen (load_loop alg pread junk hdr p 0 (unat (phnum hdr)) False k) (\<lambda>(r, k).
          if r \<noteq> Some False then Inr (None, k)
          else
            let t = main_thread (kprocs k ! p)
            in andthen (allocate_user_stack alg t 0x100000 0x2000 k) (\<lambda>k.
               andthen (pass_cmdline alg p t cmdline k) (\<lambda>(ok, k).
               if \<not> ok then Inr (None, k)
               else andthen (pass_string alg p 0x103000 path k) (\<lambda>(ok, k).
                 if \<not> ok then Inr (None, k) else Inr (Some p, add_entry_argument t 0x103000 k)))))))"

text \<open>
  The image is opened through the file system; \<open>first\<close>, \<open>read\<close> and \<open>pread\<close> are its virtual functions: the
  16 bytes of the first read, the read of the loader after its seek to the start, and \<^verbatim>\<open>pread\<close>.
\<close>

record image =
  img_first :: "chars option"
  img_read :: "u64 \<Rightarrow> chars option"
  img_pread :: "u64 \<Rightarrow> u64 \<Rightarrow> chars option"

definition tar_image :: "tar_file \<Rightarrow> image" where
  "tar_image f =
     \<lparr>img_first = map_option fst (tar_read f 16),
      img_read = (\<lambda>sz. map_option fst (do { (xs, f) \<leftarrow> tar_read f 16; tar_read (tar_seek f 0 SeekAbsolute) sz })),
      img_pread = tar_pread f\<rparr>"

text \<open>The bytes of the array of 16 that the read does not fill are \<open>junk\<close>.\<close>

definition launch_process :: "'a page_alg option \<Rightarrow> (u64 \<Rightarrow> u64) option \<Rightarrow> (nat \<Rightarrow> chars) \<Rightarrow> (fs_file \<Rightarrow> image) \<Rightarrow> chars \<Rightarrow> chars
    \<Rightarrow> vfs \<times> ('a, 'b) kernel_scheme \<Rightarrow> (nat option \<times> vfs \<times> ('a, 'b) kernel_scheme) outcome" where
  "launch_process alg template_pml4 junk image_of path cmdline = (\<lambda>(fs, k).
     andthen (or_stop (vfs_open path fs)) (\<lambda>(f, fs).
     case f of
       None \<Rightarrow> Inr (None, fs, k)
     | Some f \<Rightarrow>
         let img = image_of f
         in andthen (or_stop (img_first img)) (\<lambda>xs.
            let hdr = xs @ drop (length xs) (junk 16)
            in if take 4 hdr = [0x7f, 0x45, 0x4c, 0x46] then
                 andthen (elf_load alg template_pml4 junk (img_read img) (img_pread img) cmdline path k) (\<lambda>(np, k).
                 case np of
                   None \<Rightarrow> Inr (None, fs, k)
                 | Some p \<Rightarrow> andthen (Process_start p k) (\<lambda>k. Inr (Some p, fs, k)))
               else Inr (None, fs, k))))"

subsection \<open>What loading changes\<close>

text \<open>Besides memory, only the address space of the process and the argument count of its thread.\<close>

definition loading :: "nat \<Rightarrow> nat \<Rightarrow> ('a, 'b) kernel_scheme \<Rightarrow> ('a, 'b) kernel_scheme \<Rightarrow> bool" where
  "loading p t k k' \<longleftrightarrow> ksched k' = ksched k \<and> next_handle k' = next_handle k \<and> kobjects k' = kobjects k \<and> kernel.more k' = kernel.more k
     \<and> length (kprocs k') = length (kprocs k) \<and> length (kthreads k') = length (kthreads k)
     \<and> (\<forall>q. q \<noteq> p \<longrightarrow> kprocs k' ! q = kprocs k ! q) \<and> (\<exists>v. p < length (kprocs k) \<longrightarrow> kprocs k' ! p = (kprocs k ! p)\<lparr>proc_vma := v\<rparr>)
     \<and> (\<forall>u. u \<noteq> t \<longrightarrow> kthreads k' ! u = kthreads k ! u) \<and> (\<exists>n. t < length (kthreads k) \<longrightarrow> kthreads k' ! t = (kthreads k ! t)\<lparr>current_entry_argument := n\<rparr>)"

lemma same_argument [simp]: "\<exists>n. (x :: thread) = x\<lparr>current_entry_argument := n\<rparr>"
  by (rule exI [of _ "current_entry_argument x"]) simp

lemma same_vma [simp]: "\<exists>v. (x :: kprocess) = x\<lparr>proc_vma := v\<rparr>"
  by (rule exI [of _ "proc_vma x"]) simp

lemma loading_refl [simp]: "loading p t k k"
  by (simp add: loading_def)

lemma loading_trans: "loading p t k k1 \<Longrightarrow> loading p t k1 k2 \<Longrightarrow> loading p t k k2"
  by (auto simp: loading_def)

lemma vma_loading: "loading p t k ((upd_proc p (\<lambda>q. q\<lparr>proc_vma := v\<rparr>) k)\<lparr>kmachine := m\<rparr>)"
  by (cases "p < length (kprocs k)") (auto simp: loading_def upd_proc_def)

lemma on_vma_loading: "on_vma p f k = Inr (r, k') \<Longrightarrow> loading p t k k'"
  by (auto simp: on_vma_def andthen_eq_Inr intro: vma_loading split: prod.splits)

lemma add_entry_argument_loading: "loading p t k (add_entry_argument t arg k)"
  by (cases "t < length (kthreads k)") (auto simp: loading_def add_entry_argument_def upd_mem_def upd_thread_def Let_def split: option.splits)

lemma allocate_user_stack_loading:
  assumes "allocate_user_stack alg t va sz k = Inr k'" "thread_owner (kthreads k ! t) = p"
  shows "loading p t k k'"
proof -
  obtain v m where k': "k' = (upd_proc p (\<lambda>q. q\<lparr>proc_vma := v\<rparr>) k)\<lparr>kmachine := m\<rparr>"
    using assms by (auto simp: allocate_user_stack_def upd_mem_def upd_proc_def andthen_eq_Inr Let_def split: prod.splits)
  show ?thesis unfolding k' by (rule vma_loading)
qed

lemma map_sum_Inr: "map_sum id f m = Inr y \<longleftrightarrow> (\<exists>x. m = Inr x \<and> y = f x)"
  by (cases m) auto

lemma load_segment_loading: "load_segment alg pread junk ent p k = Inr k' \<Longrightarrow> loading p t k k'"
  unfolding load_segment_def andthen_eq_Inr Let_def
  by (auto simp: map_sum_Inr split: if_splits intro: on_vma_loading loading_trans [OF on_vma_loading on_vma_loading])

lemma load_loop_loading: "load_loop alg pread junk hdr p i n ui k = Inr (r, k') \<Longrightarrow> loading p t k k'"
proof (induction n arbitrary: i ui k)
  case (Suc n)
  obtain xs where xs: "pread 56 (phoff hdr + ucast ((of_nat i :: u32) * ucast (phentsize hdr))) = Some xs"
    using Suc.prems by (auto simp: andthen_eq_Inr or_stop_def Let_def split: option.splits)
  let ?ent = "ELF64ProgramHeaderEntry xs"
  show ?case
  proof (cases "length xs = 56 \<and> ph_type ?ent = 1")
    case True
    then obtain k1 where k1: "load_segment alg pread junk ?ent p k = Inr k1" "load_loop alg pread junk hdr p (Suc i) n ui k1 = Inr (r, k')"
      using Suc.prems xs by (auto simp: andthen_eq_Inr or_stop_def Let_def)
    show ?thesis by (rule loading_trans [OF load_segment_loading [OF k1(1)] Suc.IH [OF k1(2)]])
  next
    case False
    then have "k' = k \<or> (\<exists>b. load_loop alg pread junk hdr p (Suc i) n b k = Inr (r, k'))"
      using Suc.prems xs by (auto simp: andthen_eq_Inr or_stop_def Let_def split: if_splits)
    then show ?thesis using Suc.IH by auto
  qed
qed simp

lemma pass_string_loading: "pass_string alg p va str k = Inr (ok, k') \<Longrightarrow> loading p t k k'"
  unfolding pass_string_def andthen_eq_Inr
  by (auto intro: loading_trans [OF on_vma_loading on_vma_loading])

lemma Thread_new_shape:
  assumes "Thread_new alg p priv entry prio name k = Inr (e, k')"
  shows "\<exists>v m t. e = length (entities (ksched k)) \<and> thread_owner t = p \<and> thread_privilege t = priv \<and> entry_point t = entry
    \<and> k' = (upd_proc p (\<lambda>q. q\<lparr>proc_vma := v\<rparr>) k)\<lparr>ksched := snd (new_entity prio (ksched k)), kmachine := m, kthreads := kthreads k @ [t]\<rparr>"
proof -
  obtain v m i b where "allocate_phys alg 1 (proc_vma (kprocs k ! p), kmachine k) = Some (Some i, v, m)" "pa_to_vpa (index_to_pa i) = Some b"
    using assms by (auto simp: Thread_new_def or_stop_def andthen_eq_Inr split: option.splits)
  moreover obtain t mm where t: "prepare_initial_stack (\<lparr>thread_owner = p, thread_privilege = priv, entry_point = entry, current_entry_argument = 0,
      thread_id = 0, native_context = 0, kernel_stack = b + 0x2000, thread_name = name, in_syscall = False, before_syscall_context = 0\<rparr>, mem m) = (t, mm)"
    by fastforce
  ultimately have "Inr (e, k') = Inr (length (entities (ksched k)), (upd_proc p (\<lambda>q. q\<lparr>proc_vma := v\<rparr>) k)
      \<lparr>ksched := snd (new_entity prio (ksched k)), kmachine := m\<lparr>mem := mm\<rparr>, kthreads := kthreads k @ [t]\<rparr>)"
    using assms by (auto simp: Thread_new_def or_stop_def new_entity_def)
  then show ?thesis using prepare_initial_stack_ok(1) [OF t]
    by (intro exI [of _ v] exI [of _ "m\<lparr>mem := mm\<rparr>"] exI [of _ t]) simp
qed

lemma create_thread_shape:
  assumes "create_thread alg p priv entry name prio k = Inr (e, k')" "length (kthreads k) = length (entities (ksched k))" "p < length (kprocs k)"
  shows "\<exists>v m t. e = length (kthreads k) \<and> thread_owner t = p \<and> thread_privilege t = priv \<and> entry_point t = entry
    \<and> k' = k\<lparr>kprocs := (kprocs k)[p := (kprocs k ! p)\<lparr>proc_vma := v, proc_threads := proc_threads (kprocs k ! p) @ [e]\<rparr>],
        ksched := snd (new_entity prio (ksched k)), kmachine := m, kthreads := kthreads k @ [t]\<rparr>"
proof -
  obtain k1 where k1: "Thread_new alg p priv entry prio name k = Inr (e, k1)"
    and k': "k' = upd_proc p (\<lambda>q. q\<lparr>proc_threads := proc_threads q @ [e]\<rparr>)
       (upd_thread e (\<lambda>t. t\<lparr>thread_id := of_nat (length (proc_threads (kprocs k1 ! p)))\<rparr>) k1)"
    using assms(1) by (auto simp: create_thread_def andthen_eq_Inr Let_def split: if_splits)
  obtain v m t where "e = length (kthreads k)" "thread_owner t = p" "thread_privilege t = priv" "entry_point t = entry"
    "k1 = (upd_proc p (\<lambda>q. q\<lparr>proc_vma := v\<rparr>) k)\<lparr>ksched := snd (new_entity prio (ksched k)), kmachine := m, kthreads := kthreads k @ [t]\<rparr>"
    using Thread_new_shape [OF k1] assms(2) by auto
  then show ?thesis using k' assms(3)
    by (intro exI [of _ v] exI [of _ m] exI [of _ "t\<lparr>thread_id := of_nat (length (proc_threads (kprocs k ! p)))\<rparr>"])
      (simp add: upd_proc_def upd_thread_def)
qed

lemma Process_new_shape:
  assumes "Process_new alg tmpl name b entry k = Inr (p, k')" "length (kthreads k) = length (entities (ksched k))"
  shows "p = length (kprocs k) \<and> length (kprocs k') = Suc p \<and> take p (kprocs k') = kprocs k
    \<and> length (kthreads k') = Suc (length (kthreads k)) \<and> take (length (kthreads k)) (kthreads k') = kthreads k
    \<and> main_thread (kprocs k' ! p) = length (kthreads k) \<and> proc_threads (kprocs k' ! p) = [length (kthreads k)]
    \<and> kernel_process (kprocs k' ! p) = b \<and> \<not> terminated (kprocs k' ! p)
    \<and> thread_owner (kthreads k' ! length (kthreads k)) = p \<and> entry_point (kthreads k' ! length (kthreads k)) = entry
    \<and> thread_privilege (kthreads k' ! length (kthreads k)) = (if b then Kernel_Thread else User_Thread)
    \<and> state_of (ksched k') (length (kthreads k)) = STOPPED
    \<and> next_handle k' = next_handle k \<and> kobjects k' = kobjects k \<and> kernel.more k' = kernel.more k"
proof -
  let ?n = "length (kprocs k)" and ?e = "length (kthreads k)"
  obtain m proc e k2 where k2: "create_thread alg ?n (if b then Kernel_Thread else User_Thread) entry (map of_char ''main'') NORMAL_PRIORITY
      (k\<lparr>kmachine := m, kprocs := kprocs k @ [proc], ksched := (ksched k)\<lparr>queues := (queues (ksched k))(Process_changed ?n := free_queue)\<rparr>\<rparr>) = Inr (e, k2)"
    and P: "kernel_process proc = b" "\<not> terminated proc" "proc_threads proc = []" "p = ?n" "k' = upd_proc ?n (\<lambda>q. q\<lparr>main_thread := e\<rparr>) k2"
    using assms(1) unfolding Process_new_def andthen_eq_Inr Let_def by (auto simp: andthen_eq_Inr)
  obtain v m' t where "e = ?e" "thread_owner t = ?n" "thread_privilege t = (if b then Kernel_Thread else User_Thread)" "entry_point t = entry"
    "k2 = k\<lparr>kprocs := kprocs k @ [proc\<lparr>proc_vma := v, proc_threads := [e]\<rparr>],
        ksched := snd (new_entity NORMAL_PRIORITY ((ksched k)\<lparr>queues := (queues (ksched k))(Process_changed ?n := free_queue)\<rparr>)),
        kmachine := m', kthreads := kthreads k @ [t]\<rparr>"
    using create_thread_shape [OF k2] assms(2) P(3) by auto
  then show ?thesis using P assms(2) by (simp add: upd_proc_def new_entity_def nth_append)
qed

lemma pass_cmdline_loading:
  assumes "pass_cmdline alg p t cmdline k = Inr (True, k')"
  shows "loading p t k k'"
proof (cases "cmdline = []")
  case True
  then show ?thesis using assms add_entry_argument_loading [of p t k 0] by (auto simp: pass_cmdline_def)
next
  case False
  then obtain k1 where "pass_string alg p 0x102000 cmdline k = Inr (True, k1)" "k' = add_entry_argument t 0x102000 k1"
    using assms by (auto simp: pass_cmdline_def andthen_eq_Inr split: prod.splits)
  then show ?thesis using loading_trans [OF pass_string_loading add_entry_argument_loading] by blast
qed

lemma elf_load_loading:
  assumes ld: "elf_load alg tmpl junk read pread cmdline path k = Inr (Some p, k')" and k: "length (kthreads k) = length (entities (ksched k))"
  obtains xs k1 where "read 64 = Some xs" "elf_accepts xs"
    "Process_new alg tmpl (map of_char ''user'') False (elf_entry_point (ELF64Header xs)) k = Inr (p, k1)" "loading p (length (kthreads k)) k1 k'"
proof -
  let ?t = "length (kthreads k)"
  obtain xs where xs: "read 64 = Some xs" "elf_accepts xs" using ld by (auto simp: elf_load_def or_stop_def split: option.splits if_splits)
  obtain q k1 where k1: "Process_new alg tmpl (map of_char ''user'') False (elf_entry_point (ELF64Header xs)) k = Inr (q, k1)"
    using ld xs by (auto simp: elf_load_def or_stop_def andthen_eq_Inr Let_def)
  note sh = Process_new_shape [OF k1 k]
  obtain r k2 where k2: "load_loop alg pread junk (ELF64Header xs) q 0 (unat (phnum (ELF64Header xs))) False k1 = Inr (r, k2)"
    using ld xs k1 by (auto simp: elf_load_def or_stop_def andthen_eq_Inr Let_def)
  have l2: "loading q ?t k1 k2" by (rule load_loop_loading [OF k2])
  then have t: "main_thread (kprocs k2 ! q) = ?t" "thread_owner (kthreads k2 ! ?t) = q" using sh by (auto simp: loading_def)
  have ld2: "andthen (allocate_user_stack alg ?t 0x100000 0x2000 k2) (\<lambda>k. andthen (pass_cmdline alg q ?t cmdline k) (\<lambda>(ok, k).
      if \<not> ok then Inr (None, k) else andthen (pass_string alg q 0x103000 path k) (\<lambda>(ok, k).
      if \<not> ok then Inr (None, k) else Inr (Some q, add_entry_argument ?t 0x103000 k)))) = Inr (Some p, k')"
    using ld xs k1 k2 t by (cases "r = Some False") (simp_all add: elf_load_def or_stop_def Let_def cong: if_cong)
  then obtain k3 where k3: "allocate_user_stack alg ?t 0x100000 0x2000 k2 = Inr k3" by (auto simp: andthen_eq_Inr)
  have l3: "loading q ?t k2 k3" by (rule allocate_user_stack_loading [OF k3 t(2)])
  obtain k4 where k4: "pass_cmdline alg q ?t cmdline k3 = Inr (True, k4)" using ld2 k3 by (auto simp: andthen_eq_Inr split: if_splits)
  have l4: "loading q ?t k3 k4" by (rule pass_cmdline_loading [OF k4])
  have ld3: "andthen (pass_string alg q 0x103000 path k4) (\<lambda>(ok, k).
      if \<not> ok then Inr (None, k) else Inr (Some q, add_entry_argument ?t 0x103000 k)) = Inr (Some p, k')"
    using ld2 k3 k4 by simp
  obtain b k5 where b: "pass_string alg q 0x103000 path k4 = Inr (b, k5)" using ld3 by (cases "pass_string alg q 0x103000 path k4") auto
  then have k5: "pass_string alg q 0x103000 path k4 = Inr (True, k5)" "k' = add_entry_argument ?t 0x103000 k5" "p = q"
    using ld3 by (cases b; simp)+
  have "loading q ?t k4 k'" unfolding k5(2) by (rule loading_trans [OF pass_string_loading [OF k5(1)] add_entry_argument_loading])
  then have "loading q ?t k1 k'" using l2 l3 l4 loading_trans by metis
  then show thesis using that xs k1 k5(3) by blast
qed



end
