(* ===== verification/Console.thy ===== *)
theory Console
  imports Sched_Run
begin

text \<open>
  Input and screen: the keyboard of \<^verbatim>\<open>drivers/input/keyboard.cpp\<close>, the terminals of
  \<^verbatim>\<open>drivers/terminal/terminal.cpp\<close>, the virtual consoles of \<^verbatim>\<open>drivers/console/virtual-console.cpp\<close> and
  the physical console of \<^verbatim>\<open>drivers/console/physical-console.cpp\<close> and \<^verbatim>\<open>drivers/video/vga-console.cpp\<close>.

  Consoles, terminals and screen buffers are numbers, the indices of lists; screen buffers are
  shared between a console and the video memory, so they are kept apart from the consoles. A thread
  that reads a terminal sleeps on the queue \<open>Terminal_input\<close> of the scheduler's state.
\<close>

subsection \<open>Keys\<close>

datatype keys =
    NO_KEY | UNKNOWN_KEY | KEY_ESCAPE
  | KEY_A | KEY_B | KEY_C | KEY_D | KEY_E | KEY_F | KEY_G | KEY_H | KEY_I | KEY_J | KEY_K | KEY_L | KEY_M
  | KEY_N | KEY_O | KEY_P | KEY_Q | KEY_R | KEY_S | KEY_T | KEY_U | KEY_V | KEY_W | KEY_X | KEY_Y | KEY_Z
  | KEY_1 | KEY_2 | KEY_3 | KEY_4 | KEY_5 | KEY_6 | KEY_7 | KEY_8 | KEY_9 | KEY_0
  | KEY_F1 | KEY_F2 | KEY_F3 | KEY_F4 | KEY_F5 | KEY_F6 | KEY_F7 | KEY_F8 | KEY_F9 | KEY_F10 | KEY_F11 | KEY_F12
  | KEY_ASTERISK | KEY_LSQBRACKET | KEY_RSQBRACKET
  | KEY_DOT | KEY_COMMA | KEY_SEMICOLON | KEY_APOSTROPHE | KEY_HASH | KEY_BACKSLASH | KEY_FORSLASH | KEY_BACKTICK
  | KEY_HYPHEN | KEY_EQUALS
  | KEY_TAB | KEY_RETURN | KEY_SPACE | KEY_BACKSPACE
  | KEY_CAPSLOCK | KEY_LSHIFT | KEY_RSHIFT | KEY_LCTRL | KEY_RCTRL | KEY_LALT | KEY_RALT

definition scancode_map :: "keys list" where
  "scancode_map = [
     NO_KEY, KEY_ESCAPE,
     KEY_1, KEY_2, KEY_3, KEY_4, KEY_5, KEY_6, KEY_7, KEY_8, KEY_9, KEY_0,
     KEY_HYPHEN, KEY_EQUALS, KEY_BACKSPACE, KEY_TAB,
     KEY_Q, KEY_W, KEY_E, KEY_R, KEY_T, KEY_Y, KEY_U, KEY_I, KEY_O, KEY_P, KEY_LSQBRACKET, KEY_RSQBRACKET,
     KEY_RETURN, KEY_LCTRL,
     KEY_A, KEY_S, KEY_D, KEY_F, KEY_G, KEY_H, KEY_J, KEY_K, KEY_L, KEY_SEMICOLON, KEY_APOSTROPHE, KEY_BACKTICK,
     KEY_LSHIFT,
     KEY_BACKSLASH, KEY_Z, KEY_X, KEY_C, KEY_V, KEY_B, KEY_N, KEY_M, KEY_COMMA, KEY_DOT, KEY_FORSLASH,
     KEY_RSHIFT, KEY_ASTERISK, KEY_LALT, KEY_SPACE, KEY_CAPSLOCK,
     KEY_F1, KEY_F2, KEY_F3, KEY_F4, KEY_F5, KEY_F6, KEY_F7, KEY_F8, KEY_F9, KEY_F10]"

text \<open>The check of the source lets the first scancode after the table through.\<close>

definition scancode_to_key :: "8 word \<Rightarrow> keys outcome" where
  "scancode_to_key scancode =
     (let key_scancode = scancode AND NOT 0x80
      in if length scancode_map < unat key_scancode then Inr UNKNOWN_KEY
         else if unat key_scancode < length scancode_map then Inr (scancode_map ! unat key_scancode)
         else Inl Out_of_bounds)"

text \<open>The lines \<^verbatim>\<open>KEY_MAPPING(key, upper, lower)\<close>.\<close>

definition key_mappings :: "(keys \<times> char \<times> char) list" where
  "key_mappings = [
     (KEY_A, CHR ''A'', CHR ''a''), (KEY_B, CHR ''B'', CHR ''b''), (KEY_C, CHR ''C'', CHR ''c''), (KEY_D, CHR ''D'', CHR ''d''),
     (KEY_E, CHR ''E'', CHR ''e''), (KEY_F, CHR ''F'', CHR ''f''), (KEY_G, CHR ''G'', CHR ''g''), (KEY_H, CHR ''H'', CHR ''h''),
     (KEY_I, CHR ''I'', CHR ''i''), (KEY_J, CHR ''J'', CHR ''j''), (KEY_K, CHR ''K'', CHR ''k''), (KEY_L, CHR ''L'', CHR ''l''),
     (KEY_M, CHR ''M'', CHR ''m''), (KEY_N, CHR ''N'', CHR ''n''), (KEY_O, CHR ''O'', CHR ''o''), (KEY_P, CHR ''P'', CHR ''p''),
     (KEY_Q, CHR ''Q'', CHR ''q''), (KEY_R, CHR ''R'', CHR ''r''), (KEY_S, CHR ''S'', CHR ''s''), (KEY_T, CHR ''T'', CHR ''t''),
     (KEY_U, CHR ''U'', CHR ''u''), (KEY_V, CHR ''V'', CHR ''v''), (KEY_W, CHR ''W'', CHR ''w''), (KEY_X, CHR ''X'', CHR ''x''),
     (KEY_Y, CHR ''Y'', CHR ''y''), (KEY_Z, CHR ''Z'', CHR ''z''),
     (KEY_0, CHR '')'', CHR ''0''), (KEY_1, CHR ''!'', CHR ''1''), (KEY_2, CHR 0x22, CHR ''2''), (KEY_3, CHR ''#'', CHR ''3''),
     (KEY_4, CHR ''$'', CHR ''4''), (KEY_5, CHR ''%'', CHR ''5''), (KEY_6, CHR ''^'', CHR ''6''), (KEY_7, CHR ''&'', CHR ''7''),
     (KEY_8, CHR ''*'', CHR ''8''), (KEY_9, CHR ''('', CHR ''9''),
     (KEY_HYPHEN, CHR ''_'', CHR ''-''), (KEY_EQUALS, CHR ''+'', CHR ''=''), (KEY_BACKSLASH, CHR ''|'', CHR 0x5C),
     (KEY_FORSLASH, CHR ''?'', CHR ''/''), (KEY_DOT, CHR ''>'', CHR ''.'')]"

subsection \<open>State\<close>

record terminal =
  read_buffer :: "u8 list"
  read_buffer_head :: u8
  read_buffer_tail :: u8
  attached_virt_console :: "nat option"

record virtual_console =
  current_mod_mask :: u32
  current_pos :: u16
  vc_terminal :: "nat option"
  vc_buffer :: "nat option"
  vc_ucb :: bool

text \<open>
  The screen buffers, one of them the video memory; the consoles and the terminals; the fields of
  the physical console and of the VGA device; whether the keyboard has a sink; the port writes.
\<close>

record console_state =
  buffers :: "u16 list list"
  vcs :: "virtual_console list"
  ttys :: "terminal list"
  pc_vcs :: "nat list"
  current_vc :: "nat option"
  alt_pressed :: bool
  video_ram :: nat
  backup_buffer :: "nat option"
  old_vc :: "nat option"
  sink_attached :: bool
  port_writes :: "(u16 \<times> u8) list"
  con_sched :: sched

definition upd_vc :: "nat \<Rightarrow> (virtual_console \<Rightarrow> virtual_console) \<Rightarrow> console_state \<Rightarrow> console_state" where
  "upd_vc v f s = s\<lparr>vcs := (vcs s)[v := f (vcs s ! v)]\<rparr>"

definition upd_tty :: "nat \<Rightarrow> (terminal \<Rightarrow> terminal) \<Rightarrow> console_state \<Rightarrow> console_state" where
  "upd_tty t f s = s\<lparr>ttys := (ttys s)[t := f (ttys s ! t)]\<rparr>"

subsection \<open>Terminals\<close>

text \<open>The constructor; \<open>junk\<close> is what the array happens to hold.\<close>

definition Terminal_new :: "u8 list \<Rightarrow> console_state \<Rightarrow> console_state" where
  "Terminal_new junk s = s\<lparr>ttys := ttys s @ [\<lparr>read_buffer = junk, read_buffer_head = 0, read_buffer_tail = 0, attached_virt_console = None\<rparr>],
     con_sched := (con_sched s)\<lparr>queues := (queues (con_sched s))(Terminal_input (length (ttys s)) := free_queue)\<rparr>\<rparr>"

definition append_to_read_buffer :: "nat \<Rightarrow> u8 \<Rightarrow> console_state \<Rightarrow> console_state outcome" where
  "append_to_read_buffer t c s =
     (let tty = ttys s ! t; tail = read_buffer_tail tty
      in if unat tail < length (read_buffer tty) then
           let s = upd_tty t (\<lambda>tty. tty\<lparr>read_buffer := (read_buffer tty)[unat tail := c], read_buffer_tail := (tail + 1) mod 64\<rparr>) s
           in andthen (event_trigger (Terminal_input t) (con_sched s)) (\<lambda>th. Inr (s\<lparr>con_sched := th\<rparr>))
         else Inl Out_of_bounds)"

text \<open>
  \<^verbatim>\<open>Terminal::read\<close> for the current thread until it returns or has to wait. A thread that waits
  leaves the number of bytes it still wants and those it has, and goes on from there when it is woken.
\<close>

datatype read_result = Returned "u8 list" | Waiting nat "u8 list"

fun read_loop :: "nat \<Rightarrow> nat \<Rightarrow> u8 list \<Rightarrow> console_state \<Rightarrow> (read_result \<times> console_state) outcome" where
  "read_loop t 0 buffer s = Inr (Returned buffer, s)"
| "read_loop t (Suc n) buffer s =
     (let tty = ttys s ! t; head = read_buffer_head tty
      in if head = read_buffer_tail tty then
           andthen (event_wait (Terminal_input t) (con_sched s)) (\<lambda>th. Inr (Waiting (Suc n) buffer, s\<lparr>con_sched := th\<rparr>))
         else if unat head < length (read_buffer tty) then
           read_loop t n (buffer @ [read_buffer tty ! unat head]) (upd_tty t (\<lambda>tty. tty\<lparr>read_buffer_head := (head + 1) mod 64\<rparr>) s)
         else Inl Out_of_bounds)"

definition Terminal_read :: "nat \<Rightarrow> nat \<Rightarrow> console_state \<Rightarrow> (read_result \<times> console_state) outcome" where
  "Terminal_read t sz s = (if sz = 0 then Inr (Returned [], s) else read_loop t sz [] s)"

subsection \<open>Virtual consoles\<close>

definition VirtualConsole_new :: "console_state \<Rightarrow> console_state" where
  "VirtualConsole_new s = s\<lparr>buffers := buffers s @ [replicate 2000 0x0700],
     vcs := vcs s @ [\<lparr>current_mod_mask = 0, current_pos = 0, vc_terminal = None, vc_buffer = Some (length (buffers s)), vc_ucb = False\<rparr>]\<rparr>"

definition attach_terminal :: "nat \<Rightarrow> nat \<Rightarrow> console_state \<Rightarrow> console_state" where
  "attach_terminal v t s = upd_tty t (\<lambda>tty. tty\<lparr>attached_virt_console := Some v\<rparr>) (upd_vc v (\<lambda>c. c\<lparr>vc_terminal := Some t\<rparr>) s)"

definition Shift :: u32 where
  "Shift = 2"

definition vc_key_up :: "nat \<Rightarrow> keys \<Rightarrow> console_state \<Rightarrow> console_state" where
  "vc_key_up v key s =
     (if key = KEY_LSHIFT \<or> key = KEY_RSHIFT
      then upd_vc v (\<lambda>c. c\<lparr>current_mod_mask := current_mod_mask c AND NOT Shift\<rparr>) s else s)"

definition vc_append :: "nat \<Rightarrow> char \<Rightarrow> console_state \<Rightarrow> console_state outcome" where
  "vc_append v ch s = (case vc_terminal (vcs s ! v) of None \<Rightarrow> Inl Null_dereference | Some t \<Rightarrow> append_to_read_buffer t (of_char ch) s)"

definition vc_key_down :: "nat \<Rightarrow> keys \<Rightarrow> console_state \<Rightarrow> console_state outcome" where
  "vc_key_down v key s =
     (case map_of key_mappings key of
        Some (upper, lower) \<Rightarrow> vc_append v (if current_mod_mask (vcs s ! v) AND Shift \<noteq> 0 then upper else lower) s
      | None \<Rightarrow>
          if key = KEY_SPACE then vc_append v (CHR '' '') s
          else if key = KEY_RETURN then vc_append v (CHR 0x0A) s
          else if key = KEY_BACKSPACE then vc_append v (CHR 0x08) s
          else if key = KEY_LSHIFT \<or> key = KEY_RSHIFT
          then Inr (upd_vc v (\<lambda>c. c\<lparr>current_mod_mask := current_mod_mask c OR Shift\<rparr>) s)
          else Inr s)"

text \<open>The scroll copies the lines after the first over those before the last, and clears the last.\<close>

definition scroll_one_line :: "u16 list \<Rightarrow> u16 list" where
  "scroll_one_line buffer = drop 80 (take 2000 buffer) @ replicate 80 0x0700 @ drop 2000 buffer"

text \<open>
  One round of the loop of \<^verbatim>\<open>VirtualConsole::write\<close>: attribute, escape state, position and buffer. A
  character is signed, so one above 127 also sets the attribute bits.
\<close>

definition write_cell :: "u32 \<Rightarrow> u32 \<Rightarrow> u16 \<Rightarrow> u16 list \<Rightarrow> u16 list outcome" where
  "write_cell attr c p buffer = (if unat p < length buffer then Inr (buffer[unat p := ucast (attr OR c)]) else Inl Out_of_bounds)"

definition write_step :: "u8 \<Rightarrow> u32 \<times> nat \<times> u16 \<times> u16 list \<Rightarrow> (u32 \<times> nat \<times> u16 \<times> u16 list) outcome" where
  "write_step c = (\<lambda>(attr, st, p, buffer).
     if st = 1 then Inr (push_bit 8 (scast c), 0, p, buffer)
     else if st = 0 then
       andthen (if c = 0x0A then Inr (0, p + (80 - p mod 80), buffer)
              else if c = 0x0D then Inr (0, p - p mod 80, buffer)
              else if c = 0x1B then Inr (1, p, buffer)
              else if c = 0x08 then andthen (write_cell attr 0x20 (p - 1) buffer) (\<lambda>buffer. Inr (0, p - 1, buffer))
              else andthen (write_cell attr (scast c) p buffer) (\<lambda>buffer. Inr (0, p + 1, buffer)))
         (\<lambda>(st, p, buffer). Inr (if 2000 \<le> p then (attr, st, 80 * 24, scroll_one_line buffer) else (attr, st, p, buffer)))
     else Inr (attr, st, p, buffer))"

fun write_loop :: "u8 list \<Rightarrow> u32 \<times> nat \<times> u16 \<times> u16 list \<Rightarrow> (u32 \<times> nat \<times> u16 \<times> u16 list) outcome" where
  "write_loop [] w = Inr w"
| "write_loop (c # cs) w = andthen (write_step c w) (write_loop cs)"

text \<open>\<^verbatim>\<open>VGAConsoleDevice::VCUpdateCallback\<close> moves the cursor.\<close>

definition VCUpdateCallback :: "nat \<Rightarrow> console_state \<Rightarrow> console_state" where
  "VCUpdateCallback v s = (let p = current_pos (vcs s ! v)
     in s\<lparr>port_writes := port_writes s @ [(0x3d4, 0xf), (0x3d5, ucast p), (0x3d4, 0xe), (0x3d5, ucast (drop_bit 8 p))]\<rparr>)"

text \<open>The loop counts in 32 bits, so it never reaches a size beyond them.\<close>

definition VirtualConsole_write :: "nat \<Rightarrow> u8 list \<Rightarrow> console_state \<Rightarrow> (u32 \<times> console_state) outcome" where
  "VirtualConsole_write v bytes s =
     (case vc_buffer (vcs s ! v) of
        None \<Rightarrow> Inr (0, s)
      | Some b \<Rightarrow>
          if 2 ^ 32 \<le> length bytes then Inl Never_returns
          else andthen (write_loop bytes (0x0700, 0, current_pos (vcs s ! v), buffers s ! b)) (\<lambda>(attr, st, p, buffer).
            let s = upd_vc v (\<lambda>c. c\<lparr>current_pos := p\<rparr>) (s\<lparr>buffers := (buffers s)[b := buffer]\<rparr>)
            in Inr (of_nat (length bytes), if vc_ucb (vcs s ! v) then VCUpdateCallback v s else s)))"

definition Terminal_write :: "nat \<Rightarrow> u8 list \<Rightarrow> console_state \<Rightarrow> (u32 \<times> console_state) outcome" where
  "Terminal_write t bytes s =
     (case attached_virt_console (ttys s ! t) of Some v \<Rightarrow> VirtualConsole_write v bytes s | None \<Rightarrow> Inr (0, s))"

text \<open>\<^verbatim>\<open>VirtualConsoleFile::pwrite\<close> stores two bytes at any offset it is given.\<close>

definition VirtualConsoleFile_pwrite :: "nat \<Rightarrow> u8 list \<Rightarrow> u64 \<Rightarrow> console_state \<Rightarrow> (u32 \<times> console_state) outcome" where
  "VirtualConsoleFile_pwrite v bytes offset s =
     (if length bytes \<noteq> 2 then Inr (0, s)
      else case vc_buffer (vcs s ! v) of
        None \<Rightarrow> Inl Null_dereference
      | Some b \<Rightarrow>
          if unat offset < length (buffers s ! b)
          then Inr (2, s\<lparr>buffers := (buffers s)[b := (buffers s ! b)[unat offset := ucast (bytes ! 0) OR push_bit 8 (ucast (bytes ! 1))]]\<rparr>)
          else Inl Out_of_bounds)"

subsection \<open>The physical console\<close>

definition set_buffer :: "nat \<Rightarrow> nat option \<Rightarrow> bool \<Rightarrow> console_state \<Rightarrow> console_state" where
  "set_buffer v b ucb s = upd_vc v (\<lambda>c. c\<lparr>vc_buffer := b, vc_ucb := ucb\<rparr>) s"

definition copy_buffer :: "nat option \<Rightarrow> nat option \<Rightarrow> console_state \<Rightarrow> console_state outcome" where
  "copy_buffer d e s = (case (d, e) of
      (Some d, Some e) \<Rightarrow>
        if length (buffers s ! d) < 2000 \<or> length (buffers s ! e) < 2000 then Inl Out_of_bounds
        else Inr (s\<lparr>buffers := (buffers s)[d := take 2000 (buffers s ! e) @ drop 2000 (buffers s ! d)]\<rparr>)
    | _ \<Rightarrow> Inl Null_dereference)"

definition virtual_console_changed :: "console_state \<Rightarrow> console_state outcome" where
  "virtual_console_changed s =
     andthen (case old_vc s of
              Some v \<Rightarrow> let s = set_buffer v (backup_buffer s) False s
                        in copy_buffer (vc_buffer (vcs s ! v)) (Some (video_ram s)) s
            | None \<Rightarrow> Inr s) (\<lambda>s.
     case current_vc s of
       None \<Rightarrow> Inl Null_dereference
     | Some v \<Rightarrow>
         let s = s\<lparr>backup_buffer := vc_buffer (vcs s ! v)\<rparr>;
             s = set_buffer v (Some (video_ram s)) True s
         in andthen (if backup_buffer s \<noteq> None then copy_buffer (vc_buffer (vcs s ! v)) (backup_buffer s) s else Inr s) (\<lambda>s.
            Inr (VCUpdateCallback v (s\<lparr>old_vc := Some v\<rparr>))))"

definition set_current_vc :: "nat \<Rightarrow> console_state \<Rightarrow> console_state outcome" where
  "set_current_vc v s = virtual_console_changed (s\<lparr>current_vc := Some v\<rparr>)"

definition add_virtual_console :: "nat \<Rightarrow> console_state \<Rightarrow> console_state outcome" where
  "add_virtual_console v s =
     (let s = s\<lparr>pc_vcs := pc_vcs s @ [v]\<rparr> in if length (pc_vcs s) = 1 then set_current_vc v s else Inr s)"

definition pc_key_up :: "keys \<Rightarrow> console_state \<Rightarrow> console_state" where
  "pc_key_up key s =
     (let s = (if key = KEY_LALT \<or> key = KEY_RALT then s\<lparr>alt_pressed := False\<rparr> else s)
      in case current_vc s of Some v \<Rightarrow> vc_key_up v key s | None \<Rightarrow> s)"

definition select_vc :: "nat \<Rightarrow> console_state \<Rightarrow> console_state outcome" where
  "select_vc i s = (if i < length (pc_vcs s) then set_current_vc (pc_vcs s ! i) s else Inl Assertion_failure)"

definition pc_key_down :: "keys \<Rightarrow> console_state \<Rightarrow> console_state outcome" where
  "pc_key_down key s =
     (if key = KEY_F1 \<and> alt_pressed s then select_vc 0 s
      else if key = KEY_F2 \<and> alt_pressed s then select_vc 1 s
      else
        let s = (if key = KEY_LALT \<or> key = KEY_RALT then s\<lparr>alt_pressed := True\<rparr> else s)
        in case current_vc s of Some v \<Rightarrow> vc_key_down v key s | None \<Rightarrow> Inr s)"

subsection \<open>The keyboard\<close>

definition handle_key_event :: "8 word \<Rightarrow> console_state \<Rightarrow> console_state outcome" where
  "handle_key_event scancode s =
     (if \<not> sink_attached s then Inr s
      else if bit scancode 7 then andthen (scancode_to_key scancode) (\<lambda>key. Inr (pc_key_up key s))
      else andthen (scancode_to_key scancode) (\<lambda>key. pc_key_down key s))"

fun handle_key_events :: "8 word list \<Rightarrow> console_state \<Rightarrow> console_state outcome" where
  "handle_key_events [] s = Inr s"
| "handle_key_events (c # cs) s = andthen (handle_key_event c s) (handle_key_events cs)"

subsection \<open>Boot\<close>

text \<open>
  The console part of \<^verbatim>\<open>console_init\<close> and \<^verbatim>\<open>activate_console\<close>: a VGA console whose video memory holds
  \<open>vram\<close>, two terminals, two virtual consoles, and how they are connected.
\<close>

definition console_init :: "u16 list \<Rightarrow> u8 list \<Rightarrow> u8 list \<Rightarrow> sched \<Rightarrow> console_state" where
  "console_init vram junk0 junk1 th =
     (let s = \<lparr>buffers = [vram], vcs = [], ttys = [], pc_vcs = [], current_vc = None, alt_pressed = False, video_ram = 0,
        backup_buffer = None, old_vc = None, sink_attached = False, port_writes = [], con_sched = th\<rparr>
      in VirtualConsole_new (VirtualConsole_new (Terminal_new junk1 (Terminal_new junk0 s))))"

definition activate_console :: "console_state \<Rightarrow> console_state outcome" where
  "activate_console s =
     (let s = attach_terminal 1 1 (attach_terminal 0 0 s); s = s\<lparr>sink_attached := True\<rparr>
      in andthen (add_virtual_console 0 s) (add_virtual_console 1))"

subsection \<open>The input of a terminal is a queue\<close>

definition tty_ok :: "terminal \<Rightarrow> bool" where
  "tty_ok tty \<longleftrightarrow> length (read_buffer tty) = 64 \<and> read_buffer_head tty < 64 \<and> read_buffer_tail tty < 64"

definition npending :: "terminal \<Rightarrow> nat" where
  "npending tty = (unat (read_buffer_tail tty) + 64 - unat (read_buffer_head tty)) mod 64"

definition pending :: "terminal \<Rightarrow> u8 list" where
  "pending tty = map (\<lambda>i. read_buffer tty ! ((unat (read_buffer_head tty) + i) mod 64)) [0..<npending tty]"

lemma length_pending [simp]: "length (pending tty) = npending tty"
  by (simp add: pending_def)

lemma next_index: "x < (64::u8) \<Longrightarrow> unat ((x + 1) mod 64) = (unat x + 1) mod 64"
  by (simp add: unat_mod unat_word_ariths word_less_nat_alt)

definition put_byte :: "u8 \<Rightarrow> terminal \<Rightarrow> terminal" where
  "put_byte c tty = tty\<lparr>read_buffer := (read_buffer tty)[unat (read_buffer_tail tty) := c], read_buffer_tail := (read_buffer_tail tty + 1) mod 64\<rparr>"

definition take_byte :: "terminal \<Rightarrow> terminal" where
  "take_byte tty = tty\<lparr>read_buffer_head := (read_buffer_head tty + 1) mod 64\<rparr>"

lemma mod_lt_64: "x mod (64::u8) < 64"
  by (simp add: word_mod_less_divisor)

lemma tty_ok_put [simp]: "tty_ok tty \<Longrightarrow> tty_ok (put_byte c tty)"
  by (simp add: tty_ok_def put_byte_def mod_lt_64)

lemma tty_ok_take [simp]: "tty_ok tty \<Longrightarrow> tty_ok (take_byte tty)"
  by (simp add: tty_ok_def take_byte_def mod_lt_64)

lemma ring_distance:
  assumes "h < 64" "t < (64::nat)"
  shows "(t + 64 - h) mod 64 = (if h \<le> t then t - h else t + 64 - h)"
  using assms by (auto simp: mod_if)

lemma ring_next: "t < (64::nat) \<Longrightarrow> (t + 1) mod 64 = (if t = 63 then 0 else t + 1)"
  by simp

lemma ring_index: "h < 64 \<Longrightarrow> i < (64::nat) \<Longrightarrow> (h + i) mod 64 = (if h + i < 64 then h + i else h + i - 64)"
  by (simp add: mod_if)

lemma npending_eq:
  assumes "tty_ok tty"
  shows "npending tty = (let h = unat (read_buffer_head tty); t = unat (read_buffer_tail tty) in if h \<le> t then t - h else t + 64 - h)"
  using assms ring_distance [of "unat (read_buffer_head tty)" "unat (read_buffer_tail tty)"]
  by (simp add: tty_ok_def npending_def word_less_nat_alt)

lemma npending_put:
  assumes "tty_ok tty"
  shows "npending (put_byte c tty) = (if npending tty < 63 then npending tty + 1 else 0)"
proof -
  have t: "unat (read_buffer_tail tty) < 64" "unat (read_buffer_head tty) < 64" using assms by (auto simp: tty_ok_def word_less_nat_alt)
  have n: "unat ((read_buffer_tail tty + 1) mod 64) = (unat (read_buffer_tail tty) + 1) mod 64" using assms by (simp add: tty_ok_def next_index)
  show ?thesis using t n ring_next [OF t(1)] npending_eq [OF assms] npending_eq [OF tty_ok_put [OF assms, of c]]
    by (auto simp: put_byte_def Let_def split: if_splits)
qed

lemma pending_put:
  assumes ok: "tty_ok tty" and n: "npending tty < 63"
  shows "pending (put_byte c tty) = pending tty @ [c]"
proof -
  have t: "unat (read_buffer_tail tty) < 64" "unat (read_buffer_head tty) < 64" "length (read_buffer tty) = 64"
    using ok by (auto simp: tty_ok_def word_less_nat_alt)
  have last: "(unat (read_buffer_head tty) + npending tty) mod 64 = unat (read_buffer_tail tty)"
    using t npending_eq [OF ok] ring_index [of "unat (read_buffer_head tty)" "npending tty"] by (auto simp: Let_def split: if_splits)
  have old: "(unat (read_buffer_head tty) + i) mod 64 \<noteq> unat (read_buffer_tail tty)" if "i < npending tty" for i
    using that t npending_eq [OF ok] ring_index [of "unat (read_buffer_head tty)" i] by (auto simp: Let_def split: if_splits)
  have keep: "(read_buffer tty)[unat (read_buffer_tail tty) := c] ! ((unat (read_buffer_head tty) + i) mod 64)
      = read_buffer tty ! ((unat (read_buffer_head tty) + i) mod 64)" if "i < npending tty" for i
    using old [OF that] by (metis nth_list_update_neq)
  show ?thesis
    by (rule nth_equalityI) (use t last keep n npending_put [OF ok, of c] in \<open>auto simp: pending_def put_byte_def nth_append less_Suc_eq\<close>)
qed

lemma pending_take:
  assumes ok: "tty_ok tty" and n: "read_buffer_head tty \<noteq> read_buffer_tail tty"
  shows "pending tty = read_buffer tty ! unat (read_buffer_head tty) # pending (take_byte tty)"
proof -
  let ?h = "unat (read_buffer_head tty)" and ?t = "unat (read_buffer_tail tty)"
  have t: "?t < 64" "?h < 64" "?h \<noteq> ?t" using ok n by (auto simp: tty_ok_def word_less_nat_alt dest: word_unat_eq_iff [THEN iffD2])
  have h: "unat ((read_buffer_head tty + 1) mod 64) = (?h + 1) mod 64" using ok by (simp add: tty_ok_def next_index)
  have len: "npending tty = Suc (npending (take_byte tty))"
    using t h ring_next [OF t(2)] npending_eq [OF ok] npending_eq [OF tty_ok_take [OF ok]] by (auto simp: take_byte_def Let_def split: if_splits)
  have idx: "((?h + 1) mod 64 + i) mod 64 = (?h + Suc i) mod 64" for i by (simp add: mod_add_left_eq)
  show ?thesis
    unfolding pending_def len map_upt_Suc using t(2) h idx by (simp add: take_byte_def)
qed

lemma pending_empty: "tty_ok tty \<Longrightarrow> pending tty = [] \<longleftrightarrow> read_buffer_head tty = read_buffer_tail tty"
  by (auto simp: pending_def npending_def dest: pending_take)

lemma tty_upd_simps [simp]:
  "t < length (ttys s) \<Longrightarrow> ttys (upd_tty t f s) ! t = f (ttys s ! t)"
  "t' \<noteq> t \<Longrightarrow> ttys (upd_tty t f s) ! t' = ttys s ! t'"
  "length (ttys (upd_tty t f s)) = length (ttys s)"
  "con_sched (upd_tty t f s) = con_sched s" "vcs (upd_tty t f s) = vcs s" "buffers (upd_tty t f s) = buffers s"
  "current_vc (upd_tty t f s) = current_vc s" "sink_attached (upd_tty t f s) = sink_attached s" "alt_pressed (upd_tty t f s) = alt_pressed s"
  by (simp_all add: upd_tty_def)

lemma append_to_read_buffer_ok:
  assumes "tty_ok (ttys s ! t)" "sched_inv (con_sched s)"
  shows "\<exists>th. append_to_read_buffer t c s = Inr ((upd_tty t (put_byte c) s)\<lparr>con_sched := th\<rparr>) \<and> sched_inv th
    \<and> waiters (queues th (Terminal_input t)) = []
    \<and> (\<forall>w \<in> set (waiters (queues (con_sched s) (Terminal_input t))). state_of th w = RUNNABLE \<and> w \<in> set (runqueue th))"
proof -
  have t: "unat (read_buffer_tail (ttys s ! t)) < length (read_buffer (ttys s ! t))" using assms(1) by (simp add: tty_ok_def word_less_nat_alt)
  have p: "(\<lambda>tty. tty\<lparr>read_buffer := (read_buffer tty)[unat (read_buffer_tail (ttys s ! t)) := c], read_buffer_tail := (read_buffer_tail (ttys s ! t) + 1) mod 64\<rparr>) (ttys s ! t)
      = put_byte c (ttys s ! t)" by (simp add: put_byte_def)
  show ?thesis using event_trigger_ok [OF assms(2), of "Terminal_input t"] t p
    by (auto simp: append_to_read_buffer_def Let_def upd_tty_def)
qed

fun append_bytes :: "nat \<Rightarrow> u8 list \<Rightarrow> console_state \<Rightarrow> console_state outcome" where
  "append_bytes t [] s = Inr s"
| "append_bytes t (c # cs) s = andthen (append_to_read_buffer t c s) (append_bytes t cs)"

lemma append_bytes_ok:
  assumes "t < length (ttys s)" "tty_ok (ttys s ! t)" "sched_inv (con_sched s)" "npending (ttys s ! t) + length cs \<le> 63"
  shows "\<exists>s'. append_bytes t cs s = Inr s' \<and> pending (ttys s' ! t) = pending (ttys s ! t) @ cs \<and> tty_ok (ttys s' ! t)
    \<and> sched_inv (con_sched s') \<and> length (ttys s') = length (ttys s) \<and> (\<forall>t'. t' \<noteq> t \<longrightarrow> ttys s' ! t' = ttys s ! t')"
  using assms
proof (induction cs arbitrary: s)
  case (Cons c cs)
  obtain th where th: "append_to_read_buffer t c s = Inr ((upd_tty t (put_byte c) s)\<lparr>con_sched := th\<rparr>)" "sched_inv th"
    using append_to_read_buffer_ok [OF Cons.prems(2,3)] by blast
  let ?s = "(upd_tty t (put_byte c) s)\<lparr>con_sched := th\<rparr>"
  have n: "npending (ttys s ! t) < 63" using Cons.prems(4) by simp
  have "npending (ttys ?s ! t) + length cs \<le> 63" using Cons.prems npending_put [OF Cons.prems(2), of c] n by simp
  then show ?case using Cons.IH [of ?s] Cons.prems th pending_put [OF Cons.prems(2) n, of c] by auto
qed simp

lemma read_loop_pending:
  assumes "t < length (ttys s)" "tty_ok (ttys s ! t)" "n \<le> npending (ttys s ! t)"
  shows "\<exists>s'. read_loop t n buffer s = Inr (Returned (buffer @ take n (pending (ttys s ! t))), s')
    \<and> pending (ttys s' ! t) = drop n (pending (ttys s ! t)) \<and> tty_ok (ttys s' ! t) \<and> con_sched s' = con_sched s
    \<and> (\<forall>t'. t' \<noteq> t \<longrightarrow> ttys s' ! t' = ttys s ! t')"
  using assms
proof (induction n arbitrary: s buffer)
  case (Suc n)
  let ?tty = "ttys s ! t" and ?s = "upd_tty t take_byte s"
  have ne: "read_buffer_head ?tty \<noteq> read_buffer_tail ?tty" using Suc.prems pending_empty [of ?tty] by (auto simp: pending_def)
  note p = pending_take [OF Suc.prems(2) ne]
  have "npending ?tty = Suc (npending (take_byte ?tty))" using arg_cong [OF p, of length] by simp
  then have n: "n \<le> npending (ttys ?s ! t)" using Suc.prems by simp
  have "unat (read_buffer_head ?tty) < length (read_buffer ?tty)" using Suc.prems(2) by (simp add: tty_ok_def word_less_nat_alt)
  moreover have "upd_tty t (\<lambda>tty. tty\<lparr>read_buffer_head := (read_buffer_head ?tty + 1) mod 64\<rparr>) s = ?s" by (simp add: upd_tty_def take_byte_def)
  ultimately have r: "read_loop t (Suc n) buffer s = read_loop t n (buffer @ [read_buffer ?tty ! unat (read_buffer_head ?tty)]) ?s"
    using ne by (simp add: Let_def)
  show ?case unfolding r
    using Suc.IH [of ?s "buffer @ [read_buffer ?tty ! unat (read_buffer_head ?tty)]"] Suc.prems n p by auto
qed auto


subsection \<open>Screens\<close>

text \<open>What a console shows, or will show when it is selected: the first 2000 cells of its buffer.\<close>

definition screen :: "nat \<Rightarrow> console_state \<Rightarrow> u16 list" where
  "screen v s = (case vc_buffer (vcs s ! v) of None \<Rightarrow> [] | Some b \<Rightarrow> take 2000 (buffers s ! b))"

text \<open>
  Buffers have room for a screen and no two consoles share one; the selected console, if any, uses the
  video memory, and its own buffer is the backup.
\<close>

definition console_ok :: "console_state \<Rightarrow> bool" where
  "console_ok s \<longleftrightarrow> video_ram s < length (buffers s) \<and> (\<forall>b < length (buffers s). 2000 \<le> length (buffers s ! b))
     \<and> (\<forall>v < length (vcs s). current_pos (vcs s ! v) < 2000 \<and> (\<exists>b < length (buffers s). vc_buffer (vcs s ! v) = Some b
          \<and> (b = video_ram s \<longleftrightarrow> current_vc s = Some v) \<and> backup_buffer s \<noteq> Some b))
     \<and> (\<forall>v < length (vcs s). \<forall>u < length (vcs s). vc_buffer (vcs s ! v) = vc_buffer (vcs s ! u) \<longrightarrow> v = u)
     \<and> old_vc s = current_vc s \<and> set (pc_vcs s) \<subseteq> {..<length (vcs s)}
     \<and> (case current_vc s of
          None \<Rightarrow> True
        | Some v \<Rightarrow> v < length (vcs s) \<and> (\<exists>b < length (buffers s). backup_buffer s = Some b \<and> b \<noteq> video_ram s))"

lemma console_okD:
  assumes "console_ok s" "v < length (vcs s)"
  obtains b where "vc_buffer (vcs s ! v) = Some b" "b < length (buffers s)" "2000 \<le> length (buffers s ! b)" "backup_buffer s \<noteq> Some b"
    "b = video_ram s \<longleftrightarrow> current_vc s = Some v" "current_pos (vcs s ! v) < 2000"
  using assms unfolding console_ok_def by blast

lemma vc_upd_simps [simp]:
  "v < length (vcs s) \<Longrightarrow> vcs (upd_vc v f s) ! v = f (vcs s ! v)"
  "u \<noteq> v \<Longrightarrow> vcs (upd_vc v f s) ! u = vcs s ! u"
  "length (vcs (upd_vc v f s)) = length (vcs s)"
  "con_sched (upd_vc v f s) = con_sched s" "ttys (upd_vc v f s) = ttys s" "buffers (upd_vc v f s) = buffers s"
  "current_vc (upd_vc v f s) = current_vc s" "sink_attached (upd_vc v f s) = sink_attached s" "alt_pressed (upd_vc v f s) = alt_pressed s"
  "video_ram (upd_vc v f s) = video_ram s" "backup_buffer (upd_vc v f s) = backup_buffer s" "old_vc (upd_vc v f s) = old_vc s"
  "pc_vcs (upd_vc v f s) = pc_vcs s"
  by (simp_all add: upd_vc_def)

text \<open>The first half of a switch gives the selected console its own buffer back.\<close>

definition release_screen :: "console_state \<Rightarrow> console_state outcome" where
  "release_screen s = (case old_vc s of
       Some v \<Rightarrow> let s = set_buffer v (backup_buffer s) False s in copy_buffer (vc_buffer (vcs s ! v)) (Some (video_ram s)) s
     | None \<Rightarrow> Inr s)"

definition all_released :: "console_state \<Rightarrow> bool" where
  "all_released s \<longleftrightarrow> video_ram s < length (buffers s) \<and> (\<forall>b < length (buffers s). 2000 \<le> length (buffers s ! b))
     \<and> (\<forall>v < length (vcs s). current_pos (vcs s ! v) < 2000 \<and> (\<exists>b < length (buffers s). vc_buffer (vcs s ! v) = Some b \<and> b \<noteq> video_ram s))
     \<and> (\<forall>v < length (vcs s). \<forall>u < length (vcs s). vc_buffer (vcs s ! v) = vc_buffer (vcs s ! u) \<longrightarrow> v = u)
     \<and> set (pc_vcs s) \<subseteq> {..<length (vcs s)}"

lemma copy_buffer_ok:
  assumes "d < length (buffers s)" "2000 \<le> length (buffers s ! d)" "2000 \<le> length (buffers s ! e)"
  shows "copy_buffer (Some d) (Some e) s = Inr (s\<lparr>buffers := (buffers s)[d := take 2000 (buffers s ! e) @ drop 2000 (buffers s ! d)]\<rparr>)"
  using assms by (simp add: copy_buffer_def)

lemma release_screen_ok:
  assumes ok: "console_ok s"
  shows "\<exists>s'. release_screen (s\<lparr>current_vc := c\<rparr>) = Inr s' \<and> all_released s' \<and> (\<forall>u < length (vcs s). screen u s' = screen u s)
    \<and> length (vcs s') = length (vcs s) \<and> current_vc s' = c \<and> video_ram s' = video_ram s \<and> ttys s' = ttys s
    \<and> (\<forall>u. current_pos (vcs s' ! u) = current_pos (vcs s ! u) \<and> vc_terminal (vcs s' ! u) = vc_terminal (vcs s ! u))"
proof (cases "current_vc s")
  case None
  then show ?thesis using ok by (auto simp: release_screen_def console_ok_def all_released_def screen_def)
next
  case (Some v)
  have v: "v < length (vcs s)" "old_vc s = Some v" using ok Some by (auto simp: console_ok_def)
  obtain b where b: "b < length (buffers s)" "backup_buffer s = Some b" "b \<noteq> video_ram s" "2000 \<le> length (buffers s ! b)"
    "2000 \<le> length (buffers s ! video_ram s)" "video_ram s < length (buffers s)"
    using ok Some by (auto simp: console_ok_def)
  let ?s1 = "set_buffer v (Some b) False (s\<lparr>current_vc := c\<rparr>)"
  let ?s' = "?s1\<lparr>buffers := (buffers s)[b := take 2000 (buffers s ! video_ram s) @ drop 2000 (buffers s ! b)]\<rparr>"
  have r: "release_screen (s\<lparr>current_vc := c\<rparr>) = Inr ?s'"
    using v b copy_buffer_ok [of b ?s1 "video_ram s"] by (simp add: release_screen_def set_buffer_def Let_def)
  have vid: "vc_buffer (vcs s ! v) = Some (video_ram s)" using ok v Some by (auto elim!: console_okD)
  have oth: "\<exists>d. vc_buffer (vcs s ! u) = Some d \<and> d < length (buffers s) \<and> d \<noteq> video_ram s \<and> d \<noteq> b" if "u < length (vcs s)" "u \<noteq> v" for u
    using ok that Some b(2) by (auto elim!: console_okD)
  have vb: "vcs ?s' ! u = (if u = v then (vcs s ! v)\<lparr>vc_buffer := Some b, vc_ucb := False\<rparr> else vcs s ! u)" for u
    using v by (cases "u = v") (auto simp: set_buffer_def)
  have len: "length (buffers ?s') = length (buffers s)" "length (vcs ?s') = length (vcs s)" by (auto simp: set_buffer_def)
  have size: "2000 \<le> length (buffers ?s' ! d)" if "d < length (buffers s)" for d
    using that ok b by (auto simp: console_ok_def nth_list_update)
  have sc: "screen u ?s' = screen u s" if "u < length (vcs s)" for u
    using oth [OF that] v b vid unfolding screen_def vb by (cases "u = v") auto
  have "vc_buffer (vcs ?s' ! x) = vc_buffer (vcs ?s' ! y) \<longrightarrow> x = y" if "x < length (vcs s)" "y < length (vcs s)" for x y
    using oth [OF that(1)] oth [OF that(2)] ok that unfolding vb console_ok_def by auto
  moreover have "current_pos (vcs ?s' ! u) < 2000 \<and> (\<exists>d < length (buffers ?s'). vc_buffer (vcs ?s' ! u) = Some d \<and> d \<noteq> video_ram ?s')"
    if "u < length (vcs s)" for u
    using oth [OF that] b ok that v unfolding vb len by (cases "u = v") (auto simp: console_ok_def set_buffer_def)
  moreover have "set (pc_vcs ?s') \<subseteq> {..<length (vcs s)}" "video_ram ?s' = video_ram s" using ok by (auto simp: console_ok_def set_buffer_def)
  ultimately have "all_released ?s'" using size b(6) unfolding all_released_def len by simp
  then show ?thesis using r sc len vb by (auto simp: set_buffer_def)
qed

lemma select_screen_ok:
  assumes ok: "all_released s" and v: "v < length (vcs s)" "current_vc s = Some v"
  shows "\<exists>s'. (let s = s\<lparr>backup_buffer := vc_buffer (vcs s ! v)\<rparr>; s = set_buffer v (Some (video_ram s)) True s
       in andthen (if backup_buffer s \<noteq> None then copy_buffer (vc_buffer (vcs s ! v)) (backup_buffer s) s else Inr s)
            (\<lambda>s. Inr (VCUpdateCallback v (s\<lparr>old_vc := Some v\<rparr>)))) = Inr s'
    \<and> console_ok s' \<and> (\<forall>u < length (vcs s). screen u s' = screen u s) \<and> take 2000 (buffers s' ! video_ram s') = screen v s
    \<and> length (vcs s') = length (vcs s) \<and> current_vc s' = Some v \<and> ttys s' = ttys s"
proof -
  obtain b where b: "b < length (buffers s)" "vc_buffer (vcs s ! v) = Some b" "b \<noteq> video_ram s" "2000 \<le> length (buffers s ! b)"
    "2000 \<le> length (buffers s ! video_ram s)" "video_ram s < length (buffers s)"
    using ok v by (auto simp: all_released_def)
  let ?s1 = "set_buffer v (Some (video_ram s)) True (s\<lparr>backup_buffer := Some b\<rparr>)"
  let ?s2 = "?s1\<lparr>buffers := (buffers s)[video_ram s := take 2000 (buffers s ! b) @ drop 2000 (buffers s ! video_ram s)]\<rparr>"
  let ?s' = "VCUpdateCallback v (?s2\<lparr>old_vc := Some v\<rparr>)"
  have c: "copy_buffer (Some (video_ram s)) (Some b) ?s1 = Inr ?s2"
    using v b copy_buffer_ok [of "video_ram s" ?s1 b] by (simp add: set_buffer_def)
  have oth: "\<exists>d. vc_buffer (vcs s ! u) = Some d \<and> d < length (buffers s) \<and> d \<noteq> video_ram s \<and> d \<noteq> b" if "u < length (vcs s)" "u \<noteq> v" for u
    using ok that v b(2) unfolding all_released_def by metis
  have vb: "vcs ?s' ! u = (if u = v then (vcs s ! v)\<lparr>vc_buffer := Some (video_ram s), vc_ucb := True\<rparr> else vcs s ! u)" for u
    using v by (cases "u = v") (auto simp: set_buffer_def VCUpdateCallback_def Let_def)
  have f: "length (buffers ?s') = length (buffers s)" "length (vcs ?s') = length (vcs s)" "current_vc ?s' = Some v" "old_vc ?s' = Some v"
    "video_ram ?s' = video_ram s" "backup_buffer ?s' = Some b" "ttys ?s' = ttys s" "pc_vcs ?s' = pc_vcs s"
    "buffers ?s' = (buffers s)[video_ram s := take 2000 (buffers s ! b) @ drop 2000 (buffers s ! video_ram s)]"
    using v by (auto simp: set_buffer_def VCUpdateCallback_def Let_def)
  have size: "2000 \<le> length (buffers ?s' ! d)" if "d < length (buffers s)" for d
    using that ok b unfolding f by (auto simp: all_released_def nth_list_update)
  have sc: "screen u ?s' = screen u s" if "u < length (vcs s)" for u
    using oth [OF that] v b unfolding screen_def vb f by (cases "u = v") auto
  have inj: "vc_buffer (vcs ?s' ! x) = vc_buffer (vcs ?s' ! y) \<longrightarrow> x = y" if "x < length (vcs s)" "y < length (vcs s)" for x y
    using oth [OF that(1)] oth [OF that(2)] ok that unfolding vb all_released_def by auto
  have own: "current_pos (vcs ?s' ! u) < 2000 \<and> (\<exists>d < length (buffers s). vc_buffer (vcs ?s' ! u) = Some d \<and> (d = video_ram s \<longleftrightarrow> Some v = Some u) \<and> Some b \<noteq> Some d)"
    if "u < length (vcs s)" for u
    using oth [OF that] b ok that v unfolding vb by (cases "u = v") (auto simp: all_released_def)
  have "set (pc_vcs s) \<subseteq> {..<length (vcs s)}" using ok by (simp add: all_released_def)
  then have "console_ok ?s'" using size inj own b v(1) unfolding console_ok_def f by auto
  moreover have "take 2000 (buffers ?s' ! video_ram ?s') = screen v s" using b unfolding f screen_def by auto
  moreover have "vc_buffer (vcs ?s1 ! v) = Some (video_ram s)" "backup_buffer ?s1 = Some b" using v by (auto simp: set_buffer_def)
  ultimately show ?thesis using c sc f b(2) by (intro exI [of _ ?s']) simp
qed

subsection \<open>Writing\<close>

lemma write_step_ok:
  assumes "p < 2000" "2000 \<le> length buffer" "st \<le> 1" "c \<noteq> 0x08 \<or> p \<noteq> 0 \<or> st = 1"
  shows "\<exists>attr' st' p' buffer'. write_step c (attr, st, p, buffer) = Inr (attr', st', p', buffer')
    \<and> p' < 2000 \<and> length buffer' = length buffer \<and> st' \<le> 1"
proof -
  have p: "unat p < length buffer" using assms(1,2) by (simp add: word_less_nat_alt)
  have b: "p - 1 < 2000 \<and> unat (p - 1) < length buffer" if "p \<noteq> 0"
    using assms(1,2) that unat_minus_one [of p] by (auto simp: word_less_nat_alt)
  have "p mod 80 \<le> p" by (simp add: word_le_nat_alt unat_mod)
  then have r: "p - p mod 80 < 2000" using assms(1) word_sub_le order.strict_trans1 by blast
  have s: "length (scroll_one_line x) = length x" if "2000 \<le> length x" for x using that by (simp add: scroll_one_line_def)
  have n: "st = 1 \<or> st = 0" using assms(3) by auto
  show ?thesis using n p b r s assms
    by (auto simp: write_step_def write_cell_def not_le andthen_def split: if_splits)
qed

lemma write_loop_ok:
  assumes "p < 2000" "2000 \<le> length buffer" "st \<le> 1" "0x08 \<notin> set bytes"
  shows "\<exists>attr' st' p' buffer'. write_loop bytes (attr, st, p, buffer) = Inr (attr', st', p', buffer') \<and> p' < 2000 \<and> length buffer' = length buffer"
  using assms
proof (induction bytes arbitrary: attr st p buffer)
  case (Cons c cs)
  obtain attr' st' p' buffer' where w: "write_step c (attr, st, p, buffer) = Inr (attr', st', p', buffer')" "p' < 2000" "length buffer' = length buffer" "st' \<le> 1"
    using write_step_ok [OF Cons.prems(1-3), of c attr] Cons.prems(4) by auto
  then show ?case using Cons.IH [of p' buffer' st' attr'] Cons.prems by auto
qed simp

text \<open>Bytes with no special meaning.\<close>

definition plain :: "u8 \<Rightarrow> bool" where
  "plain c \<longleftrightarrow> c \<noteq> 0x0A \<and> c \<noteq> 0x0D \<and> c \<noteq> 0x1B \<and> c \<noteq> 0x08"

definition cell :: "u8 \<Rightarrow> u16" where
  "cell c = ucast ((0x0700 :: u32) OR scast c)"

lemma write_loop_plain:
  assumes "\<forall>c \<in> set bytes. plain c" "unat p + length bytes < 2000" "2000 \<le> length buffer"
  shows "write_loop bytes (0x0700, 0, p, buffer)
    = Inr (0x0700, 0, p + of_nat (length bytes), take (unat p) buffer @ map cell bytes @ drop (unat p + length bytes) buffer)"
  using assms
proof (induction bytes arbitrary: p buffer)
  case (Cons c cs)
  have p1: "unat (p + 1) = unat p + 1" using Cons.prems(2) by (simp add: unat_word_ariths)
  have lt: "\<not> 2000 \<le> p + 1" "unat p < length buffer" using Cons.prems(2,3) p1 by (auto simp: word_le_nat_alt)
  have "write_step c (0x0700, 0, p, buffer) = Inr (0x0700, 0, p + 1, buffer[unat p := cell c])"
    using Cons.prems(1) lt by (auto simp: write_step_def write_cell_def plain_def cell_def)
  moreover have "write_loop cs (0x0700, 0, p + 1, buffer[unat p := cell c]) = Inr (0x0700, 0, (p + 1) + of_nat (length cs),
      take (unat (p + 1)) (buffer[unat p := cell c]) @ map cell cs @ drop (unat (p + 1) + length cs) (buffer[unat p := cell c]))"
    using Cons.prems p1 by (intro Cons.IH) auto
  moreover have "take (Suc (unat p)) (buffer[unat p := cell c]) = take (unat p) buffer @ [cell c]"
    using lt by (simp add: take_Suc_conv_app_nth)
  ultimately show ?case using lt p1 by (simp add: ac_simps)
qed simp

lemma VirtualConsole_write_eq:
  assumes ok: "console_ok s" and v: "v < length (vcs s)" "vc_buffer (vcs s ! v) = Some b" and n: "length bytes < 2 ^ 32"
    and w: "write_loop bytes (0x0700, 0, current_pos (vcs s ! v), buffers s ! b) = Inr (attr, st, p, buffer)"
    and p: "p < 2000" "length buffer = length (buffers s ! b)"
  shows "\<exists>s'. VirtualConsole_write v bytes s = Inr (of_nat (length bytes), s') \<and> console_ok s' \<and> screen v s' = take 2000 buffer
    \<and> (\<forall>u < length (vcs s). u \<noteq> v \<longrightarrow> screen u s' = screen u s) \<and> current_pos (vcs s' ! v) = p \<and> ttys s' = ttys s"
proof -
  have b: "b < length (buffers s)" using ok v by (auto elim!: console_okD)
  have inj: "vc_buffer (vcs s ! u) \<noteq> Some b" if "u < length (vcs s)" "u \<noteq> v" for u
    using ok that v unfolding console_ok_def by metis
  let ?s1 = "upd_vc v (\<lambda>c. c\<lparr>current_pos := p\<rparr>) (s\<lparr>buffers := (buffers s)[b := buffer]\<rparr>)"
  define s' where "s' = (if vc_ucb (vcs ?s1 ! v) then VCUpdateCallback v ?s1 else ?s1)"
  have r: "VirtualConsole_write v bytes s = Inr (of_nat (length bytes), s')"
    using v(2) n w by (simp add: VirtualConsole_write_def s'_def Let_def)
  have vb: "vcs s' ! u = (if u = v then (vcs s ! v)\<lparr>current_pos := p\<rparr> else vcs s ! u)" for u
    using v by (cases "u = v") (auto simp: s'_def VCUpdateCallback_def Let_def)
  have f: "buffers s' = (buffers s)[b := buffer]" "length (vcs s') = length (vcs s)" "current_vc s' = current_vc s" "old_vc s' = old_vc s"
    "video_ram s' = video_ram s" "backup_buffer s' = backup_buffer s" "ttys s' = ttys s" "pc_vcs s' = pc_vcs s"
    by (auto simp: s'_def VCUpdateCallback_def Let_def)
  have "2000 \<le> length ((buffers s)[b := buffer] ! d)" if "d < length (buffers s)" for d
    using that ok p(2) b by (auto simp: console_ok_def nth_list_update)
  moreover have "vc_buffer (vcs s' ! u) = vc_buffer (vcs s ! u)" for u unfolding vb by simp
  moreover have "current_pos (vcs s' ! u) < 2000" if "u < length (vcs s)" for u using that ok p(1) unfolding vb by (auto simp: console_ok_def)
  ultimately have "console_ok s'" using ok unfolding console_ok_def f by (auto cong: option.case_cong)
  moreover have "screen v s' = take 2000 buffer" using v b unfolding screen_def vb f by simp
  moreover have "screen u s' = screen u s" if "u < length (vcs s)" "u \<noteq> v" for u
    using inj [OF that] that unfolding screen_def vb f by (auto split: option.splits)
  ultimately show ?thesis using r vb f by simp
qed


subsection \<open>Boot\<close>

lemma boot_consoles:
  assumes "2000 \<le> length vram" "length junk0 = 64" "length junk1 = 64"
  shows "\<exists>s. activate_console (console_init vram junk0 junk1 th) = Inr s \<and> console_ok s \<and> current_vc s = Some 0 \<and> sink_attached s
    \<and> length (vcs s) = 2 \<and> length (ttys s) = 2 \<and> pc_vcs s = [0, 1]
    \<and> con_sched s = th\<lparr>queues := (queues th)(Terminal_input 0 := free_queue, Terminal_input 1 := free_queue)\<rparr>
    \<and> (\<forall>t < 2. tty_ok (ttys s ! t) \<and> pending (ttys s ! t) = [] \<and> attached_virt_console (ttys s ! t) = Some t)
    \<and> (\<forall>v < 2. vc_terminal (vcs s ! v) = Some v \<and> current_pos (vcs s ! v) = 0 \<and> current_mod_mask (vcs s ! v) = 0)"
  using assms
  by (simp add: activate_console_def console_init_def Terminal_new_def VirtualConsole_new_def attach_terminal_def add_virtual_console_def
      set_current_vc_def virtual_console_changed_def set_buffer_def copy_buffer_def VCUpdateCallback_def upd_vc_def upd_tty_def
      console_ok_def tty_ok_def pending_def npending_def less_2_cases_iff Let_def)
    (simp add: All_less_Suc Ex_less_Suc)

lemma key_mappings_excluded: "map_of key_mappings key = Some m \<Longrightarrow> key \<noteq> KEY_F1 \<and> key \<noteq> KEY_F2 \<and> key \<noteq> KEY_LALT \<and> key \<noteq> KEY_RALT"
  by (auto simp: key_mappings_def)

text \<open>An example: the consoles after boot, with the first of two threads running.\<close>

definition reader_example :: sched where
  "reader_example = (run_example epoch)\<lparr>current := Some 1, current_thread := Some 1\<rparr>"

lemma reader_example_inv: "sched_inv reader_example"
  by (rule sched_inv_frame [OF run_reaches_inv [OF reachable_example booted_inv [OF booted_example]]])
    (auto simp: reader_example_def run_example_def boot_example_def)

lemma console_example:
  obtains s where "activate_console (console_init (replicate 2000 0) (replicate 64 0) (replicate 64 0) reader_example) = Inr s"
    "console_ok s" "current_vc s = Some 0" "sink_attached s" "length (vcs s) = 2" "length (ttys s) = 2" "con_sched s = reader_example"
    "tty_ok (ttys s ! 0)" "pending (ttys s ! 0) = []" "attached_virt_console (ttys s ! 0) = Some 0" "vc_terminal (vcs s ! 0) = Some 0"
    "current_pos (vcs s ! 0) = 0" "current_mod_mask (vcs s ! 0) = 0"
proof -
  have "queues reader_example (Terminal_input t) = free_queue" for t by (simp add: reader_example_def run_example_def boot_example_def)
  then have "reader_example\<lparr>queues := (queues reader_example)(Terminal_input 0 := free_queue, Terminal_input 1 := free_queue)\<rparr> = reader_example"
    by (simp add: fun_upd_idem)
  then show ?thesis using that boot_consoles [of "replicate 2000 0" "replicate 64 0" "replicate 64 0" reader_example] by auto
qed

subsection \<open>Properties\<close>

text \<open>
  C9. The input of a terminal is a first-in first-out queue of up to 63 bytes: bytes that arrive while
  there is room are kept behind those that are pending, and a read of no more than is pending returns
  the oldest bytes in order, without waiting, and leaves the rest. Other terminals do not change.
\<close>

theorem terminal_is_fifo:
  assumes "t < length (ttys s)" "tty_ok (ttys s ! t)" "sched_inv (con_sched s)"
    and "length (pending (ttys s ! t)) + length cs \<le> 63" "n \<le> length (pending (ttys s ! t)) + length cs"
  shows "\<exists>s1 s2. append_bytes t cs s = Inr s1
    \<and> Terminal_read t n s1 = Inr (Returned (take n (pending (ttys s ! t) @ cs)), s2)
    \<and> pending (ttys s2 ! t) = drop n (pending (ttys s ! t) @ cs) \<and> tty_ok (ttys s2 ! t)
    \<and> (\<forall>t'. t' \<noteq> t \<longrightarrow> ttys s2 ! t' = ttys s ! t')"
proof -
  obtain s1 where s1: "append_bytes t cs s = Inr s1" "pending (ttys s1 ! t) = pending (ttys s ! t) @ cs" "tty_ok (ttys s1 ! t)"
    "length (ttys s1) = length (ttys s)" "\<forall>t'. t' \<noteq> t \<longrightarrow> ttys s1 ! t' = ttys s ! t'"
    using append_bytes_ok [OF assms(1-3)] assms(4) by auto
  have n: "n \<le> npending (ttys s1 ! t)" using assms(5) arg_cong [OF s1(2), of length] by simp
  obtain s2 where s2: "read_loop t n [] s1 = Inr (Returned (take n (pending (ttys s1 ! t))), s2)"
    "pending (ttys s2 ! t) = drop n (pending (ttys s1 ! t))" "tty_ok (ttys s2 ! t)" "\<forall>t'. t' \<noteq> t \<longrightarrow> ttys s2 ! t' = ttys s1 ! t'"
    using read_loop_pending [OF _ s1(3) n, of "[]"] assms(1) s1(4) by auto
  then have "Terminal_read t n s1 = Inr (Returned (take n (pending (ttys s ! t) @ cs)), s2)"
    using s1(2) by (cases n) (auto simp: Terminal_read_def)
  then show ?thesis using s1 s2 by metis
qed

theorem terminal_is_fifo_witness:
  "\<exists>s s1 s2. activate_console (console_init (replicate 2000 0) (replicate 64 0) (replicate 64 0) reader_example) = Inr s
    \<and> append_bytes 0 [0x6C, 0x73, 0x0A] s = Inr s1 \<and> Terminal_read 0 2 s1 = Inr (Returned [0x6C, 0x73], s2) \<and> pending (ttys s2 ! 0) = [0x0A]"
proof -
  obtain s where s: "activate_console (console_init (replicate 2000 0) (replicate 64 0) (replicate 64 0) reader_example) = Inr s"
    "length (ttys s) = 2" "con_sched s = reader_example" "tty_ok (ttys s ! 0)" "pending (ttys s ! 0) = []"
    by (rule console_example)
  then show ?thesis using terminal_is_fifo [of 0 s "[0x6C, 0x73, 0x0A]" 2] reader_example_inv by auto
qed

text \<open>
  Input overruns: when 63 bytes are pending, one more makes the terminal look empty, and all 64 bytes are lost.
\<close>

theorem terminal_overrun_loses_input:
  assumes "t < length (ttys s)" "tty_ok (ttys s ! t)" "sched_inv (con_sched s)" "length (pending (ttys s ! t)) = 63"
  shows "\<exists>s'. append_to_read_buffer t c s = Inr s' \<and> pending (ttys s' ! t) = []"
proof -
  obtain th where "append_to_read_buffer t c s = Inr ((upd_tty t (put_byte c) s)\<lparr>con_sched := th\<rparr>)"
    using append_to_read_buffer_ok [OF assms(2,3)] by blast
  then show ?thesis using npending_put [OF assms(2), of c] assms(1,4) by (simp add: pending_def)
qed

text \<open>
  C12. From the keyboard to the reader: a thread that reads one byte of an empty terminal goes to sleep;
  pressing a character key on the console of that terminal makes the thread runnable, and when it goes
  on it gets the character of the key, in upper case when shift is held.
\<close>

theorem key_press_reaches_reader:
  assumes wired: "sink_attached s" "current_vc s = Some v" "vc_terminal (vcs s ! v) = Some t" "t < length (ttys s)"
    and empty: "tty_ok (ttys s ! t)" "pending (ttys s ! t) = []"
    and reader: "sched_inv (con_sched s)" "current_thread (con_sched s) = Some e" "e \<noteq> idle_entity (con_sched s)" "not_joining e (con_sched s)"
    and key: "\<not> bit scancode 7" "scancode_to_key scancode = Inr key" "map_of key_mappings key = Some (upper, lower)"
  shows "\<exists>s1 s2 s3. Terminal_read t 1 s = Inr (Waiting 1 [], s1) \<and> state_of (con_sched s1) e = SLEEPING
    \<and> handle_key_event scancode s1 = Inr s2 \<and> state_of (con_sched s2) e = RUNNABLE \<and> e \<in> set (runqueue (con_sched s2))
    \<and> read_loop t 1 [] s2 = Inr (Returned [of_char (if current_mod_mask (vcs s ! v) AND Shift \<noteq> 0 then upper else lower)], s3)"
proof -
  let ?q = "Terminal_input t" and ?ch = "of_char (if current_mod_mask (vcs s ! v) AND Shift \<noteq> 0 then upper else lower) :: u8"
  obtain th where th: "event_wait ?q (con_sched s) = Inr th" "sched_inv th" "state_of th e = SLEEPING"
    using event_wait_ok [OF reader, of ?q] by auto
  have w: "e \<in> set (waiters (queues th ?q))" using event_wait_waiters [OF _ th(1)] reader(2) by auto
  let ?s1 = "s\<lparr>con_sched := th\<rparr>"
  have r: "Terminal_read t 1 s = Inr (Waiting 1 [], ?s1)" using th(1) empty by (simp add: Terminal_read_def pending_empty)
  obtain th2 where th2: "append_to_read_buffer t ?ch ?s1 = Inr ((upd_tty t (put_byte ?ch) ?s1)\<lparr>con_sched := th2\<rparr>)"
    "state_of th2 e = RUNNABLE" "e \<in> set (runqueue th2)"
    using append_to_read_buffer_ok [of ?s1 t ?ch] empty(1) th(2) w by auto
  let ?s2 = "(upd_tty t (put_byte ?ch) ?s1)\<lparr>con_sched := th2\<rparr>"
  have k: "handle_key_event scancode ?s1 = Inr ?s2"
    using wired key key_mappings_excluded [OF key(3)] th2(1) by (simp add: handle_key_event_def pc_key_down_def vc_key_down_def vc_append_def)
  have p: "pending (ttys ?s2 ! t) = [?ch]" "tty_ok (ttys ?s2 ! t)" "t < length (ttys ?s2)"
    using pending_put [OF empty(1), of ?ch] empty wired(4) by (auto simp: pending_def)
  then have "1 \<le> npending (ttys ?s2 ! t)" using arg_cong [OF p(1), of length] by simp
  then obtain s3 where "read_loop t 1 [] ?s2 = Inr (Returned [?ch], s3)"
    using read_loop_pending [OF p(3,2), of 1 "[]"] p(1) by auto
  then show ?thesis using r k th(3) th2(2,3) by fastforce
qed

theorem key_press_reaches_reader_witness:
  "\<exists>s s1 s2 s3. activate_console (console_init (replicate 2000 0) (replicate 64 0) (replicate 64 0) reader_example) = Inr s
    \<and> Terminal_read 0 1 s = Inr (Waiting 1 [], s1) \<and> handle_key_event 0x1E s1 = Inr s2 \<and> state_of (con_sched s2) 1 = RUNNABLE
    \<and> read_loop 0 1 [] s2 = Inr (Returned [0x61], s3)"
proof -
  obtain s where s: "activate_console (console_init (replicate 2000 0) (replicate 64 0) (replicate 64 0) reader_example) = Inr s"
    "current_vc s = Some 0" "sink_attached s" "length (ttys s) = 2" "con_sched s = reader_example"
    "tty_ok (ttys s ! 0)" "pending (ttys s ! 0) = []" "vc_terminal (vcs s ! 0) = Some 0" "current_mod_mask (vcs s ! 0) = 0"
    by (rule console_example)
  have r: "current_thread reader_example = Some 1" "1 \<noteq> idle_entity reader_example" "not_joining 1 reader_example"
    by (auto simp: reader_example_def run_example_def boot_example_def not_joining_def touched_queue_def free_queue_def)
  have k: "scancode_to_key 0x1E = Inr KEY_A" "map_of key_mappings KEY_A = Some (CHR ''A'', CHR ''a'')" "\<not> bit (0x1E :: 8 word) 7"
    by code_simp+
  show ?thesis
    using key_press_reaches_reader [of s 0 0 1 "0x1E" KEY_A "CHR ''A''" "CHR ''a''"] s reader_example_inv r k by auto
qed

text \<open>
  C36. Switching between virtual consoles loses nothing: afterwards the video memory shows the screen of the
  selected console, and every console, selected or not, has the screen it had before.
\<close>

theorem switch_keeps_screens:
  assumes "console_ok s" "v < length (vcs s)"
  shows "\<exists>s'. set_current_vc v s = Inr s' \<and> console_ok s' \<and> current_vc s' = Some v
    \<and> take 2000 (buffers s' ! video_ram s') = screen v s \<and> (\<forall>u < length (vcs s). screen u s' = screen u s) \<and> ttys s' = ttys s"
proof -
  obtain s1 where s1: "release_screen (s\<lparr>current_vc := Some v\<rparr>) = Inr s1" "all_released s1" "\<forall>u < length (vcs s). screen u s1 = screen u s"
    "length (vcs s1) = length (vcs s)" "current_vc s1 = Some v" "ttys s1 = ttys s"
    using release_screen_ok [OF assms(1), of "Some v"] by blast
  have "set_current_vc v s = (let s = s1\<lparr>backup_buffer := vc_buffer (vcs s1 ! v)\<rparr>; s = set_buffer v (Some (video_ram s)) True s
       in andthen (if backup_buffer s \<noteq> None then copy_buffer (vc_buffer (vcs s ! v)) (backup_buffer s) s else Inr s)
            (\<lambda>s. Inr (VCUpdateCallback v (s\<lparr>old_vc := Some v\<rparr>))))"
    using s1(1,5) by (simp add: set_current_vc_def virtual_console_changed_def release_screen_def)
  then show ?thesis using select_screen_ok [OF s1(2) _ s1(5)] s1(3,4,6) assms(2) by auto
qed

theorem switch_keeps_screens_witness:
  "\<exists>s s'. activate_console (console_init (replicate 2000 0) (replicate 64 0) (replicate 64 0) reader_example) = Inr s
    \<and> set_current_vc 1 s = Inr s' \<and> current_vc s' = Some 1 \<and> screen 0 s' = screen 0 s"
proof -
  obtain s where s: "activate_console (console_init (replicate 2000 0) (replicate 64 0) (replicate 64 0) reader_example) = Inr s"
    "console_ok s" "length (vcs s) = 2"
    by (rule console_example)
  then show ?thesis using switch_keeps_screens [of s 1] by auto
qed

text \<open>
  C37. Writing to a terminal, with any bytes but backspaces, never leaves the screen: the write returns the number of
  bytes, the position stays on the screen, and only the screen of the console attached to the terminal changes.
\<close>

theorem console_write_stays_on_screen:
  assumes "console_ok s" "attached_virt_console (ttys s ! t) = Some v" "v < length (vcs s)"
    and "0x08 \<notin> set bytes" "length bytes < 2 ^ 32"
  shows "\<exists>s'. Terminal_write t bytes s = Inr (of_nat (length bytes), s') \<and> console_ok s' \<and> ttys s' = ttys s
    \<and> (\<forall>u < length (vcs s). u \<noteq> v \<longrightarrow> screen u s' = screen u s)"
proof -
  obtain b where b: "vc_buffer (vcs s ! v) = Some b" "2000 \<le> length (buffers s ! b)" "current_pos (vcs s ! v) < 2000"
    using console_okD [OF assms(1,3)] by blast
  obtain attr st p buffer where w: "write_loop bytes (0x0700, 0, current_pos (vcs s ! v), buffers s ! b) = Inr (attr, st, p, buffer)"
    "p < 2000" "length buffer = length (buffers s ! b)"
    using write_loop_ok [OF b(3,2) _ assms(4)] by blast
  show ?thesis using VirtualConsole_write_eq [OF assms(1,3) b(1) assms(5) w] assms(2) by (auto simp: Terminal_write_def)
qed

theorem console_write_stays_on_screen_witness:
  "\<exists>s s'. activate_console (console_init (replicate 2000 0) (replicate 64 0) (replicate 64 0) reader_example) = Inr s
    \<and> Terminal_write 0 (replicate 3000 0x0A) s = Inr (3000, s') \<and> screen 1 s' = screen 1 s"
proof -
  obtain s where s: "activate_console (console_init (replicate 2000 0) (replicate 64 0) (replicate 64 0) reader_example) = Inr s"
    "console_ok s" "length (vcs s) = 2" "attached_virt_console (ttys s ! 0) = Some 0"
    by (rule console_example)
  then show ?thesis using console_write_stays_on_screen [of s 0 0 "replicate 3000 0x0A"] by auto
qed

text \<open>
  Plain text that fits on the screen appears at the position of the console, white on black, and the rest of the
  screen stays as it was.
\<close>

theorem console_shows_text:
  assumes "console_ok s" "attached_virt_console (ttys s ! t) = Some v" "v < length (vcs s)"
    and "\<forall>c \<in> set bytes. plain c" "unat (current_pos (vcs s ! v)) + length bytes < 2000"
  shows "\<exists>s'. Terminal_write t bytes s = Inr (of_nat (length bytes), s')
    \<and> screen v s' = take (unat (current_pos (vcs s ! v))) (screen v s) @ map cell bytes @ drop (unat (current_pos (vcs s ! v)) + length bytes) (screen v s)
    \<and> current_pos (vcs s' ! v) = current_pos (vcs s ! v) + of_nat (length bytes)"
proof -
  let ?p = "current_pos (vcs s ! v)"
  obtain b where b: "vc_buffer (vcs s ! v) = Some b" "2000 \<le> length (buffers s ! b)"
    using console_okD [OF assms(1,3)] by blast
  let ?buf = "take (unat ?p) (buffers s ! b) @ map cell bytes @ drop (unat ?p + length bytes) (buffers s ! b)"
  have q: "?p + of_nat (length bytes) < 2000" "length bytes < 2 ^ 32"
    using assms(5) by (auto simp: word_less_nat_alt unat_word_ariths unat_of_nat)
  have l: "length ?buf = length (buffers s ! b)" using b(2) assms(5) by simp
  have "take 2000 ?buf = take (unat ?p) (screen v s) @ map cell bytes @ drop (unat ?p + length bytes) (screen v s)"
    using b assms(5) by (simp add: screen_def min_def drop_take)
  then show ?thesis
    using VirtualConsole_write_eq [OF assms(1,3) b(1) q(2) write_loop_plain [OF assms(4,5) b(2)] q(1) l] assms(2)
    by (auto simp: Terminal_write_def)
qed

theorem console_shows_text_witness:
  "\<exists>s s'. activate_console (console_init (replicate 2000 0) (replicate 64 0) (replicate 64 0) reader_example) = Inr s
    \<and> Terminal_write 0 [0x4F, 0x4B] s = Inr (2, s') \<and> take 2 (screen 0 s') = [0x074F, 0x074B]"
proof -
  obtain s where s: "activate_console (console_init (replicate 2000 0) (replicate 64 0) (replicate 64 0) reader_example) = Inr s"
    "console_ok s" "length (vcs s) = 2" "attached_virt_console (ttys s ! 0) = Some 0" "current_pos (vcs s ! 0) = 0"
    by (rule console_example)
  have c: "cell 0x4F = 0x074F" "cell 0x4B = 0x074B" by code_simp+
  have "plain 0x4F" "plain 0x4B" by (auto simp: plain_def)
  then show ?thesis using console_shows_text [of s 0 0 "[0x4F, 0x4B]"] s c by auto
qed

end
