(* ===== verification/Syscall.thy ===== *)
theory Syscall
  imports Elf Console
begin

text \<open>
  System calls: the table and the handlers of \<^verbatim>\<open>kernel/syscall.cpp\<close>, the entry from user mode in
  \<^verbatim>\<open>arch/x86/syscall.cpp\<close>, \<^verbatim>\<open>Thread::stop\<close> of \<^verbatim>\<open>kernel/thread.cpp\<close> with the allocation of exceptions in
  \<^verbatim>\<open>kernel/abi.cpp\<close>, and the clock as a file of \<^verbatim>\<open>drivers/timer/rtc.cpp\<close>.

  A handler runs for the current thread. It returns, throws a C++ exception, or puts the thread to
  sleep; in the last case the result says how it goes on when the thread runs again. What the
  unwinder does with an exception is not modelled. The memory of the user is reached through the
  page tables of the process; an access to an address that is not mapped throws the exception of the page
  fault handler.
\<close>

subsection \<open>State\<close>

text \<open>The class of a device that opens as a file, with its index in the state of the console.\<close>

datatype device_role = Terminal_device nat | Console_device nat | Clock_device

datatype raised = SysOpenException | Int_thrown u32 | PageFaultException u64 | AllocationError

text \<open>Where a call goes on that waits: for a process, for a thread, for the time, for input, or at its end.\<close>

datatype sysret =
    Return u64
  | Void
  | Thrown raised
  | Suspended resume
and resume =
    Wait_process nat
  | Wait_thread nat
  | Spin u64 u64
  | Read_input nat virt_addr nat u64
  | Finish sysret

datatype syscallfn =
    Sys_nop | Sys_yield | Sys_exit | Sys_open | Sys_close | Sys_read | Sys_write | Sys_opendir | Sys_readdir | Sys_closedir
  | Sys_exec | Sys_wait_proc | Sys_create_thread | Sys_stop_thread | Sys_join_thread | Sys_usleep | Sys_get_tod
  | Sys_set_thread_name | Sys_get_ticks | Sys_pread | Sys_pwrite | Sys_set_exception_info | Sys_run_exception_test
  | Sys_allocate_memory | Sys_release_memory | Sys_futex_wait | Sys_futex_wake_up | Sys_thread_id | Sys_thread_leave

record 'a system = "'a kernel" +
  open_files :: "fs_file list"
  open_dirs :: "directory list"
  sys_vfs :: vfs
  sys_console :: console_state
  syscall_table :: "syscallfn option list"

text \<open>
  What the handlers rely on: the algorithm of the page allocator, the tables of the kernel's half of
  an address space, the contents of fresh arrays, the classes of the devices, the bytes a program image on a
  device has, the time the clock shows, the allocator a program has registered, the run of the
  exception tests, and the value a \<^verbatim>\<open>void\<close> function leaves in the result register.
\<close>

record 'a platform =
  plat_alg :: "'a page_alg option"
  plat_template :: "(u64 \<Rightarrow> u64) option"
  plat_junk :: "nat \<Rightarrow> chars"
  plat_role :: "nat \<Rightarrow> device_role"
  plat_image :: "nat \<Rightarrow> image"
  plat_clock :: time_of_day
  plat_malloc :: "virt_addr \<Rightarrow> u64 \<Rightarrow> vma \<times> 'a machine \<Rightarrow> virt_addr \<times> vma \<times> 'a machine"
  plat_tests :: "vma \<times> 'a machine \<Rightarrow> vma \<times> 'a machine"
  plat_rax :: u64

subsection \<open>The memory of the user\<close>

text \<open>
  The kernel runs with the page tables of the process, so an address of the user may lie in the windows of the kernel, too: nothing
  checks it.
\<close>

definition translate :: "nat \<Rightarrow> virt_addr \<Rightarrow> ('a, 'b) kernel_scheme \<Rightarrow> virt_addr option" where
  "translate p va k =
     (if vpa_to_pa va \<noteq> None then Some va
      else if kva_to_pa va \<noteq> None then do { pa \<leftarrow> kva_to_pa va; pa_to_vpa pa }
      else case get_mapping va (proc_vma (kprocs k ! p), kmachine k) of
        Some (Some pa) \<Rightarrow> pa_to_vpa pa
      | _ \<Rightarrow> None)"

fun user_read :: "nat \<Rightarrow> virt_addr \<Rightarrow> nat \<Rightarrow> ('a, 'b) kernel_scheme \<Rightarrow> (u64 \<times> chars) + chars" where
  "user_read p va 0 k = Inr []"
| "user_read p va (Suc n) k =
     (case translate p va k of
        None \<Rightarrow> Inl (va, [])
      | Some a \<Rightarrow> map_sum (apsnd (Cons (read_byte (mem (kmachine k)) a))) (Cons (read_byte (mem (kmachine k)) a)) (user_read p (va + 1) n k))"

fun user_write :: "nat \<Rightarrow> virt_addr \<Rightarrow> chars \<Rightarrow> ('a, 'b) kernel_scheme \<Rightarrow> u64 option \<times> ('a, 'b) kernel_scheme" where
  "user_write p va [] k = (None, k)"
| "user_write p va (c # cs) k =
     (case translate p va k of
        None \<Rightarrow> (Some va, k)
      | Some a \<Rightarrow> user_write p (va + 1) cs (upd_mem (write_byte a c) k))"

fun user_writes :: "nat \<Rightarrow> (virt_addr \<times> chars) list \<Rightarrow> ('a, 'b) kernel_scheme \<Rightarrow> u64 option \<times> ('a, 'b) kernel_scheme" where
  "user_writes p [] k = (None, k)"
| "user_writes p ((va, cs) # ws) k =
     (case user_write p va cs k of
        (Some a, k) \<Rightarrow> (Some a, k)
      | (None, k) \<Rightarrow> user_writes p ws k)"

text \<open>A string of the user, up to its terminator; \<open>None\<close> when there is none in an endless run of memory.\<close>

partial_function (option) user_string :: "nat \<Rightarrow> virt_addr \<Rightarrow> ('a, 'b) kernel_scheme \<Rightarrow> (u64 + chars) option" where
  "user_string p va k =
     (case translate p va k of
        None \<Rightarrow> Some (Inl va)
      | Some a \<Rightarrow>
          if read_byte (mem (kmachine k)) a = 0 then Some (Inr [])
          else do {
            r \<leftarrow> user_string p (va + 1) k;
            Some (map_sum id (Cons (read_byte (mem (kmachine k)) a)) r) })"

fun le_bytes :: "nat \<Rightarrow> nat \<Rightarrow> chars" where
  "le_bytes 0 n = []"
| "le_bytes (Suc k) n = of_nat (n mod 256) # le_bytes k (n div 256)"

type_synonym 'a sysresult = "(sysret \<times> 'a system) outcome"

definition with_string :: "nat \<Rightarrow> virt_addr \<Rightarrow> 'a system \<Rightarrow> (chars \<Rightarrow> 'a sysresult) \<Rightarrow> 'a sysresult" where
  "with_string p va k f =
     (case user_string p va k of
        None \<Rightarrow> Inl Never_returns
      | Some (Inl a) \<Rightarrow> Inr (Thrown (PageFaultException a), k)
      | Some (Inr xs) \<Rightarrow> f xs)"

definition after_write :: "u64 option \<times> 'a system \<Rightarrow> ('a system \<Rightarrow> 'a sysresult) \<Rightarrow> 'a sysresult" where
  "after_write w f = (case w of (Some a, k) \<Rightarrow> Inr (Thrown (PageFaultException a), k) | (None, k) \<Rightarrow> f k)"

definition minus_one :: u64 where
  "minus_one = ucast (- 1 :: u32)"

text \<open>The thread that made the call may have given the processor away; it ends the call when it runs again.\<close>

definition ends :: "nat \<Rightarrow> sysret \<Rightarrow> 'a system \<Rightarrow> 'a sysresult" where
  "ends e r k = Inr (if current_thread (ksched k) = Some e then r else Suspended (Finish r), k)"

abbreviation proc_of :: "nat \<Rightarrow> ('a, 'b) kernel_scheme \<Rightarrow> nat" where
  "proc_of e k \<equiv> thread_owner (kthreads k ! e)"

subsection \<open>Files\<close>

definition on_console :: "(console_state \<Rightarrow> ('c \<times> console_state) outcome) \<Rightarrow> 'a system \<Rightarrow> ('c \<times> 'a system) outcome" where
  "on_console f k = andthen (f ((sys_console k)\<lparr>con_sched := ksched k\<rparr>)) (\<lambda>(x, c). Inr (x, k\<lparr>sys_console := c, ksched := con_sched c\<rparr>))"

fun read_terminal :: "nat \<Rightarrow> nat \<Rightarrow> virt_addr \<Rightarrow> nat \<Rightarrow> u64 \<Rightarrow> 'a system \<Rightarrow> 'a sysresult" where
  "read_terminal p t buffer 0 n k = Inr (Return (ucast (ucast n :: u32)), k)"
| "read_terminal p t buffer (Suc m) n k =
     andthen (on_console (Terminal_read t 1) k) (\<lambda>(r, k).
     case r of
       Waiting _ _ \<Rightarrow> Inr (Suspended (Read_input t buffer (Suc m) n), k)
     | Returned xs \<Rightarrow> after_write (user_write p (buffer + n) xs k) (read_terminal p t buffer m (n + 1)))"

text \<open>
  The bytes before one that cannot be read are shown; the cursor, which \<^verbatim>\<open>write\<close> moves at its end, stays.
\<close>

definition write_terminal :: "nat \<Rightarrow> nat \<Rightarrow> virt_addr \<Rightarrow> nat \<Rightarrow> 'a system \<Rightarrow> 'a sysresult" where
  "write_terminal p t buffer n k =
     (case attached_virt_console (ttys (sys_console k) ! t) of
        None \<Rightarrow> Inr (Return 0, k)
      | Some v \<Rightarrow>
          if vc_buffer (vcs (sys_console k) ! v) = None then Inr (Return 0, k)
          else case user_read p buffer n k of
            Inl (a, xs) \<Rightarrow> andthen (on_console (Terminal_write t xs) k) (\<lambda>(_, k').
              Inr (Thrown (PageFaultException a), k'\<lparr>sys_console := (sys_console k')\<lparr>port_writes := port_writes (sys_console k)\<rparr>\<rparr>))
          | Inr xs \<Rightarrow> andthen (on_console (Terminal_write t xs) k) (\<lambda>(r, k). Inr (Return (ucast r), k)))"

text \<open>The fields of \<^verbatim>\<open>userspace_tod_buffer\<close> in the order in which they are stored.\<close>

definition tod_stores :: "virt_addr \<Rightarrow> time_of_day \<Rightarrow> (virt_addr \<times> chars) list" where
  "tod_stores buffer t = [(buffer + 6, le_bytes 2 (unat (day t))), (buffer + 4, le_bytes 2 (unat (hours t))),
     (buffer + 2, le_bytes 2 (unat (minutes t))), (buffer + 8, le_bytes 2 (unat (month t))),
     (buffer, le_bytes 2 (unat (seconds t))), (buffer + 10, le_bytes 2 (unat (year t)))]"

definition RTCFile_read :: "'a platform \<Rightarrow> nat \<Rightarrow> virt_addr \<Rightarrow> u64 \<Rightarrow> 'a system \<Rightarrow> 'a sysresult" where
  "RTCFile_read P p buffer n k =
     (if n < 12 then Inr (Return 0, k)
      else after_write (user_writes p (tod_stores buffer (plat_clock P)) k) (\<lambda>k. Inr (Return 12, k)))"

definition RTCFile_pread :: "'a platform \<Rightarrow> nat \<Rightarrow> virt_addr \<Rightarrow> u64 \<Rightarrow> u64 \<Rightarrow> 'a system \<Rightarrow> 'a sysresult" where
  "RTCFile_pread P p buffer n off k =
     (if n < 12 then Inr (Return 0, k)
      else if off \<noteq> 0 then Inr (Return 0, k)
      else after_write (user_writes p (tod_stores buffer (plat_clock P)) k) (\<lambda>k. Inr (Return 12, k)))"

text \<open>The virtual functions of the files.\<close>

definition file_read :: "'a platform \<Rightarrow> nat \<Rightarrow> nat \<Rightarrow> virt_addr \<Rightarrow> u64 \<Rightarrow> 'a system \<Rightarrow> 'a sysresult" where
  "file_read P p i buffer n k =
     (case open_files k ! i of
        TarFile f \<Rightarrow> andthen (or_stop (tar_read f n)) (\<lambda>(xs, f).
          after_write (user_write p buffer xs k) (\<lambda>k. Inr (Return (ucast (of_nat (length xs) :: u32)), k\<lparr>open_files := (open_files k)[i := TarFile f]\<rparr>)))
      | DeviceFile d \<Rightarrow>
          (case plat_role P d of
             Terminal_device t \<Rightarrow> read_terminal p t buffer (unat n) 0 k
           | Console_device v \<Rightarrow> Inr (Return 0, k)
           | Clock_device \<Rightarrow> RTCFile_read P p buffer n k))"

definition file_pread :: "'a platform \<Rightarrow> nat \<Rightarrow> nat \<Rightarrow> virt_addr \<Rightarrow> u64 \<Rightarrow> u64 \<Rightarrow> 'a system \<Rightarrow> 'a sysresult" where
  "file_pread P p i buffer n off k =
     (case open_files k ! i of
        TarFile f \<Rightarrow> andthen (or_stop (tar_pread f n off)) (\<lambda>xs.
          after_write (user_write p buffer xs k) (\<lambda>k. Inr (Return (ucast (of_nat (length xs) :: u32)), k)))
      | DeviceFile d \<Rightarrow> (case plat_role P d of Clock_device \<Rightarrow> RTCFile_pread P p buffer n off k | _ \<Rightarrow> Inr (Return 0, k)))"

definition file_write :: "'a platform \<Rightarrow> nat \<Rightarrow> nat \<Rightarrow> virt_addr \<Rightarrow> u64 \<Rightarrow> 'a system \<Rightarrow> 'a sysresult" where
  "file_write P p i buffer n k =
     (case open_files k ! i of
        TarFile f \<Rightarrow> Inr (Return 0, k)
      | DeviceFile d \<Rightarrow> (case plat_role P d of Terminal_device t \<Rightarrow> write_terminal p t buffer (unat n) k | _ \<Rightarrow> Inr (Return 0, k)))"

definition file_pwrite :: "'a platform \<Rightarrow> nat \<Rightarrow> nat \<Rightarrow> virt_addr \<Rightarrow> u64 \<Rightarrow> u64 \<Rightarrow> 'a system \<Rightarrow> 'a sysresult" where
  "file_pwrite P p i buffer n off k =
     (case open_files k ! i of
        TarFile f \<Rightarrow> Inr (Return 0, k)
      | DeviceFile d \<Rightarrow>
          (case plat_role P d of
             Console_device v \<Rightarrow>
               if n \<noteq> 2 then Inr (Return 0, k)
               else (case user_read p buffer 2 k of
                 Inl (a, xs) \<Rightarrow> Inr (Thrown (PageFaultException a), k)
               | Inr xs \<Rightarrow> andthen (on_console (VirtualConsoleFile_pwrite v xs off) k) (\<lambda>(r, k). Inr (Return (ucast r), k)))
           | _ \<Rightarrow> Inr (Return 0, k)))"

definition in_space :: "nat \<Rightarrow> (vma \<times> 'a machine \<Rightarrow> 'c \<times> vma \<times> 'a machine) \<Rightarrow> ('a, 'b) kernel_scheme \<Rightarrow> 'c \<times> ('a, 'b) kernel_scheme" where
  "in_space p f k = (case f (proc_vma (kprocs k ! p), kmachine k) of (x, v, m) \<Rightarrow> (x, (upd_proc p (\<lambda>q. q\<lparr>proc_vma := v\<rparr>) k)\<lparr>kmachine := m\<rparr>))"

definition sys_open :: "nat \<Rightarrow> virt_addr \<Rightarrow> 'a system \<Rightarrow> 'a sysresult" where
  "sys_open e filename k =
     with_string (proc_of e k) filename k (\<lambda>path.
     andthen (or_stop (vfs_open path (sys_vfs k))) (\<lambda>(f, fs).
     let k = k\<lparr>sys_vfs := fs\<rparr>
     in case f of
          None \<Rightarrow> Inr (Thrown SysOpenException, k)
        | Some f \<Rightarrow>
            let (h, k) = register_object e (File_object (length (open_files k))) (k\<lparr>open_files := open_files k @ [f]\<rparr>)
            in Inr (Return h, k)))"

text \<open>A call on a file; an object of another class would be taken for a file.\<close>

definition on_file :: "nat \<Rightarrow> u64 \<Rightarrow> 'a system \<Rightarrow> (nat \<Rightarrow> 'a sysresult) \<Rightarrow> 'a sysresult" where
  "on_file e h k f =
     (case get_object_secure e h k of
        None \<Rightarrow> Inr (Return minus_one, k)
      | Some (File_object i) \<Rightarrow> f i
      | Some _ \<Rightarrow> Inl Wrong_class)"

definition sys_close :: "nat \<Rightarrow> u64 \<Rightarrow> 'a system \<Rightarrow> 'a sysresult" where
  "sys_close e h k = on_file e h k (\<lambda>i. Inr (Return 0, k))"

definition sys_read :: "'a platform \<Rightarrow> nat \<Rightarrow> u64 \<Rightarrow> virt_addr \<Rightarrow> u64 \<Rightarrow> 'a system \<Rightarrow> 'a sysresult" where
  "sys_read P e h buffer n k = on_file e h k (\<lambda>i. file_read P (proc_of e k) i buffer n k)"

definition sys_write :: "'a platform \<Rightarrow> nat \<Rightarrow> u64 \<Rightarrow> virt_addr \<Rightarrow> u64 \<Rightarrow> 'a system \<Rightarrow> 'a sysresult" where
  "sys_write P e h buffer n k = on_file e h k (\<lambda>i. file_write P (proc_of e k) i buffer n k)"

definition sys_pread :: "'a platform \<Rightarrow> nat \<Rightarrow> u64 \<Rightarrow> virt_addr \<Rightarrow> u64 \<Rightarrow> u64 \<Rightarrow> 'a system \<Rightarrow> 'a sysresult" where
  "sys_pread P e h buffer n off k = on_file e h k (\<lambda>i. file_pread P (proc_of e k) i buffer n off k)"

definition sys_pwrite :: "'a platform \<Rightarrow> nat \<Rightarrow> u64 \<Rightarrow> virt_addr \<Rightarrow> u64 \<Rightarrow> u64 \<Rightarrow> 'a system \<Rightarrow> 'a sysresult" where
  "sys_pwrite P e h buffer n off k = on_file e h k (\<lambda>i. file_pwrite P (proc_of e k) i buffer n off k)"

subsection \<open>Directories\<close>

definition sys_opendir :: "nat \<Rightarrow> virt_addr \<Rightarrow> 'a system \<Rightarrow> 'a sysresult" where
  "sys_opendir e path k =
     with_string (proc_of e k) path k (\<lambda>path.
     andthen (or_stop (vfs_opendir path (sys_vfs k))) (\<lambda>(d, fs).
     let k = k\<lparr>sys_vfs := fs\<rparr>
     in case d of
          None \<Rightarrow> Inr (Return (- 1), k)
        | Some d \<Rightarrow>
            let (h, k) = register_object e (Directory_object (length (open_dirs k))) (k\<lparr>open_dirs := open_dirs k @ [d]\<rparr>)
            in Inr (Return h, k)))"

definition sys_closedir :: "nat \<Rightarrow> u64 \<Rightarrow> 'a system \<Rightarrow> 'a sysresult" where
  "sys_closedir e h k =
     (case get_object_secure e h k of
        None \<Rightarrow> Inr (Return minus_one, k)
      | Some (Directory_object i) \<Rightarrow> Inr (Return 0, k\<lparr>open_dirs := (open_dirs k)[i := dir_close (open_dirs k ! i)]\<rparr>)
      | Some _ \<Rightarrow> Inl Wrong_class)"

text \<open>
  The entry as the user sees it: 64 bytes for the name, of which \<^verbatim>\<open>strncpy\<close> fills at most 62 and a
  terminator, the size and the flags.
\<close>

definition sys_readdir :: "nat \<Rightarrow> u64 \<Rightarrow> virt_addr \<Rightarrow> 'a system \<Rightarrow> 'a sysresult" where
  "sys_readdir e h buffer k =
     (case get_object_secure e h k of
        None \<Rightarrow> Inr (Return 0, k)
      | Some (Directory_object i) \<Rightarrow>
          (case read_entry (open_dirs k ! i) of
             (None, d) \<Rightarrow> Inr (Return 0, k\<lparr>open_dirs := (open_dirs k)[i := d]\<rparr>)
           | (Some de, d) \<Rightarrow>
               after_write (user_writes (proc_of e k)
                 [(buffer, take 62 (de_name de) @ [0]), (buffer + 68, le_bytes 4 0), (buffer + 64, le_bytes 4 (unat (de_size de)))]
                 (k\<lparr>open_dirs := (open_dirs k)[i := d]\<rparr>)) (\<lambda>k. Inr (Return 1, k)))
      | Some _ \<Rightarrow> Inl Wrong_class)"

subsection \<open>Processes and threads\<close>

definition sys_exit :: "nat \<Rightarrow> 'a system \<Rightarrow> 'a sysresult" where
  "sys_exit e k = andthen (terminate (proc_of e k) k) (ends e Void)"

definition image_of :: "'a platform \<Rightarrow> fs_file \<Rightarrow> image" where
  "image_of P f = (case f of TarFile t \<Rightarrow> tar_image t | DeviceFile d \<Rightarrow> plat_image P d)"

definition sys_exec :: "'a platform \<Rightarrow> nat \<Rightarrow> virt_addr \<Rightarrow> virt_addr \<Rightarrow> 'a system \<Rightarrow> 'a sysresult" where
  "sys_exec P e program args k =
     with_string (proc_of e k) program k (\<lambda>path.
     with_string (proc_of e k) args k (\<lambda>cmdline.
     andthen (launch_process (plat_alg P) (plat_template P) (plat_junk P) (image_of P) path cmdline (sys_vfs k, k)) (\<lambda>(r, fs, k).
     let k = k\<lparr>sys_vfs := fs\<rparr>
     in case r of
          None \<Rightarrow> Inr (Return (- 1), k)
        | Some p \<Rightarrow> let (h, k) = register_object e (Process_object p) k in Inr (Return h, k))))"

definition wait_process :: "nat \<Rightarrow> 'a system \<Rightarrow> 'a sysresult" where
  "wait_process p k =
     (if terminated (kprocs k ! p) then Inr (Return 0, k)
      else andthen (on_sched (event_wait (Process_changed p)) k) (\<lambda>k. Inr (Suspended (Wait_process p), k)))"

definition sys_wait_proc :: "nat \<Rightarrow> u64 \<Rightarrow> 'a system \<Rightarrow> 'a sysresult" where
  "sys_wait_proc e h k =
     (case get_object_secure e h k of
        None \<Rightarrow> Inr (Return minus_one, k)
      | Some (Process_object p) \<Rightarrow> wait_process p k
      | Some _ \<Rightarrow> Inl Wrong_class)"

text \<open>The priority is a number that is only stored.\<close>

definition priority_of :: "u64 \<Rightarrow> sched_priority" where
  "priority_of n = (if n = 0 then REALTIME else if n = 1 then INTERACTIVE else if n = 2 then NORMAL_PRIORITY else DAEMON)"

text \<open>The stack of a thread lies at an address computed from its handle, with a 32-bit product.\<close>

definition thread_stack :: "u64 \<Rightarrow> virt_addr" where
  "thread_stack h = 0x7fff00000000 + ucast (0x2000 * (ucast h :: u32))"

definition sys_create_thread :: "'a platform \<Rightarrow> nat \<Rightarrow> virt_addr \<Rightarrow> u64 \<Rightarrow> u64 \<Rightarrow> 'a system \<Rightarrow> 'a sysresult" where
  "sys_create_thread P e entry arg prio k =
     andthen (create_thread (plat_alg P) (proc_of e k) User_Thread entry (map of_char ''other'') (priority_of prio) k) (\<lambda>(t, k).
     let (h, k) = register_object e (Thread_object t) k
     in andthen (allocate_user_stack (plat_alg P) t (thread_stack h) 0x2000 k) (\<lambda>k.
        andthen (on_sched (thread_start t) (add_entry_argument t arg k)) (\<lambda>k. Inr (Return h, k))))"

definition sys_allocate_memory :: "'a platform \<Rightarrow> nat \<Rightarrow> u32 \<Rightarrow> 'a system \<Rightarrow> 'a sysresult" where
  "sys_allocate_memory P e nr k =
     (let p = proc_of e k
      in andthen (or_stop (allocate_virt_any (plat_alg P) nr (proc_vma (kprocs k ! p), kmachine k))) (\<lambda>(r, s).
         let (_, k) = in_space p (\<lambda>_. ((), s)) k
         in Inr (case r of Inl _ \<Rightarrow> Thrown AllocationError | Inr va \<Rightarrow> Return va, k)))"

definition sys_release_memory :: "nat \<Rightarrow> virt_addr \<Rightarrow> 'a system \<Rightarrow> 'a sysresult" where
  "sys_release_memory e va k = (let (_, k) = in_space (proc_of e k) (\<lambda>s. ((), release_memory va s)) k in Inr (Void, k))"

text \<open>
  \<^verbatim>\<open>__cxa_allocate_exception\<close>: the header before the object has 64 bytes. The allocator of the program is
  tried first.
\<close>

definition cxa_allocate_exception :: "'a platform \<Rightarrow> nat \<Rightarrow> u64 \<Rightarrow> 'a system \<Rightarrow> 'a sysresult" where
  "cxa_allocate_exception P e thrown_size k =
     (let p = proc_of e k;
          (ptr, k) = (case exception_info (kprocs k ! p) of
              Some i \<Rightarrow> in_space p (plat_malloc P (malloc_ptr i) (thrown_size + 64)) k
            | None \<Rightarrow> (0, k))
      in if ptr \<noteq> 0 then Inr (Return (ptr + 64), k)
         else andthen (sys_allocate_memory P e (ucast ((thrown_size + 63) div 0x1000 + 1)) k) (\<lambda>(r, k).
           Inr (case r of Return va \<Rightarrow> Return (va + 64) | _ \<Rightarrow> r, k)))"

text \<open>The name of the type of the exception, with its terminator.\<close>

definition terminate_type_name :: chars where
  "terminate_type_name = map of_char ''1ThreadTerminateException'' @ [0]"

text \<open>
  \<^verbatim>\<open>stop\<close> makes a thread throw: the header of a new exception is filled, and the saved registers of the
  thread are changed so that it goes on in the unwinder as if it had called it.
\<close>

definition redirect_thread :: "nat \<Rightarrow> exception_prepare_info \<Rightarrow> virt_addr \<Rightarrow> nat \<Rightarrow> 'a system \<Rightarrow> 'a sysresult" where
  "redirect_thread p i unwind_header t k =
     (let k = (if 0xffff000000000000 < mem (kmachine k) (field_addr (native_context (kthreads k ! t)) Rip)
               then upd_thread t (\<lambda>t. t\<lparr>native_context := before_syscall_context t\<rparr>) k else k);
          c = native_context (kthreads k ! t);
          rip = mem (kmachine k) (field_addr c Rip);
          rsp = mem (kmachine k) (field_addr c Rsp) - 8
      in after_write (user_write p rsp (le_bytes 8 (unat rip)) (upd_mem (\<lambda>m. m(field_addr c Rsp := rsp)) k)) (\<lambda>k.
         Inr (Void, upd_mem (\<lambda>m. m(field_addr c Rip := unwind_address i, field_addr c Rdi := unwind_header)) k)))"

definition throw_into_thread :: "'a platform \<Rightarrow> nat \<Rightarrow> exception_prepare_info \<Rightarrow> nat \<Rightarrow> 'a system \<Rightarrow> 'a sysresult" where
  "throw_into_thread P e i t k =
     andthen (cxa_allocate_exception P e 1 k) (\<lambda>(r, k).
     case r of
       Return thrown \<Rightarrow>
         let p = proc_of e k; header = thrown - 64
         in after_write (user_writes p [(header + 8, le_bytes 8 0), (header + 16, le_bytes 8 0)] k) (\<lambda>k.
            let (name, k) = in_space p (plat_malloc P (malloc_ptr i) 26) k
            in after_write (user_writes p [(name, terminate_type_name), (header, le_bytes 8 (unat name))] k)
                 (redirect_thread p i (header + 32) t))
     | _ \<Rightarrow> Inr (r, k))"

definition thread_stop :: "'a platform \<Rightarrow> nat \<Rightarrow> bool \<Rightarrow> nat \<Rightarrow> 'a system \<Rightarrow> 'a sysresult" where
  "thread_stop P e simple_exit t k =
     (if e = t \<and> simple_exit then andthen (on_sched (thread_stop_simple t) k) (ends e Void)
      else case exception_info (kprocs k ! proc_of t k) of
        None \<Rightarrow> andthen (on_sched (set_state t STOPPED) k) (\<lambda>k. Inr (Void, k))
      | Some i \<Rightarrow> throw_into_thread P e i t k)"

text \<open>The handle -1 stands for the calling thread.\<close>

definition thread_or_me :: "nat \<Rightarrow> u64 \<Rightarrow> 'a system \<Rightarrow> nat option outcome" where
  "thread_or_me e h k =
     (if h = - 1 then Inr (Some e)
      else case get_object_secure e h k of
        None \<Rightarrow> Inr None
      | Some (Thread_object t) \<Rightarrow> Inr (Some t)
      | Some _ \<Rightarrow> Inl Wrong_class)"

definition sys_stop_thread :: "'a platform \<Rightarrow> nat \<Rightarrow> u64 \<Rightarrow> 'a system \<Rightarrow> 'a sysresult" where
  "sys_stop_thread P e h k =
     andthen (thread_or_me e h k) (\<lambda>t.
     case t of
       None \<Rightarrow> Inr (Return minus_one, k)
     | Some t \<Rightarrow> andthen (thread_stop P e False t k) (\<lambda>(r, k). Inr (if r = Void then Return 0 else r, k)))"

definition wait_thread :: "nat \<Rightarrow> 'a system \<Rightarrow> 'a sysresult" where
  "wait_thread t k =
     (if state_of (ksched k) t = STOPPED then Inr (Return 0, k)
      else andthen (on_sched (event_wait (State_changed t)) k) (\<lambda>k. Inr (Suspended (Wait_thread t), k)))"

definition sys_join_thread :: "nat \<Rightarrow> u64 \<Rightarrow> 'a system \<Rightarrow> 'a sysresult" where
  "sys_join_thread e h k =
     (case get_object_secure e h k of
        None \<Rightarrow> Inr (Return minus_one, k)
      | Some (Thread_object t) \<Rightarrow> wait_thread t k
      | Some _ \<Rightarrow> Inl Wrong_class)"

definition sys_thread_leave :: "'a platform \<Rightarrow> nat \<Rightarrow> 'a system \<Rightarrow> 'a sysresult" where
  "sys_thread_leave P e k = thread_stop P e True e k"

definition sys_set_thread_name :: "nat \<Rightarrow> u64 \<Rightarrow> virt_addr \<Rightarrow> 'a system \<Rightarrow> 'a sysresult" where
  "sys_set_thread_name e h name k =
     andthen (thread_or_me e h k) (\<lambda>t.
     with_string (proc_of e k) name k (\<lambda>xs.
     case t of
       None \<Rightarrow> Inl Null_dereference
     | Some t \<Rightarrow> Inr (Void, upd_thread t (\<lambda>t. t\<lparr>thread_name := xs\<rparr>) k)))"

definition sys_thread_id :: "nat \<Rightarrow> 'a system \<Rightarrow> 'a sysresult" where
  "sys_thread_id e k = Inr (Return (ucast (thread_id (kthreads k ! e))), k)"

definition sys_set_exception_info :: "nat \<Rightarrow> virt_addr \<Rightarrow> 'a system \<Rightarrow> 'a sysresult" where
  "sys_set_exception_info e ptr k =
     (case user_read (proc_of e k) ptr 24 k of
        Inl (a, xs) \<Rightarrow> Inr (Thrown (PageFaultException a), k)
      | Inr xs \<Rightarrow> Inr (Void, upd_proc (proc_of e k) (\<lambda>q. q\<lparr>exception_info := Some
          \<lparr>unwind_address = of_nat (le_at 0 8 xs), malloc_ptr = of_nat (le_at 8 8 xs), free_ptr = of_nat (le_at 16 8 xs)\<rparr>\<rparr>) k))"

definition sys_run_exception_test :: "'a platform \<Rightarrow> nat \<Rightarrow> u64 \<Rightarrow> 'a system \<Rightarrow> 'a sysresult" where
  "sys_run_exception_test P e run k =
     (let (_, k) = (if run \<noteq> 0 then in_space (proc_of e k) (\<lambda>s. ((), plat_tests P s)) k else ((), k))
      in Inr (Thrown (Int_thrown 5), k))"

subsection \<open>Time\<close>

definition spin_delay :: "u64 \<Rightarrow> u64 \<Rightarrow> 'a system \<Rightarrow> 'a sysresult" where
  "spin_delay target us k = Inr (if runtime (ksched k) < target then Suspended (Spin target us) else Return us, k)"

definition sys_usleep :: "u64 \<Rightarrow> 'a system \<Rightarrow> 'a sysresult" where
  "sys_usleep us k = spin_delay (runtime (ksched k) + us * 1000) us k"

definition sys_get_tod :: "nat \<Rightarrow> virt_addr \<Rightarrow> 'a system \<Rightarrow> 'a sysresult" where
  "sys_get_tod e tpstruct k =
     after_write (user_writes (proc_of e k) (tod_stores tpstruct (tod (ksched k))) k) (\<lambda>k. Inr (Return 0, k))"

definition sys_get_ticks :: "'a system \<Rightarrow> 'a sysresult" where
  "sys_get_ticks k = Inr (Return (runtime (ksched k)), k)"

subsection \<open>Futexes\<close>

text \<open>
  The wait has two parts: the comparison, under the lock, and the sleep, after the lock was given back. A
  page fault in the comparison leaves the lock taken.
\<close>

definition futex_check :: "nat \<Rightarrow> virt_addr \<Rightarrow> u64 \<Rightarrow> 'a system \<Rightarrow> ((sysret + bool) \<times> 'a system) outcome" where
  "futex_check e va expected k =
     (let p = proc_of e k
      in andthen (lock_futexes p k) (\<lambda>k.
         Inr (case user_read p va 8 k of
                Inl (a, xs) \<Rightarrow> (Inl (Thrown (PageFaultException a)), k)
              | Inr xs \<Rightarrow> (Inr (le_value xs = unat expected), unlock_futexes p k))))"

definition futex_sleep :: "nat \<Rightarrow> virt_addr \<Rightarrow> 'a system \<Rightarrow> 'a sysresult" where
  "futex_sleep e va k = andthen (set_thread_waiting (proc_of e k) e va k) (ends e Void)"

definition sys_futex_wait :: "nat \<Rightarrow> virt_addr \<Rightarrow> u64 \<Rightarrow> 'a system \<Rightarrow> 'a sysresult" where
  "sys_futex_wait e va expected k =
     andthen (futex_check e va expected k) (\<lambda>(r, k).
     case r of
       Inl r \<Rightarrow> Inr (r, k)
     | Inr True \<Rightarrow> futex_sleep e va k
     | Inr False \<Rightarrow> Inr (Void, k))"

definition sys_futex_wake_up :: "nat \<Rightarrow> virt_addr \<Rightarrow> u64 \<Rightarrow> 'a system \<Rightarrow> 'a sysresult" where
  "sys_futex_wake_up e va number k =
     (let p = proc_of e k
      in andthen (lock_futexes p k) (\<lambda>k.
         andthen (wake_up_threads p va number k) (\<lambda>k. Inr (Void, unlock_futexes p k))))"

subsection \<open>The table\<close>

definition SyscallManager_new :: "syscallfn option list" where
  "SyscallManager_new = replicate 256 None"

definition RegisterSyscall :: "int \<Rightarrow> syscallfn \<Rightarrow> syscallfn option list \<Rightarrow> syscallfn option list" where
  "RegisterSyscall nr fn tbl = (if nr < 0 \<or> 256 \<le> nr then tbl else tbl[nat nr := Some fn])"

definition default_syscalls :: "(int \<times> syscallfn) list" where
  "default_syscalls = [(0, Sys_nop), (1, Sys_yield), (2, Sys_exit), (3, Sys_open), (4, Sys_close), (5, Sys_read), (6, Sys_write),
     (7, Sys_opendir), (8, Sys_readdir), (9, Sys_closedir), (10, Sys_exec), (11, Sys_wait_proc), (12, Sys_create_thread),
     (13, Sys_stop_thread), (14, Sys_join_thread), (15, Sys_usleep), (16, Sys_get_tod), (17, Sys_set_thread_name),
     (18, Sys_get_ticks), (19, Sys_pread), (20, Sys_pwrite), (21, Sys_set_exception_info), (22, Sys_run_exception_test),
     (23, Sys_allocate_memory), (24, Sys_release_memory), (25, Sys_futex_wait), (26, Sys_futex_wake_up), (27, Sys_thread_id),
     (28, Sys_thread_leave)]"

definition RegisterDefaultSyscalls :: "syscallfn option list \<Rightarrow> syscallfn option list" where
  "RegisterDefaultSyscalls tbl = fold (\<lambda>(nr, fn). RegisterSyscall nr fn) default_syscalls tbl"

text \<open>The call through the table; a handler takes the arguments it has and ignores the others.\<close>

fun call :: "'a platform \<Rightarrow> nat \<Rightarrow> syscallfn \<Rightarrow> u64 \<Rightarrow> u64 \<Rightarrow> u64 \<Rightarrow> u64 \<Rightarrow> 'a system \<Rightarrow> 'a sysresult" where
  "call P e Sys_nop a b c d k = Inr (Void, k)"
| "call P e Sys_yield a b c d k = Inr (Void, k)"
| "call P e Sys_exit a b c d k = sys_exit e k"
| "call P e Sys_open a b c d k = sys_open e a k"
| "call P e Sys_close a b c d k = sys_close e a k"
| "call P e Sys_read a b c d k = sys_read P e a b c k"
| "call P e Sys_write a b c d k = sys_write P e a b c k"
| "call P e Sys_opendir a b c d k = sys_opendir e a k"
| "call P e Sys_readdir a b c d k = sys_readdir e a b k"
| "call P e Sys_closedir a b c d k = sys_closedir e a k"
| "call P e Sys_exec a b c d k = sys_exec P e a b k"
| "call P e Sys_wait_proc a b c d k = sys_wait_proc e a k"
| "call P e Sys_create_thread a b c d k = sys_create_thread P e a b c k"
| "call P e Sys_stop_thread a b c d k = sys_stop_thread P e a k"
| "call P e Sys_join_thread a b c d k = sys_join_thread e a k"
| "call P e Sys_usleep a b c d k = sys_usleep a k"
| "call P e Sys_get_tod a b c d k = sys_get_tod e a k"
| "call P e Sys_set_thread_name a b c d k = sys_set_thread_name e a b k"
| "call P e Sys_get_ticks a b c d k = sys_get_ticks k"
| "call P e Sys_pread a b c d k = sys_pread P e a b c d k"
| "call P e Sys_pwrite a b c d k = sys_pwrite P e a b c d k"
| "call P e Sys_set_exception_info a b c d k = sys_set_exception_info e a k"
| "call P e Sys_run_exception_test a b c d k = sys_run_exception_test P e a k"
| "call P e Sys_allocate_memory a b c d k = sys_allocate_memory P e (ucast a) k"
| "call P e Sys_release_memory a b c d k = sys_release_memory e a k"
| "call P e Sys_futex_wait a b c d k = sys_futex_wait e a b k"
| "call P e Sys_futex_wake_up a b c d k = sys_futex_wake_up e a b k"
| "call P e Sys_thread_id a b c d k = sys_thread_id e k"
| "call P e Sys_thread_leave a b c d k = sys_thread_leave P e k"

text \<open>A call that ends normally leaves the system call; one that throws or waits does not get there.\<close>

definition leaves :: "nat \<Rightarrow> sysret \<times> 'a system \<Rightarrow> sysret \<times> 'a system" where
  "leaves e = (\<lambda>(r, k). (r, case r of Return _ \<Rightarrow> leave_syscall e k | Void \<Rightarrow> leave_syscall e k | _ \<Rightarrow> k))"

definition InvokeSyscall :: "'a platform \<Rightarrow> u32 \<Rightarrow> u64 \<Rightarrow> u64 \<Rightarrow> u64 \<Rightarrow> u64 \<Rightarrow> 'a system \<Rightarrow> 'a sysresult" where
  "InvokeSyscall P nr arg0 arg1 arg2 arg3 k =
     (case current_thread (ksched k) of
        None \<Rightarrow> Inl Null_dereference
      | Some e \<Rightarrow>
          let k = enter_syscall e k
          in if sint nr < 0 \<or> 256 \<le> sint nr then Inr (Return (- 1), k)
             else case syscall_table k ! nat (sint nr) of
               None \<Rightarrow> Inr (leaves e (Return (- 1), k))
             | Some fn \<Rightarrow> map_sum id (leaves e) (call P e fn arg0 arg1 arg2 arg3 k))"

text \<open>What a waiting call does when its thread runs again.\<close>

fun continue_call :: "nat \<Rightarrow> resume \<Rightarrow> 'a system \<Rightarrow> 'a sysresult" where
  "continue_call e (Wait_process p) k = wait_process p k"
| "continue_call e (Wait_thread t) k = wait_thread t k"
| "continue_call e (Spin target us) k = spin_delay target us k"
| "continue_call e (Read_input t buffer m n) k = read_terminal (proc_of e k) t buffer m n k"
| "continue_call e (Finish r) k = Inr (r, k)"

text \<open>The result of a call that has ended goes to the saved register of the thread.\<close>

definition store_result :: "'a platform \<Rightarrow> virt_addr \<Rightarrow> sysret \<times> 'a system \<Rightarrow> sysret \<times> 'a system" where
  "store_result P ctx = (\<lambda>(r, k).
     (r, case r of
           Return v \<Rightarrow> upd_mem (\<lambda>m. m(field_addr ctx Rax := v)) k
         | Void \<Rightarrow> upd_mem (\<lambda>m. m(field_addr ctx Rax := plat_rax P)) k
         | _ \<Rightarrow> k))"

definition user_syscall_handler :: "'a platform \<Rightarrow> 'a system \<Rightarrow> 'a sysresult" where
  "user_syscall_handler P k =
     (case current_thread (ksched k) of
        None \<Rightarrow> Inl Null_dereference
      | Some e \<Rightarrow>
          let ctx = native_context (kthreads k ! e);
              reg = (\<lambda>f. mem (kmachine k) (field_addr ctx f))
          in map_sum id (store_result P ctx) (InvokeSyscall P (ucast (reg Rax)) (reg Rdi) (reg Rsi) (reg Rdx) (reg Rcx) k))"

definition resume_syscall :: "'a platform \<Rightarrow> virt_addr \<Rightarrow> resume \<Rightarrow> 'a system \<Rightarrow> 'a sysresult" where
  "resume_syscall P ctx r k =
     (case current_thread (ksched k) of
        None \<Rightarrow> Inl Null_dereference
      | Some e \<Rightarrow> map_sum id (store_result P ctx \<circ> leaves e) (continue_call e r k))"

end
