(* ===== verification/Syscall_Types.thy ===== *)
theory Syscall_Types
  imports Syscall
begin

text \<open>
  References of the system: threads, processes, open files and directories are numbers. The predicate \<open>system_typed\<close> says that
  every number that is kept somewhere, in a run queue, a wake queue, a process or behind a handle, stands for something that exists.
  Every operation of the scheduler, of processes and of the loader keeps it, and so does every system call.
\<close>

lemma ensures_or_stop [simp]: "ensures Q (or_stop r) \<longleftrightarrow> (\<forall>x. r = Some x \<longrightarrow> Q x)"
  by (cases r) (auto simp: or_stop_def)

subsection \<open>The scheduler\<close>

definition sched_typed :: "nat \<Rightarrow> sched \<Rightarrow> bool" where
  "sched_typed n s \<longleftrightarrow> length (entities s) = n \<and> idle_entity s < n \<and> set (runqueue s) \<subseteq> {..<n}
     \<and> (\<forall>e. current s = Some e \<longrightarrow> e < n) \<and> (\<forall>e. current_thread s = Some e \<longrightarrow> e < n) \<and> (\<forall>q. set (waiters (queues s q)) \<subseteq> {..<n})"

lemma waiters_typed: "sched_typed n s \<Longrightarrow> e \<in> set (waiters (queues s q)) \<Longrightarrow> e < n"
  by (auto simp: sched_typed_def)

lemma current_typed: "sched_typed n s \<Longrightarrow> current_thread s = Some e \<Longrightarrow> e < n"
  by (simp add: sched_typed_def)

lemma upd_entity_typed [simp]: "sched_typed n (upd_entity e f s) \<longleftrightarrow> sched_typed n s"
  by (simp add: sched_typed_def upd_entity_def)

lemma upd_queue_typed:
  "sched_typed n s \<Longrightarrow> (\<And>w. set (waiters w) \<subseteq> {..<n} \<Longrightarrow> set (waiters (f w)) \<subseteq> {..<n}) \<Longrightarrow> sched_typed n (upd_queue q f s)"
  by (simp add: sched_typed_def upd_queue_def)

lemma lock_queue_typed: "sched_typed n s \<Longrightarrow> ensures (sched_typed n) (lock_queue q s)"
  by (auto simp: lock_queue_def mutex_lock_def intro!: upd_queue_typed)

lemma unlock_queue_typed: "sched_typed n s \<Longrightarrow> sched_typed n (unlock_queue q s)"
  by (auto simp: unlock_queue_def intro!: upd_queue_typed)

lemma wake_all_typed:
  assumes "\<And>w s. sched_typed n s \<Longrightarrow> w < n \<Longrightarrow> ensures (sched_typed n) (wake_up w s)"
  shows "sched_typed n s \<Longrightarrow> set ws \<subseteq> {..<n} \<Longrightarrow> ensures (sched_typed n) (wake_all wake_up ws s)"
proof (induction ws arbitrary: s)
  case (Cons w ws)
  have "ensures (sched_typed n) (wake_up w s)" using assms Cons.prems by simp
  then show ?case using Cons.IH Cons.prems(2) by (auto elim: ensures_weaken)
qed simp

lemma wq_wake_typed:
  assumes "\<And>w s. sched_typed n s \<Longrightarrow> w < n \<Longrightarrow> ensures (sched_typed n) (wake_up w s)" "sched_typed n s"
  shows "ensures (sched_typed n) (wq_wake wake_up q s)"
  unfolding wq_wake_def ensures_simps
  by (rule ensures_weaken [OF lock_queue_typed [OF assms(2)]], rule ensures_weaken [OF wake_all_typed [OF assms(1)]])
    (auto intro!: unlock_queue_typed upd_queue_typed dest: waiters_typed)

lemma set_entity_state_typed: "sched_typed n s \<Longrightarrow> e < n \<Longrightarrow> ensures (sched_typed n) (set_entity_state m e st s)"
proof (induction m arbitrary: e st s)
  case (Suc m)
  have "sched_typed n (add_to_runqueue e s)" "sched_typed n (remove_from_runqueue e s)"
    using Suc.prems set_remove1_subset [of e "runqueue s"] by (auto simp: sched_typed_def add_to_runqueue_def remove_from_runqueue_def)
  then show ?case using Suc by (auto intro!: wq_wake_typed)
qed simp

lemma set_state_typed: "sched_typed n s \<Longrightarrow> e < n \<Longrightarrow> ensures (sched_typed n) (set_state e st s)"
  unfolding set_state_def by (rule set_entity_state_typed)

lemma min_loop_member: "min_loop rt es b m = Some e \<Longrightarrow> b = Some e \<or> e \<in> set es"
  by (induction es arbitrary: b m) (auto split: if_splits)

lemma pick_next_entity_member: "pick_next_entity s = Some e \<Longrightarrow> e \<in> set (runqueue s)"
  by (auto simp: pick_next_entity_def dest: min_loop_member split: if_splits)

lemma schedule_typed: "sched_typed n s \<Longrightarrow> ensures (sched_typed n) (schedule s)"
proof -
  assume s: "sched_typed n s"
  have "pick_next_entity s = Some e \<Longrightarrow> e < n" for e using s pick_next_entity_member [of s e] by (auto simp: sched_typed_def)
  then show ?thesis using s
    by (auto simp: schedule_def activate_def ensures_def Let_def sched_typed_def upd_entity_def split: option.splits if_splits sum.splits)
qed

lemma thread_sleep_typed: "sched_typed n s \<Longrightarrow> e < n \<Longrightarrow> ensures (sched_typed n) (thread_sleep e s)"
  unfolding thread_sleep_def ensures_simps
  by (rule ensures_weaken [OF set_state_typed]) (auto simp: kernel_syscall_handler_def intro: schedule_typed)

lemma wq_sleep_typed: "sched_typed n s \<Longrightarrow> e < n \<Longrightarrow> ensures (sched_typed n) (wq_sleep q e s)"
  unfolding wq_sleep_def ensures_simps
  by (rule ensures_weaken [OF lock_queue_typed]) (auto intro!: thread_sleep_typed unlock_queue_typed upd_queue_typed)

lemma event_trigger_typed: "sched_typed n s \<Longrightarrow> ensures (sched_typed n) (event_trigger q s)"
  unfolding event_trigger_def by (rule wq_wake_typed) (simp_all add: thread_wake_up_def set_state_typed)

lemma event_wait_typed: "sched_typed n s \<Longrightarrow> ensures (sched_typed n) (event_wait q s)"
  using current_typed by (auto simp: event_wait_def intro: wq_sleep_typed split: option.split)

lemma wake_max_loop_typed: "sched_typed n s \<Longrightarrow> ensures (sched_typed n) (wake_max_loop m q s)"
proof (induction m arbitrary: s)
  case (Suc m)
  show ?case
  proof (cases "waiters (queues s q)")
    case (Cons w ws)
    then have "w < n" "set ws \<subseteq> {..<n}" using waiters_typed [OF Suc.prems, of _ q] by auto
    then have "sched_typed n (upd_queue q (\<lambda>x. x\<lparr>waiters := ws\<rparr>) s)" using Suc.prems by (simp add: upd_queue_typed)
    then show ?thesis using Cons \<open>w < n\<close> Suc.IH by (auto simp: thread_wake_up_def intro: ensures_weaken [OF set_state_typed])
  qed (use Suc.prems in simp)
qed simp

lemma wq_wakeMax_typed: "sched_typed n s \<Longrightarrow> ensures (sched_typed n) (wq_wakeMax m q s)"
  unfolding wq_wakeMax_def ensures_simps
  by (rule ensures_weaken [OF lock_queue_typed]) (auto intro: ensures_weaken [OF wake_max_loop_typed] unlock_queue_typed)

lemma thread_stop_simple_typed: "sched_typed n s \<Longrightarrow> e < n \<Longrightarrow> ensures (sched_typed n) (thread_stop_simple e s)"
  by (auto simp: thread_stop_simple_def kernel_syscall_handler_def intro: ensures_weaken [OF set_state_typed] schedule_typed set_state_typed)

lemma stop_threads_typed: "sched_typed n s \<Longrightarrow> set es \<subseteq> {..<n} \<Longrightarrow> ensures (sched_typed n) (stop_threads es s)"
proof (induction es arbitrary: s)
  case (Cons e es)
  have "ensures (sched_typed n) (thread_stop_simple e s)" using Cons.prems by (simp add: thread_stop_simple_typed)
  then show ?case using Cons.IH Cons.prems(2) by (auto elim: ensures_weaken)
qed simp

lemma new_entity_typed: "sched_typed n s \<Longrightarrow> sched_typed (Suc n) (snd (new_entity prio s))"
  by (auto simp: sched_typed_def new_entity_def free_queue_def less_Suc_eq) (meson lessThan_iff less_SucI subsetD)+

lemma timer_typed: "sched_typed n s \<Longrightarrow> ensures (sched_typed n) (lapic_timer_irq_handler s)"
  unfolding lapic_timer_irq_handler_def
  by (rule schedule_typed) (auto simp: update_accounting_def update_runtime_def sched_typed_def upd_entity_def Let_def split: option.split prod.split)

subsection \<open>Threads and processes\<close>

definition kernel_typed :: "('a, 'b) kernel_scheme \<Rightarrow> bool" where
  "kernel_typed k \<longleftrightarrow> sched_typed (length (kthreads k)) (ksched k) \<and> (\<forall>t \<in> set (kthreads k). thread_owner t < length (kprocs k))
     \<and> (\<forall>q \<in> set (kprocs k). set (proc_threads q) \<subseteq> {..<length (kthreads k)})"

text \<open>All that references depend on; memory, names and the rest of threads and processes are not part of it.\<close>

definition shape :: "('a, 'b) kernel_scheme \<Rightarrow> sched \<times> nat list \<times> nat list list \<times> (u64, object_descriptor) kmap \<times> 'b" where
  "shape k = (ksched k, map thread_owner (kthreads k), map proc_threads (kprocs k), kobjects k, kernel.more k)"

lemma kernel_typed_owners: "kernel_typed k \<longleftrightarrow> sched_typed (length (map thread_owner (kthreads k))) (ksched k)
    \<and> (\<forall>p \<in> set (map thread_owner (kthreads k)). p < length (map proc_threads (kprocs k)))
    \<and> (\<forall>es \<in> set (map proc_threads (kprocs k)). set es \<subseteq> {..<length (map thread_owner (kthreads k))})"
  by (simp add: kernel_typed_def)

lemma shape_lengths: "shape k' = shape k \<Longrightarrow> length (kthreads k') = length (kthreads k) \<and> length (kprocs k') = length (kprocs k)"
  unfolding shape_def by (metis Pair_inject length_map)

lemma kernel_typed_shape: "shape k' = shape k \<Longrightarrow> kernel_typed k' \<longleftrightarrow> kernel_typed k"
  unfolding kernel_typed_owners shape_def by simp

lemma map_update_same: "g (f (xs ! i)) = g (xs ! i) \<Longrightarrow> map g (xs[i := f (xs ! i)]) = map g xs"
  by (cases "i < length xs") (simp_all add: map_update list_update_same_conv list_update_beyond)

lemma shape_updates [simp]:
  "shape (upd_mem f k) = shape k" "shape (k\<lparr>kmachine := m\<rparr>) = shape k" "shape (k\<lparr>next_handle := h\<rparr>) = shape k"
  "(\<And>t. thread_owner (g t) = thread_owner t) \<Longrightarrow> shape (upd_thread e g k) = shape k"
  "(\<And>q. proc_threads (u q) = proc_threads q) \<Longrightarrow> shape (upd_proc p u k) = shape k"
  by (simp_all add: shape_def upd_mem_def upd_thread_def upd_proc_def map_update_same)

lemma upd_proc_fields [simp]:
  "length (kprocs (upd_proc p f k)) = length (kprocs k)" "kthreads (upd_proc p f k) = kthreads k" "ksched (upd_proc p f k) = ksched k"
  "kobjects (upd_proc p f k) = kobjects k" "kernel.more (upd_proc p f k) = kernel.more k"
  by (simp_all add: upd_proc_def)

definition grows :: "('a, 'b) kernel_scheme \<Rightarrow> ('a, 'b) kernel_scheme \<Rightarrow> bool" where
  "grows k k' \<longleftrightarrow> kernel_typed k' \<and> length (kthreads k) \<le> length (kthreads k') \<and> length (kprocs k) \<le> length (kprocs k')
     \<and> kobjects k' = kobjects k \<and> kernel.more k' = kernel.more k"

lemma grows_trans: "grows k k1 \<Longrightarrow> grows k1 k2 \<Longrightarrow> grows k k2"
  by (simp add: grows_def)

lemma grows_refl [simp]: "grows k k \<longleftrightarrow> kernel_typed k"
  by (simp add: grows_def)

lemma grows_typed: "grows k k' \<Longrightarrow> kernel_typed k'"
  by (simp add: grows_def)

lemma grows_shape_right: "shape k' = shape k1 \<Longrightarrow> grows k k' \<longleftrightarrow> grows k k1"
  using kernel_typed_shape [of k' k1] shape_lengths [of k' k1] by (auto simp: grows_def shape_def)

lemma grows_shape: "kernel_typed k \<Longrightarrow> shape k' = shape k \<Longrightarrow> grows k k'"
  by (simp add: grows_shape_right)

lemma on_sched_typed:
  "kernel_typed k \<Longrightarrow> ensures (sched_typed (length (kthreads k))) (f (ksched k)) \<Longrightarrow> ensures (grows k) (on_sched f k)"
  by (auto simp: on_sched_def kernel_typed_def grows_def elim!: ensures_weaken)

lemma kernel_typedD:
  assumes "kernel_typed k"
  shows "sched_typed (length (kthreads k)) (ksched k)" "length (kthreads k) = length (entities (ksched k))"
    "e < length (kthreads k) \<Longrightarrow> thread_owner (kthreads k ! e) < length (kprocs k)"
    "p < length (kprocs k) \<Longrightarrow> set (proc_threads (kprocs k ! p)) \<subseteq> {..<length (kthreads k)}"
    "current_thread (ksched k) = Some e \<Longrightarrow> e < length (kthreads k)"
  using assms by (auto simp: kernel_typed_def sched_typed_def)

lemma create_thread_typed:
  assumes k: "kernel_typed k" "p < length (kprocs k)"
  shows "ensures (\<lambda>(e, k'). grows k k' \<and> e < length (kthreads k') \<and> thread_owner (kthreads k' ! e) = p) (create_thread alg p priv entry name prio k)"
  unfolding ensures_def
proof (intro allI impI)
  fix r assume "create_thread alg p priv entry name prio k = Inr r"
  then obtain e k' where r: "r = (e, k')" "create_thread alg p priv entry name prio k = Inr (e, k')" by (cases r) auto
  obtain v m t where e: "e = length (kthreads k)" "thread_owner t = p"
    and k': "k' = k\<lparr>kprocs := (kprocs k)[p := (kprocs k ! p)\<lparr>proc_vma := v, proc_threads := proc_threads (kprocs k ! p) @ [e]\<rparr>],
        ksched := snd (new_entity prio (ksched k)), kmachine := m, kthreads := kthreads k @ [t]\<rparr>"
    using create_thread_shape [OF r(2) kernel_typedD(2) [OF k(1)] k(2)] by blast
  have "set (proc_threads q) \<subseteq> {..<Suc (length (kthreads k))}" if "q \<in> set (kprocs k')" for q
    using that set_update_subset_insert [of "kprocs k" p] k kernel_typedD(4) [OF k] unfolding k' e(1) by (fastforce simp: kernel_typed_def)
  then show "case r of (e, k') \<Rightarrow> grows k k' \<and> e < length (kthreads k') \<and> thread_owner (kthreads k' ! e) = p"
    using k e new_entity_typed [OF kernel_typedD(1) [OF k(1)], of prio] unfolding r(1) by (auto simp: k' grows_def kernel_typed_def)
qed

lemma Process_new_typed:
  assumes k: "kernel_typed k"
  shows "ensures (\<lambda>(p, k'). grows k k' \<and> p < length (kprocs k')) (Process_new alg tmpl name b entry k)"
proof -
  let ?n = "length (kprocs k)"
  have "grows k (k\<lparr>kmachine := m, kprocs := kprocs k @ [proc], ksched := (ksched k)\<lparr>queues := (queues (ksched k))(Process_changed ?n := free_queue)\<rparr>\<rparr>)"
    (is "grows k ?k1") if "proc_threads proc = []" for m proc
    using k that by (auto simp: grows_def kernel_typed_def sched_typed_def free_queue_def less_SucI)
  then have new: "ensures (\<lambda>x. ensures (\<lambda>(p, k'). grows k k' \<and> p < length (kprocs k')) (case x of (e, k') \<Rightarrow> Inr (?n, upd_proc ?n (main_thread_update (\<lambda>_. e)) k')))
      (create_thread alg ?n priv entry nm prio
        (k\<lparr>kmachine := m, kprocs := kprocs k @ [proc], ksched := (ksched k)\<lparr>queues := (queues (ksched k))(Process_changed ?n := free_queue)\<rparr>\<rparr>))"
    if "proc_threads proc = []" for m proc priv nm prio
    using that grows_trans by (intro ensures_weaken [OF create_thread_typed]) (auto simp: grows_def kernel_typed_shape [OF shape_updates(5)])
  show ?thesis unfolding Process_new_def Let_def by (simp add: new)
qed

lemma on_sched_grows:
  assumes "grows k k'" "\<And>s. sched_typed (length (kthreads k')) s \<Longrightarrow> ensures (sched_typed (length (kthreads k'))) (f s)"
  shows "ensures (grows k) (on_sched f k')"
  by (rule ensures_weaken [OF on_sched_typed [OF grows_typed [OF assms(1)] assms(2)]])
    (use assms(1) grows_trans kernel_typedD(1) [OF grows_typed [OF assms(1)]] in blast)+

lemma terminate_typed:
  assumes k: "kernel_typed k" "p < length (kprocs k)"
  shows "ensures (grows k) (terminate p k)"
proof -
  let ?k = "upd_proc p (\<lambda>q. q\<lparr>exception_info := None, terminated := True\<rparr>) k"
  have "grows k ?k" using k(1) by (intro grows_shape) simp_all
  then have "ensures (grows k) (on_sched (event_trigger (Process_changed p)) ?k)"
    by (rule on_sched_grows) (rule event_trigger_typed)
  then show ?thesis unfolding terminate_def Let_def ensures_simps
  proof (rule ensures_weaken)
    fix k' assume k': "grows k k'"
    then have "set (proc_threads (kprocs k' ! p)) \<subseteq> {..<length (kthreads k')}"
      using kernel_typedD(4) [of k' p] k(2) by (simp add: grows_def)
    then show "ensures (grows k) (on_sched (stop_threads (proc_threads (kprocs k' ! p))) k')"
      using k' by (auto intro: on_sched_grows stop_threads_typed)
  qed
qed

lemma lock_futexes_typed: "kernel_typed k \<Longrightarrow> ensures (grows k) (lock_futexes p k)"
  by (auto simp: lock_futexes_def mutex_lock_def intro!: grows_shape)

lemma unlock_futexes_shape [simp]: "shape (unlock_futexes p k) = shape k"
  by (simp add: unlock_futexes_def)

lemma set_thread_waiting_typed:
  assumes "kernel_typed k" "e < length (kthreads k)"
  shows "ensures (grows k) (set_thread_waiting p e va k)"
  unfolding set_thread_waiting_def ensures_simps
proof (rule ensures_weaken [OF lock_futexes_typed [OF assms(1)]])
  fix k1 assume k1: "grows k k1"
  let ?k2 = "(upd_proc p (\<lambda>q. q\<lparr>wake_queue_map := kadd va (Futex p va) (wake_queue_map q)\<rparr>) k1)
                \<lparr>ksched := (ksched k1)\<lparr>queues := (queues (ksched k1))(Futex p va := free_queue)\<rparr>\<rparr>"
  have "grows k1 (upd_proc p (\<lambda>q. q\<lparr>wake_queue_map := kadd va (Futex p va) (wake_queue_map q)\<rparr>) k1)"
    using grows_typed [OF k1] by (intro grows_shape) simp_all
  then have "grows k1 ?k2" by (auto simp: grows_def kernel_typed_def sched_typed_def free_queue_def upd_proc_def)
  then have k2: "grows k ?k2" using k1 grows_trans by blast
  have sl: "ensures (grows k) (on_sched (wq_sleep q e) (unlock_futexes p k'))" if "grows k k'" for k' q
  proof -
    have u: "grows k (unlock_futexes p k')" by (rule grows_shape_right [OF unlock_futexes_shape, THEN iffD2, OF that])
    then have "e < length (kthreads (unlock_futexes p k'))" using assms(2) by (simp add: grows_def)
    then show ?thesis using u by (auto intro: on_sched_grows wq_sleep_typed)
  qed
  show "ensures (grows k) (let k = if kget (wake_queue_map (kprocs k1 ! p)) va = None then ?k2 else k1
     in case kget (wake_queue_map (kprocs k ! p)) va of None \<Rightarrow> Inl Null_dereference | Some q \<Rightarrow> on_sched (wq_sleep q e) (unlock_futexes p k))"
    using sl [OF k2] sl [OF k1] by (auto simp: Let_def split: option.split)
qed

lemma wake_up_threads_typed: "kernel_typed k \<Longrightarrow> ensures (grows k) (wake_up_threads p va n k)"
  by (auto simp: wake_up_threads_def intro!: on_sched_typed wq_wakeMax_typed kernel_typedD(1) split: option.split)

lemma loading_shape:
  assumes "loading p t k k'"
  shows "shape k' = shape k"
proof -
  have "thread_owner (kthreads k' ! i) = thread_owner (kthreads k ! i)" if "i < length (kthreads k)" for i
    using assms that by (cases "i = t") (auto simp: loading_def)
  moreover have "proc_threads (kprocs k' ! i) = proc_threads (kprocs k ! i)" if "i < length (kprocs k)" for i
    using assms that by (cases "i = p") (auto simp: loading_def)
  ultimately show ?thesis using assms by (auto simp: shape_def loading_def intro: nth_equalityI)
qed

lemma loading_grows: "loading p t k1 k2 \<Longrightarrow> grows k k1 \<Longrightarrow> grows k k2"
  by (rule grows_shape_right [OF loading_shape, THEN iffD2])

lemma pass_cmdline_any_loading: "pass_cmdline alg p t cmdline k = Inr (ok, k') \<Longrightarrow> loading p t k k'"
proof (cases "cmdline = []")
  case False
  assume "pass_cmdline alg p t cmdline k = Inr (ok, k')"
  then obtain k1 where "pass_string alg p 0x102000 cmdline k = Inr (ok, k1)" "k' = (if ok then add_entry_argument t 0x102000 k1 else k1)"
    using False by (auto simp: pass_cmdline_def andthen_eq_Inr split: prod.splits)
  then show ?thesis using pass_string_loading loading_trans [OF pass_string_loading add_entry_argument_loading] by auto
qed (auto simp: pass_cmdline_def add_entry_argument_loading)

lemma load_loop_grows: "grows k k1 \<Longrightarrow> ensures (\<lambda>(r, k'). grows k k') (load_loop alg pread junk hdr p i n ui k1)"
  using loading_grows [OF load_loop_loading] by (fastforce simp: ensures_def)

lemma allocate_user_stack_grows: "grows k k1 \<Longrightarrow> ensures (grows k) (allocate_user_stack alg t va sz k1)"
  using loading_grows [OF allocate_user_stack_loading [OF _ refl]] by (fastforce simp: ensures_def)

lemma pass_cmdline_grows: "grows k k1 \<Longrightarrow> ensures (\<lambda>(r, k'). grows k k') (pass_cmdline alg p t str k1)"
  using loading_grows [OF pass_cmdline_any_loading] by (fastforce simp: ensures_def)

lemma pass_string_grows: "grows k k1 \<Longrightarrow> ensures (\<lambda>(r, k'). grows k k') (pass_string alg p va str k1)"
  using loading_grows [OF pass_string_loading [where t = 0]] by (fastforce simp: ensures_def)

lemma add_entry_argument_grows: "grows k k1 \<Longrightarrow> grows k (add_entry_argument t arg k1)"
  by (rule loading_grows [OF add_entry_argument_loading [where p = 0]])

lemma elf_load_grows:
  assumes "kernel_typed k"
  shows "ensures (\<lambda>(r, k'). grows k k') (elf_load alg tmpl junk read pread cmdline path k)"
proof -
  have 1: "ensures (\<lambda>x. ensures (\<lambda>(r, k'). grows k k') (case x of (ok, k2) \<Rightarrow>
      if \<not> ok then Inr (None, k2) else Inr (Some p, add_entry_argument t 0x103000 k2))) (pass_string alg p 0x103000 path k1)"
    if "grows k k1" for k1 p t
    by (rule ensures_weaken [OF pass_string_grows [OF that]]) (auto intro: add_entry_argument_grows)
  have 2: "ensures (\<lambda>x. ensures (\<lambda>(r, k'). grows k k') (case x of (ok, k2) \<Rightarrow>
      if \<not> ok then Inr (None, k2) else andthen (pass_string alg p 0x103000 path k2) (\<lambda>(ok, k).
        if \<not> ok then Inr (None, k) else Inr (Some p, add_entry_argument t 0x103000 k)))) (pass_cmdline alg p t cmdline k1)"
    if "grows k k1" for k1 p t
    by (rule ensures_weaken [OF pass_cmdline_grows [OF that]]) (auto simp: 1)
  have 3: "ensures (\<lambda>x. ensures (\<lambda>(r, k'). grows k k') (andthen (pass_cmdline alg p t cmdline x) (\<lambda>(ok, k2).
      if \<not> ok then Inr (None, k2) else andthen (pass_string alg p 0x103000 path k2) (\<lambda>(ok, k).
        if \<not> ok then Inr (None, k) else Inr (Some p, add_entry_argument t 0x103000 k))))) (allocate_user_stack alg t 0x100000 0x2000 k1)"
    if "grows k k1" for k1 p t
    by (rule ensures_weaken [OF allocate_user_stack_grows [OF that]]) (simp add: 2)
  have 4: "ensures (\<lambda>x. ensures (\<lambda>(r, k'). grows k k') (case x of (r, k1) \<Rightarrow>
      if r \<noteq> Some False then Inr (None, k1)
      else andthen (allocate_user_stack alg (main_thread (kprocs k1 ! p)) 0x100000 0x2000 k1) (\<lambda>k2.
        andthen (pass_cmdline alg p (main_thread (kprocs k1 ! p)) cmdline k2) (\<lambda>(ok, k2).
        if \<not> ok then Inr (None, k2) else andthen (pass_string alg p 0x103000 path k2) (\<lambda>(ok, k).
          if \<not> ok then Inr (None, k) else Inr (Some p, add_entry_argument (main_thread (kprocs k1 ! p)) 0x103000 k))))))
      (load_loop alg pread junk hdr p 0 n False k1)"
    if "grows k k1" for k1 p hdr n
    by (rule ensures_weaken [OF load_loop_grows [OF that]]) (use 3 in auto)
  show ?thesis unfolding elf_load_def Let_def
    by (use assms 4 in \<open>auto intro!: ensures_weaken [OF Process_new_typed [OF assms]]\<close>)
qed

lemma elf_load_main:
  assumes "kernel_typed k" "elf_load alg tmpl junk read pread cmdline path k = Inr (Some p, k')"
  shows "p < length (kprocs k')" "main_thread (kprocs k' ! p) < length (kthreads k')"
proof -
  note n = kernel_typedD(2) [OF assms(1)]
  obtain xs k1 where k1: "Process_new alg tmpl (map of_char ''user'') False (elf_entry_point (ELF64Header xs)) k = Inr (p, k1)"
    "loading p (length (kthreads k)) k1 k'"
    by (rule elf_load_loading [OF assms(2) n])
  note sh = Process_new_shape [OF k1(1) n]
  show "p < length (kprocs k')" using k1(2) sh by (simp add: loading_def)
  show "main_thread (kprocs k' ! p) < length (kthreads k')" using k1(2) sh by (auto simp: loading_def)
qed

lemma launch_process_grows:
  assumes "kernel_typed k"
  shows "ensures (\<lambda>(r, fs', k'). grows k k' \<and> (\<forall>p. r = Some p \<longrightarrow> p < length (kprocs k'))) (launch_process alg tmpl junk img path cmdline (fs, k))"
proof -
  let ?Q = "\<lambda>(r, fs', k'). grows k k' \<and> (\<forall>p. r = Some p \<longrightarrow> p < length (kprocs k'))"
  have st: "ensures (\<lambda>k'. grows k k' \<and> p < length (kprocs k')) (Process_start p k1)"
    if "grows k k1" "p < length (kprocs k1)" "main_thread (kprocs k1 ! p) < length (kthreads k1)" for p k1
    unfolding Process_start_def thread_start_def
    by (rule ensures_weaken [OF on_sched_grows [of k1 k1]])
      (use that grows_trans in \<open>auto simp: grows_typed intro: set_state_typed, auto simp: grows_def\<close>)
  have "ensures (\<lambda>x. ensures ?Q (case x of (np, k1) \<Rightarrow>
      (case np of None \<Rightarrow> Inr (None, fs', k1) | Some p \<Rightarrow> andthen (Process_start p k1) (\<lambda>k2. Inr (Some p, fs', k2)))))
    (elf_load alg tmpl junk rd pread cmdline path k)" for fs' rd pread
    using elf_load_grows [OF assms, of alg tmpl junk rd pread cmdline path] elf_load_main [OF assms, of alg tmpl junk rd pread cmdline path]
    by (auto simp: ensures_def [of _ "elf_load _ _ _ _ _ _ _ _"] split: option.split intro!: ensures_weaken [OF st])
  then show ?thesis using assms unfolding launch_process_def Let_def by (auto split: option.split)
qed

subsection \<open>Handles\<close>

fun object_ok :: "kernel_object \<Rightarrow> 'a system \<Rightarrow> bool" where
  "object_ok (File_object i) k \<longleftrightarrow> i < length (open_files k)"
| "object_ok (Directory_object i) k \<longleftrightarrow> i < length (open_dirs k)"
| "object_ok (Process_object p) k \<longleftrightarrow> p < length (kprocs k)"
| "object_ok (Thread_object t) k \<longleftrightarrow> t < length (kthreads k)"

definition system_typed :: "'a system \<Rightarrow> bool" where
  "system_typed k \<longleftrightarrow> kernel_typed k
     \<and> (\<forall>h d. kget (kobjects k) h = Some d \<longrightarrow> od_owner d < length (kthreads k) \<and> object_ok (od_object d) k)"

fun resume_ok :: "resume \<Rightarrow> 'a system \<Rightarrow> bool" where
  "resume_ok (Wait_process p) k \<longleftrightarrow> p < length (kprocs k)"
| "resume_ok (Wait_thread t) k \<longleftrightarrow> t < length (kthreads k)"
| "resume_ok (Finish r) k \<longleftrightarrow> (case r of Suspended _ \<Rightarrow> False | _ \<Rightarrow> True)"
| "resume_ok _ k \<longleftrightarrow> True"

fun sysret_ok :: "sysret \<Rightarrow> 'a system \<Rightarrow> bool" where
  "sysret_ok (Suspended r) k \<longleftrightarrow> resume_ok r k"
| "sysret_ok _ k \<longleftrightarrow> True"

definition evolves :: "'a system \<Rightarrow> 'a system \<Rightarrow> bool" where
  "evolves k k' \<longleftrightarrow> system_typed k' \<and> length (kthreads k) \<le> length (kthreads k') \<and> length (kprocs k) \<le> length (kprocs k')
     \<and> length (open_files k) \<le> length (open_files k') \<and> length (open_dirs k) \<le> length (open_dirs k')"

abbreviation good :: "'a system \<Rightarrow> sysret \<times> 'a system \<Rightarrow> bool" where
  "good k x \<equiv> evolves k (snd x) \<and> sysret_ok (fst x) (snd x)"

lemma evolves_refl [simp]: "evolves k k \<longleftrightarrow> system_typed k"
  by (simp add: evolves_def)

lemma evolves_trans: "evolves k k1 \<Longrightarrow> evolves k1 k2 \<Longrightarrow> evolves k k2"
  by (simp add: evolves_def)

lemma evolves_typed: "evolves k k' \<Longrightarrow> system_typed k'"
  by (simp add: evolves_def)

lemma system_typed_kernel: "system_typed k \<Longrightarrow> kernel_typed k"
  by (simp add: system_typed_def)

lemma more_fields:
  fixes k k' :: "'a system"
  assumes "kernel.more k' = kernel.more k"
  shows "open_files k' = open_files k" "open_dirs k' = open_dirs k" "sys_console k' = sys_console k" "sys_vfs k' = sys_vfs k"
    "syscall_table k' = syscall_table k"
  using assms by (cases k; cases k'; simp)+

lemma object_ok_mono:
  fixes k k' :: "'a system"
  assumes "object_ok x k" "length (kthreads k) \<le> length (kthreads k')" "length (kprocs k) \<le> length (kprocs k')"
    "length (open_files k) \<le> length (open_files k')" "length (open_dirs k) \<le> length (open_dirs k')"
  shows "object_ok x k'"
  using assms by (cases x) auto

lemma evolvesI:
  assumes "system_typed k" "kernel_typed k'" "kobjects k' = kobjects k" "length (kthreads k) \<le> length (kthreads k')" "length (kprocs k) \<le> length (kprocs k')"
    "length (open_files k) \<le> length (open_files k')" "length (open_dirs k) \<le> length (open_dirs k')"
  shows "evolves k k'"
proof -
  have "od_owner d < length (kthreads k') \<and> object_ok (od_object d) k'" if "kget (kobjects k') h = Some d" for h d
  proof -
    have "od_owner d < length (kthreads k)" "object_ok (od_object d) k" using that assms(1,3) by (auto simp: system_typed_def)
    then show ?thesis using object_ok_mono [OF _ assms(4-7)] assms(4) by simp
  qed
  then show ?thesis using assms by (simp add: evolves_def system_typed_def)
qed

lemma grows_evolves: "system_typed k \<Longrightarrow> grows k k' \<Longrightarrow> evolves k k'"
  by (rule evolvesI) (auto simp: grows_def dest: more_fields(1,2))

lemma ensures_evolves: "system_typed k \<Longrightarrow> ensures (grows k) m \<Longrightarrow> ensures (evolves k) m"
  by (erule ensures_weaken) (rule grows_evolves)

lemma shape_evolves: "evolves k k1 \<Longrightarrow> shape k2 = shape k1 \<Longrightarrow> evolves k k2"
  using evolves_trans grows_evolves grows_shape evolves_typed system_typed_kernel by metis

lemma register_object_evolves:
  assumes "system_typed k" "e < length (kthreads k)" "object_ok obj k"
  shows "evolves k (snd (register_object e obj k))"
proof -
  have "kernel_typed (snd (register_object e obj k)) \<longleftrightarrow> kernel_typed k" by (simp add: register_object_def Let_def kernel_typed_def)
  moreover have "object_ok x (snd (register_object e obj k)) \<longleftrightarrow> object_ok x k" for x by (cases x) (simp_all add: register_object_def Let_def)
  ultimately show ?thesis using assms by (auto simp: evolves_def system_typed_def register_object_def Let_def split: if_splits)
qed

lemma handle_ok:
  assumes "system_typed k" "get_object_secure e h k = Some obj"
  shows "object_ok obj k"
  using assms by (auto simp: system_typed_def get_object_secure_def split: option.splits if_splits)

subsection \<open>The handlers\<close>

lemma system_typed_sched: "system_typed k \<Longrightarrow> sched_typed (length (kthreads k)) (ksched k)"
  by (simp add: system_typed_def kernel_typed_def)

lemma kernel_typed_fields [simp]:
  fixes k :: "'a system"
  shows "kernel_typed (k\<lparr>sys_console := c\<rparr>) \<longleftrightarrow> kernel_typed k" "kernel_typed (k\<lparr>sys_vfs := fs\<rparr>) \<longleftrightarrow> kernel_typed k"
    "kernel_typed (k\<lparr>open_files := xs\<rparr>) \<longleftrightarrow> kernel_typed k" "kernel_typed (k\<lparr>open_dirs := ys\<rparr>) \<longleftrightarrow> kernel_typed k"
  by (simp_all add: kernel_typed_def)

lemma fields_evolve:
  assumes "evolves k k1"
  shows "evolves k (k1\<lparr>sys_console := c\<rparr>)" "evolves k (k1\<lparr>sys_vfs := fs\<rparr>)"
    "length (open_files k1) \<le> length xs \<Longrightarrow> evolves k (k1\<lparr>open_files := xs\<rparr>)"
    "length (open_dirs k1) \<le> length ys \<Longrightarrow> evolves k (k1\<lparr>open_dirs := ys\<rparr>)"
  by (rule evolves_trans [OF assms evolvesI], insert evolves_typed [OF assms], simp_all add: system_typed_kernel)+

lemma upd_evolves:
  assumes "evolves k k1"
  shows "evolves k (upd_mem f k1)" "(\<And>t. thread_owner (g t) = thread_owner t) \<Longrightarrow> evolves k (upd_thread e g k1)"
    "(\<And>q. proc_threads (u q) = proc_threads q) \<Longrightarrow> evolves k (upd_proc p u k1)"
  by (rule shape_evolves [OF assms], simp)+

lemma in_space_shape [simp]: "shape (snd (in_space p f k)) = shape k"
  by (simp add: in_space_def split: prod.split)

lemma user_write_shape [simp]: "shape (snd (user_write p va cs k)) = shape k"
  by (induction p va cs k rule: user_write.induct) (auto split: option.split)

lemma user_writes_shape [simp]: "shape (snd (user_writes p ws k)) = shape k"
proof (induction p ws k rule: user_writes.induct)
  case (2 p va cs ws k)
  obtain r k1 where w: "user_write p va cs k = (r, k1)" by fastforce
  have "shape k1 = shape k" using user_write_shape [of p va cs k] unfolding w by simp
  then show ?case using 2 w by (cases r) auto
qed simp

lemma after_write_good:
  assumes "evolves k (snd w)" "\<And>k1. evolves k k1 \<Longrightarrow> ensures (good k) (f k1)"
  shows "ensures (good k) (after_write w f)"
  using assms by (auto simp: after_write_def split: prod.split option.split)

lemma user_write_good:
  "evolves k k0 \<Longrightarrow> (\<And>k1. evolves k k1 \<Longrightarrow> ensures (good k) (f k1)) \<Longrightarrow> ensures (good k) (after_write (user_write p va cs k0) f)"
  "evolves k k0 \<Longrightarrow> (\<And>k1. evolves k k1 \<Longrightarrow> ensures (good k) (f k1)) \<Longrightarrow> ensures (good k) (after_write (user_writes p ws k0) f)"
  by (rule after_write_good, erule shape_evolves, simp_all)+

lemma with_string_good:
  "system_typed k \<Longrightarrow> (\<And>xs. ensures (good k) (f xs)) \<Longrightarrow> ensures (good k) (with_string p va k f)"
  by (auto simp: with_string_def split: option.split sum.split)

lemma on_console_good:
  assumes "system_typed k" "\<And>c. con_sched c = ksched k \<Longrightarrow> ensures (\<lambda>x. sched_typed (length (kthreads k)) (con_sched (snd x))) (f c)"
  shows "ensures (\<lambda>x. evolves k (snd x)) (on_console f k)"
  unfolding on_console_def ensures_simps
  by (rule ensures_weaken [OF assms(2)]) (use assms(1) in \<open>auto simp: system_typed_def kernel_typed_def intro!: evolvesI\<close>)

lemma ends_good: "evolves k k' \<Longrightarrow> (case r of Suspended _ \<Rightarrow> False | _ \<Rightarrow> True) \<Longrightarrow> ensures (good k) (ends e r k')"
  by (auto simp: ends_def split: sysret.split_asm)

lemma Terminal_read_typed: "sched_typed n (con_sched c) \<Longrightarrow> ensures (\<lambda>x. sched_typed n (con_sched (snd x))) (Terminal_read t (Suc 0) c)"
  by (auto simp: Terminal_read_def Let_def upd_tty_def intro: ensures_weaken [OF event_wait_typed])

lemma VirtualConsole_write_sched: "ensures (\<lambda>x. con_sched (snd x) = con_sched c) (VirtualConsole_write v xs c)"
  by (auto simp: VirtualConsole_write_def VCUpdateCallback_def upd_vc_def Let_def ensures_def andthen_eq_Inr split: option.splits if_splits)

lemma Terminal_write_sched: "ensures (\<lambda>x. con_sched (snd x) = con_sched c) (Terminal_write t xs c)"
  by (auto simp: Terminal_write_def VirtualConsole_write_sched split: option.split)

lemma VirtualConsoleFile_pwrite_sched: "ensures (\<lambda>x. con_sched (snd x) = con_sched c) (VirtualConsoleFile_pwrite v xs off c)"
  by (auto simp: VirtualConsoleFile_pwrite_def split: option.split)

lemma read_terminal_good:
  "evolves k0 k \<Longrightarrow> ensures (good k0) (read_terminal p t buffer m n k)"
proof (induction m arbitrary: n k)
  case (Suc m)
  have "ensures (\<lambda>x. evolves k (snd x)) (on_console (Terminal_read t 1) k)"
    using evolves_typed [OF Suc.prems] by (auto simp: system_typed_sched intro!: on_console_good Terminal_read_typed)
  then show ?case using Suc.prems evolves_trans Suc.IH
    by (auto elim!: ensures_weaken split: read_result.split intro!: user_write_good)
qed simp


lemma write_terminal_good: "system_typed k \<Longrightarrow> ensures (good k) (write_terminal p t buffer n k)"
proof -
  assume k: "system_typed k"
  have w: "ensures (\<lambda>x. evolves k (snd x)) (on_console (Terminal_write t xs) k)" for xs
    using k by (intro on_console_good ensures_weaken [OF Terminal_write_sched]) (auto simp: system_typed_sched)
  show ?thesis using k unfolding write_terminal_def
    by (auto split: option.split sum.split intro!: ensures_weaken [OF w] fields_evolve)
qed

lemma RTCFile_good: "system_typed k \<Longrightarrow> ensures (good k) (RTCFile_read P p buffer n k)"
  "system_typed k \<Longrightarrow> ensures (good k) (RTCFile_pread P p buffer n off k)"
  by (auto simp: RTCFile_read_def RTCFile_pread_def intro!: user_write_good)

lemma file_read_good: "system_typed k \<Longrightarrow> ensures (good k) (file_read P p i buffer n k)"
  by (auto simp: file_read_def RTCFile_good read_terminal_good fields_evolve split: fs_file.split device_role.split intro!: user_write_good)

lemma file_pread_good: "system_typed k \<Longrightarrow> ensures (good k) (file_pread P p i buffer n off k)"
  by (auto simp: file_pread_def RTCFile_good split: fs_file.split device_role.split intro!: user_write_good)

lemma file_write_good: "system_typed k \<Longrightarrow> ensures (good k) (file_write P p i buffer n k)"
  by (auto simp: file_write_def write_terminal_good split: fs_file.split device_role.split)

lemma file_pwrite_good: "system_typed k \<Longrightarrow> ensures (good k) (file_pwrite P p i buffer n off k)"
proof -
  assume k: "system_typed k"
  have w: "ensures (\<lambda>x. evolves k (snd x)) (on_console (VirtualConsoleFile_pwrite v xs off) k)" for v xs
    using k by (intro on_console_good ensures_weaken [OF VirtualConsoleFile_pwrite_sched]) (auto simp: system_typed_sched)
  show ?thesis using k by (auto simp: file_pwrite_def split: fs_file.split device_role.split sum.split intro!: ensures_weaken [OF w])
qed

lemma on_file_good: "system_typed k \<Longrightarrow> (\<And>i. ensures (good k) (f i)) \<Longrightarrow> ensures (good k) (on_file e h k f)"
  by (auto simp: on_file_def split: option.split kernel_object.split)

lemma register_good:
  "evolves k k1 \<Longrightarrow> e < length (kthreads k1) \<Longrightarrow> object_ok obj k1 \<Longrightarrow> evolves k (snd (register_object e obj k1))"
  using evolves_trans register_object_evolves evolves_typed by blast

lemma sys_open_good: "system_typed k \<Longrightarrow> e < length (kthreads k) \<Longrightarrow> ensures (good k) (sys_open e filename k)"
  unfolding sys_open_def by (auto simp: Let_def case_prod_unfold split: option.split intro!: with_string_good register_good fields_evolve)

lemma sys_opendir_good: "system_typed k \<Longrightarrow> e < length (kthreads k) \<Longrightarrow> ensures (good k) (sys_opendir e path k)"
  unfolding sys_opendir_def by (auto simp: Let_def case_prod_unfold split: option.split intro!: with_string_good register_good fields_evolve)

lemma sys_closedir_good: "system_typed k \<Longrightarrow> ensures (good k) (sys_closedir e h k)"
  unfolding sys_closedir_def by (auto split: option.split kernel_object.split intro: fields_evolve)

lemma sys_readdir_good: "system_typed k \<Longrightarrow> ensures (good k) (sys_readdir e h buffer k)"
  unfolding sys_readdir_def by (auto simp del: user_writes.simps split: option.split kernel_object.split prod.split intro!: user_write_good fields_evolve)

lemma current_process: "system_typed k \<Longrightarrow> e < length (kthreads k) \<Longrightarrow> proc_of e k < length (kprocs k)"
  by (rule kernel_typedD(3) [OF system_typed_kernel])

lemma sys_exit_good: "system_typed k \<Longrightarrow> e < length (kthreads k) \<Longrightarrow> ensures (good k) (sys_exit e k)"
  unfolding sys_exit_def ensures_simps
  by (rule ensures_weaken [OF ensures_evolves [OF _ terminate_typed]]) (auto simp: current_process system_typed_kernel intro!: ends_good)

lemma on_sched_evolves:
  assumes "system_typed k" "\<And>s. sched_typed (length (kthreads k)) s \<Longrightarrow> ensures (sched_typed (length (kthreads k))) (f s)"
  shows "ensures (evolves k) (on_sched f k)"
  by (rule ensures_evolves [OF assms(1) on_sched_grows]) (use assms in \<open>simp_all add: system_typed_kernel\<close>)

lemma wait_good:
  "system_typed k \<Longrightarrow> p < length (kprocs k) \<Longrightarrow> ensures (good k) (wait_process p k)"
  "system_typed k \<Longrightarrow> t < length (kthreads k) \<Longrightarrow> ensures (good k) (wait_thread t k)"
  unfolding wait_process_def wait_thread_def
  by (auto intro!: ensures_weaken [OF on_sched_evolves] event_wait_typed simp: evolves_def)

lemma sys_wait_good: "system_typed k \<Longrightarrow> ensures (good k) (sys_wait_proc e h k)" "system_typed k \<Longrightarrow> ensures (good k) (sys_join_thread e h k)"
  unfolding sys_wait_proc_def sys_join_thread_def
  by (auto split: option.split kernel_object.split intro!: wait_good dest: handle_ok)

lemma sys_exec_good: "system_typed k \<Longrightarrow> e < length (kthreads k) \<Longrightarrow> ensures (good k) (sys_exec P e program args k)"
  unfolding sys_exec_def
proof (intro with_string_good)
  fix path cmdline assume k: "system_typed k" "e < length (kthreads k)"
  have "ensures (\<lambda>(r, fs', k'). evolves k k' \<and> (\<forall>p. r = Some p \<longrightarrow> p < length (kprocs k')))
    (launch_process (plat_alg P) (plat_template P) (plat_junk P) (image_of P) path cmdline (sys_vfs k, k))"
    by (rule ensures_weaken [OF launch_process_grows [OF system_typed_kernel [OF k(1)]]]) (use k in \<open>auto intro: grows_evolves\<close>)
  then show "ensures (good k) (andthen (launch_process (plat_alg P) (plat_template P) (plat_junk P) (image_of P) path cmdline (sys_vfs k, k)) (\<lambda>(r, fs, k).
     let k = k\<lparr>sys_vfs := fs\<rparr>
     in case r of
          None \<Rightarrow> Inr (Return (- 1), k)
        | Some p \<Rightarrow> let (h, k) = register_object e (Process_object p) k in Inr (Return h, k)))"
    using k(2) by (auto simp: Let_def case_prod_unfold split: option.split elim!: ensures_weaken intro!: register_good fields_evolve)
      (auto simp: evolves_def)
qed assumption+

lemma sys_create_thread_good:
  assumes k: "system_typed k" "e < length (kthreads k)"
  shows "ensures (good k) (sys_create_thread P e entry arg prio k)"
proof -
  have st: "ensures (evolves k) (on_sched (thread_start t) (add_entry_argument t arg k2))" if "evolves k k2" "t < length (kthreads k2)" for t k2
  proof -
    have a: "evolves k (add_entry_argument t arg k2)" "t < length (kthreads (add_entry_argument t arg k2))"
      using shape_evolves [OF that(1) loading_shape [OF add_entry_argument_loading [where p = 0]]] that(2) loading_shape [OF add_entry_argument_loading]
      by (auto simp: add_entry_argument_def upd_thread_def upd_mem_def Let_def split: option.split)
    show ?thesis
      by (rule ensures_weaken [OF on_sched_evolves [OF evolves_typed [OF a(1)]] evolves_trans [OF a(1)]])
        (use a(2) in \<open>simp_all add: thread_start_def set_state_typed\<close>)
  qed
  have al: "ensures (\<lambda>k2. evolves k k2 \<and> t < length (kthreads k2)) (allocate_user_stack (plat_alg P) t va sz k1)"
    if "evolves k k1" "t < length (kthreads k1)" for t va sz k1
    unfolding ensures_def
  proof (intro allI impI)
    fix k2 assume "allocate_user_stack (plat_alg P) t va sz k1 = Inr k2"
    then have "shape k2 = shape k1" by (rule loading_shape [OF allocate_user_stack_loading [OF _ refl]])
    then show "evolves k k2 \<and> t < length (kthreads k2)" using that shape_evolves shape_lengths by metis
  qed
  have rest: "ensures (good k) (let (h, k) = register_object e (Thread_object t) k1 in
      andthen (allocate_user_stack (plat_alg P) t (thread_stack h) 0x2000 k) (\<lambda>k.
        andthen (on_sched (thread_start t) (add_entry_argument t arg k)) (\<lambda>k. Inr (Return h, k))))"
    if "evolves k k1" "t < length (kthreads k1)" for t k1
  proof -
    have "evolves k (snd (register_object e (Thread_object t) k1))"
      using that k(2) by (intro register_good) (auto simp: evolves_def)
    moreover have "t < length (kthreads (snd (register_object e (Thread_object t) k1)))" using that(2) by (simp add: register_object_def Let_def)
    ultimately show ?thesis unfolding Let_def case_prod_unfold ensures_simps
      by (intro ensures_weaken [OF al]) (auto intro: ensures_weaken [OF st])
  qed
  have "ensures (\<lambda>(t, k1). evolves k k1 \<and> t < length (kthreads k1)) (create_thread (plat_alg P) (proc_of e k) User_Thread entry nm pr k)" for nm pr
    by (rule ensures_weaken [OF create_thread_typed]) (use k in \<open>auto simp: system_typed_kernel current_process intro: grows_evolves\<close>)
  then show ?thesis unfolding sys_create_thread_def ensures_simps(3) by (rule ensures_weaken) (use rest in auto)
qed

lemma in_space_evolves: "evolves k k1 \<Longrightarrow> evolves k (snd (in_space p f k1))"
  by (rule shape_evolves) simp_all

lemma sys_allocate_memory_good: "evolves k k1 \<Longrightarrow> ensures (good k) (sys_allocate_memory P e n k1)"
  unfolding sys_allocate_memory_def Let_def case_prod_unfold by (auto simp: in_space_evolves split: sum.split)

lemma cxa_allocate_exception_good:
  assumes "evolves k k1"
  shows "ensures (\<lambda>x. evolves k (snd x) \<and> sysret_ok (fst x) (snd x)) (cxa_allocate_exception P e n k1)"
proof -
  have "evolves k (snd (case exception_info (kprocs k1 ! proc_of e k1) of
      Some i \<Rightarrow> in_space (proc_of e k1) (plat_malloc P (malloc_ptr i) (n + 64)) k1 | None \<Rightarrow> (0, k1)))"
    using assms by (simp add: in_space_evolves split: option.split)
  then show ?thesis unfolding cxa_allocate_exception_def Let_def case_prod_unfold
    by (auto intro!: ensures_weaken [OF sys_allocate_memory_good] split: sysret.split)
qed

lemma redirect_thread_good: "evolves k k1 \<Longrightarrow> ensures (good k) (redirect_thread p i u t k1)"
  unfolding redirect_thread_def Let_def
  by (intro user_write_good) (auto intro!: upd_evolves)

lemma throw_into_thread_good: "system_typed k \<Longrightarrow> ensures (good k) (throw_into_thread P e i t k)"
proof -
  assume "system_typed k"
  then have c: "ensures (good k) (cxa_allocate_exception P e 1 k)" by (intro cxa_allocate_exception_good) simp
  have "ensures (good k) (case r of Return thrown \<Rightarrow> let p = proc_of e k1; header = thrown - 64
         in after_write (user_writes p [(header + 8, le_bytes 8 0), (header + 16, le_bytes 8 0)] k1) (\<lambda>k.
            let (name, k) = in_space p (plat_malloc P (malloc_ptr i) 26) k
            in after_write (user_writes p [(name, terminate_type_name), (header, le_bytes 8 (unat name))] k)
                 (redirect_thread p i (header + 32) t)) | _ \<Rightarrow> Inr (r, k1))"
    if "good k (r, k1)" for r k1
    using that unfolding Let_def case_prod_unfold
    by (auto simp del: user_writes.simps split: sysret.split intro!: user_write_good in_space_evolves redirect_thread_good)
  then show ?thesis unfolding throw_into_thread_def ensures_simps(3) by (intro ensures_weaken [OF c]) auto
qed

lemma thread_stop_good: "system_typed k \<Longrightarrow> t < length (kthreads k) \<Longrightarrow> ensures (good k) (thread_stop P e b t k)"
  unfolding thread_stop_def
  by (auto simp: throw_into_thread_good set_state_typed thread_stop_simple_typed split: option.split
      intro!: ends_good ensures_weaken [OF on_sched_evolves])

lemma thread_or_me_ok: "system_typed k \<Longrightarrow> e < length (kthreads k) \<Longrightarrow> ensures (\<lambda>t. \<forall>u. t = Some u \<longrightarrow> u < length (kthreads k)) (thread_or_me e h k)"
  by (auto simp: thread_or_me_def split: option.split kernel_object.split dest: handle_ok)

lemma sys_stop_thread_good: "system_typed k \<Longrightarrow> e < length (kthreads k) \<Longrightarrow> ensures (good k) (sys_stop_thread P e h k)"
  unfolding sys_stop_thread_def ensures_simps
  by (rule ensures_weaken [OF thread_or_me_ok]) (auto split: option.split intro!: ensures_weaken [OF thread_stop_good])

lemma sys_set_thread_name_good: "system_typed k \<Longrightarrow> e < length (kthreads k) \<Longrightarrow> ensures (good k) (sys_set_thread_name e h name k)"
  unfolding sys_set_thread_name_def ensures_simps
  by (rule ensures_weaken [OF thread_or_me_ok]) (auto split: option.split intro!: with_string_good upd_evolves)

lemma futex_good:
  assumes k: "system_typed k" "e < length (kthreads k)"
  shows "ensures (good k) (sys_futex_wait e va expected k)" "ensures (good k) (sys_futex_wake_up e va n k)"
proof -
  have l: "ensures (evolves k) (lock_futexes p k)" for p by (rule ensures_evolves [OF k(1) lock_futexes_typed [OF system_typed_kernel [OF k(1)]]])
  have u: "evolves k (unlock_futexes p k1)" if "evolves k k1" for p k1 using that by (rule shape_evolves) simp
  have c: "ensures (\<lambda>(r, k1). evolves k k1 \<and> (case r of Inl r \<Rightarrow> sysret_ok r k1 | _ \<Rightarrow> True)) (futex_check e va expected k)"
    unfolding futex_check_def Let_def ensures_simps by (rule ensures_weaken [OF l]) (auto simp: u split: sum.split)
  have s: "ensures (good k) (futex_sleep e va k1)" if "evolves k k1" for k1
  proof -
    have "e < length (kthreads k1)" using that k(2) by (simp add: evolves_def)
    then have "ensures (evolves k1) (set_thread_waiting p e va k1)" for p
      using evolves_typed [OF that] by (intro ensures_evolves set_thread_waiting_typed) (simp_all add: system_typed_kernel)
    then show ?thesis unfolding futex_sleep_def ensures_simps by (rule ensures_weaken) (use that in \<open>auto intro!: ends_good intro: evolves_trans\<close>)
  qed
  show "ensures (good k) (sys_futex_wait e va expected k)" unfolding sys_futex_wait_def ensures_simps(3)
    by (rule ensures_weaken [OF c]) (auto simp: s split: sum.split bool.split)
  have w: "ensures (evolves k) (wake_up_threads p va n k1)" if "evolves k k1" for p k1
  proof -
    have "ensures (evolves k1) (wake_up_threads p va n k1)"
      using evolves_typed [OF that] by (intro ensures_evolves wake_up_threads_typed system_typed_kernel)
    then show ?thesis by (rule ensures_weaken) (rule evolves_trans [OF that])
  qed
  have "ensures (\<lambda>k2. good k (Void, unlock_futexes p k2)) (wake_up_threads p va n k1)" if "evolves k k1" for p k1
    by (rule ensures_weaken [OF w [OF that]]) (simp add: u)
  then show "ensures (good k) (sys_futex_wake_up e va n k)" unfolding sys_futex_wake_up_def Let_def ensures_simps
    by (rule ensures_weaken [OF l])
qed

lemma file_calls_good:
  assumes "system_typed k"
  shows "ensures (good k) (sys_close e h k)" "ensures (good k) (sys_read P e h buffer n k)" "ensures (good k) (sys_write P e h buffer n k)"
    "ensures (good k) (sys_pread P e h buffer n off k)" "ensures (good k) (sys_pwrite P e h buffer n off k)"
  unfolding sys_close_def sys_read_def sys_write_def sys_pread_def sys_pwrite_def
  by (intro on_file_good, simp_all add: assms file_read_good file_write_good file_pread_good file_pwrite_good)+

lemma time_calls_good:
  assumes "system_typed k"
  shows "ensures (good k) (sys_usleep us k)" "ensures (good k) (sys_get_tod e va k)" "ensures (good k) (sys_get_ticks k)"
  unfolding sys_usleep_def spin_delay_def sys_get_tod_def sys_get_ticks_def
  by (simp_all add: assms user_write_good)

lemma other_calls_good:
  assumes "system_typed k"
  shows "ensures (good k) (sys_release_memory e va k)" "ensures (good k) (sys_thread_id e k)"
    "ensures (good k) (sys_set_exception_info e va k)" "ensures (good k) (sys_run_exception_test P e run k)"
  unfolding sys_release_memory_def sys_thread_id_def sys_set_exception_info_def sys_run_exception_test_def Let_def case_prod_unfold
  by (simp_all add: assms in_space_evolves upd_evolves split: sum.split prod.split)

lemma call_good:
  assumes k: "system_typed k" "e < length (kthreads k)"
  shows "ensures (good k) (call P e fn a b c d k)"
  using k by (cases fn) (simp_all add: sys_exit_good sys_open_good file_calls_good sys_opendir_good sys_readdir_good sys_closedir_good
    sys_exec_good sys_wait_good sys_create_thread_good sys_stop_thread_good time_calls_good sys_set_thread_name_good
    sys_allocate_memory_good futex_good other_calls_good sys_thread_leave_def thread_stop_good)

subsection \<open>Runs of the system\<close>

lemma leaves_good: "good k x \<Longrightarrow> good k (leaves e x)"
  by (cases x; cases "fst x") (auto simp: leaves_def leave_syscall_def intro!: upd_evolves split: resume.split)

lemma store_result_good: "good k x \<Longrightarrow> good k (store_result P ctx x)"
  by (cases x; cases "fst x") (auto simp: store_result_def intro!: upd_evolves)

lemma enter_evolves: "system_typed k \<Longrightarrow> evolves k (enter_syscall e k)"
  by (simp add: enter_syscall_def upd_evolves)

lemma good_trans: "evolves k k1 \<Longrightarrow> good k1 x \<Longrightarrow> good k x"
  using evolves_trans by blast

lemma InvokeSyscall_good: "system_typed k \<Longrightarrow> ensures (good k) (InvokeSyscall P nr a b c d k)"
proof (cases "current_thread (ksched k)")
  case (Some e)
  assume k: "system_typed k"
  let ?k = "enter_syscall e k"
  have e: "e < length (kthreads ?k)" using kernel_typedD(5) [OF system_typed_kernel [OF k] Some] by (simp add: enter_syscall_def upd_thread_def)
  have "ensures (good k) (call P e fn a b c d ?k)" for fn
    by (rule ensures_weaken [OF call_good [OF evolves_typed [OF enter_evolves [OF k]] e] good_trans [OF enter_evolves [OF k]]])
  then have "ensures (\<lambda>x. good k (leaves e x)) (call P e fn a b c d ?k)" for fn
    by (rule ensures_weaken) (rule leaves_good)
  then show ?thesis using Some enter_evolves [OF k, of e] leaves_good [of k "(Return (- 1), ?k)" e]
    by (simp add: InvokeSyscall_def Let_def split: option.split)
qed (simp add: InvokeSyscall_def)

lemma user_syscall_handler_good: "system_typed k \<Longrightarrow> ensures (good k) (user_syscall_handler P k)"
  by (auto simp: user_syscall_handler_def Let_def split: option.split intro!: ensures_weaken [OF InvokeSyscall_good] store_result_good simp del: split_paired_All)

lemma continue_call_good: "system_typed k \<Longrightarrow> resume_ok r k \<Longrightarrow> ensures (good k) (continue_call e r k)"
  by (cases r) (auto simp: wait_good spin_delay_def read_terminal_good split: sysret.splits)

lemma resume_syscall_good: "system_typed k \<Longrightarrow> resume_ok r k \<Longrightarrow> ensures (good k) (resume_syscall P ctx r k)"
  by (auto simp: resume_syscall_def split: option.split intro!: ensures_weaken [OF continue_call_good] store_result_good leaves_good)

text \<open>A run: calls from user mode, calls that go on, and interrupts of the timer.\<close>

inductive sys_runs :: "'a platform \<Rightarrow> 'a system \<Rightarrow> 'a system \<Rightarrow> bool" for P k where
  sys_start: "sys_runs P k k"
| sys_call: "sys_runs P k k1 \<Longrightarrow> user_syscall_handler P k1 = Inr (r, k2) \<Longrightarrow> sys_runs P k k2"
| sys_resume: "sys_runs P k k1 \<Longrightarrow> resume_ok r k1 \<Longrightarrow> resume_syscall P ctx r k1 = Inr (r', k2) \<Longrightarrow> sys_runs P k k2"
| sys_timer: "sys_runs P k k1 \<Longrightarrow> on_sched lapic_timer_irq_handler k1 = Inr k2 \<Longrightarrow> sys_runs P k k2"

lemma sys_runs_evolve: "sys_runs P k k' \<Longrightarrow> system_typed k \<Longrightarrow> evolves k k'"
proof (induction rule: sys_runs.induct)
  case (sys_call k1 r k2)
  then show ?case using user_syscall_handler_good [of k1 P] evolves_typed evolves_trans by (fastforce simp: ensures_def)
next
  case (sys_resume k1 r ctx r' k2)
  then show ?case using resume_syscall_good [of k1 r P ctx] evolves_typed evolves_trans by (fastforce simp: ensures_def)
next
  case (sys_timer k1 k2)
  then show ?case using on_sched_evolves [of k1 lapic_timer_irq_handler] timer_typed evolves_typed evolves_trans by (fastforce simp: ensures_def)
qed simp

text \<open>The class of object a call takes as its first argument.\<close>

fun takes :: "syscallfn \<Rightarrow> kernel_object \<Rightarrow> bool" where
  "takes Sys_close obj \<longleftrightarrow> (\<exists>i. obj = File_object i)"
| "takes Sys_read obj \<longleftrightarrow> (\<exists>i. obj = File_object i)"
| "takes Sys_write obj \<longleftrightarrow> (\<exists>i. obj = File_object i)"
| "takes Sys_pread obj \<longleftrightarrow> (\<exists>i. obj = File_object i)"
| "takes Sys_pwrite obj \<longleftrightarrow> (\<exists>i. obj = File_object i)"
| "takes Sys_readdir obj \<longleftrightarrow> (\<exists>i. obj = Directory_object i)"
| "takes Sys_closedir obj \<longleftrightarrow> (\<exists>i. obj = Directory_object i)"
| "takes Sys_wait_proc obj \<longleftrightarrow> (\<exists>p. obj = Process_object p)"
| "takes Sys_join_thread obj \<longleftrightarrow> (\<exists>t. obj = Thread_object t)"
| "takes _ obj \<longleftrightarrow> True"

lemma wrong_class_used:
  assumes "get_object_secure e h k = Some obj" "\<not> takes fn obj"
  shows "call P e fn h b c d k = Inl Wrong_class"
  using assms by (cases fn; cases obj) (simp_all add: sys_close_def sys_read_def sys_write_def sys_pread_def sys_pwrite_def on_file_def
      sys_readdir_def sys_closedir_def sys_wait_proc_def sys_join_thread_def)

end
