(* ===== verification/Syscall_Run.thy ===== *)
theory Syscall_Run
  imports Syscall_Types
begin

text \<open>
  Properties of system calls: references stay valid, the dispatch through the table, and a wake-up that a waiting thread misses.
\<close>

subsection \<open>Properties\<close>

definition example_platform :: "unit platform" where
  "example_platform = \<lparr>plat_alg = Some simple_alg, plat_template = None, plat_junk = (\<lambda>n. replicate n 0), plat_role = (\<lambda>d. Clock_device),
     plat_image = (\<lambda>d. \<lparr>img_first = None, img_read = (\<lambda>n. None), img_pread = (\<lambda>n off. None)\<rparr>), plat_clock = epoch,
     plat_malloc = (\<lambda>f n s. (0, s)), plat_tests = id, plat_rax = 0\<rparr>"

definition example_console :: console_state where
  "example_console = \<lparr>buffers = [], vcs = [], ttys = [], pc_vcs = [], current_vc = None, alt_pressed = False, video_ram = 0,
     backup_buffer = None, old_vc = None, sink_attached = False, port_writes = [], con_sched = power_on epoch\<rparr>"

text \<open>Three threads of one process, the first of them with a handle of the second.\<close>

definition example_system :: "fs_file list \<Rightarrow> unit machine \<Rightarrow> vma \<Rightarrow> unit system" where
  "example_system files m v = \<lparr>ksched = (run_example epoch)\<lparr>current := Some 1, current_thread := Some 1\<rparr>, kmachine = m,
     kprocs = [example_process v [0, 1, 2]], kthreads = [example_thread 0, example_thread 0, example_thread 0], next_handle = 2,
     kobjects = kadd 1 \<lparr>od_owner = 0, od_object = Thread_object 1\<rparr> kempty, open_files = files, open_dirs = [], sys_vfs = empty_vfs example_dm,
     sys_console = example_console, syscall_table = RegisterDefaultSyscalls SyscallManager_new\<rparr>"

lemma example_system_typed: "system_typed (example_system files m v)"
  by (auto simp: system_typed_def kernel_typed_def sched_typed_def example_system_def example_process_def example_thread_def
      run_example_def boot_example_def free_queue_def touched_queue_def split: if_splits)



lemma default_table: "RegisterDefaultSyscalls SyscallManager_new = map (\<lambda>(nr, fn). Some fn) default_syscalls @ replicate 227 None"
  by code_simp

lemma default_table_nth:
  assumes "n < 256"
  shows "RegisterDefaultSyscalls SyscallManager_new ! n = (if n < 29 then Some (snd (default_syscalls ! n)) else None)"
proof -
  have "length default_syscalls = 29" by (simp add: default_syscalls_def)
  then show ?thesis using assms unfolding default_table by (auto simp: nth_append case_prod_unfold)
qed



subsection \<open>A wake-up that is missed\<close>

text \<open>The processor goes to another thread.\<close>

definition switch_to :: "nat \<Rightarrow> ('a, 'b) kernel_scheme \<Rightarrow> ('a, 'b) kernel_scheme" where
  "switch_to e k = k\<lparr>ksched := (ksched k)\<lparr>current := Some e, current_thread := Some e\<rparr>\<rparr>"

lemma user_read_cong:
  assumes "kmachine k' = kmachine k" "proc_vma (kprocs k' ! p) = proc_vma (kprocs k ! p)"
  shows "user_read p va n k' = user_read p va n k"
proof -
  have "translate p va k' = translate p va k" for va using assms by (simp add: translate_def)
  then show ?thesis by (induction n arbitrary: va) (simp_all add: assms(1) split: option.split)
qed

text \<open>
  C40. A wake-up can be missed: \<^verbatim>\<open>sys_futex_wait\<close> compares the value under the lock but goes to sleep after it gave the lock back. When
  another thread changes the value and wakes the waiters in between, nobody is waiting yet; the first thread then sleeps
  although the value is no longer the one it was to wait on.
\<close>

theorem futex_wait_misses_wakeup:
  assumes p: "proc_of e k = p" "proc_of e2 k = p" "p < length (kprocs k)" "\<not> mtx_locked (futex_mutex (kprocs k ! p))"
    and map: "\<forall>q. kget (wake_queue_map (kprocs k ! p)) va = Some q \<longrightarrow> q = Futex p va"
    and e: "sched_inv (ksched k)" "current_thread (ksched k) = Some e" "e \<noteq> idle_entity (ksched k)" "not_joining e (ksched k)"
    and q: "waiters (queues (ksched k) (Futex p va)) = []" "active (ksched k)" "e2 < length (entities (ksched k))"
    and v: "user_read p va 8 k = Inr xs" "le_value xs = unat expected"
  shows "\<exists>k1 k2 k3. futex_check e va expected k = Inr (Inr True, k1)
    \<and> sys_futex_wake_up e2 va n (upd_mem change (switch_to e2 k1)) = Inr (Void, k2)
    \<and> futex_sleep e va (switch_to e k2) = Inr (Suspended (Finish Void), k3) \<and> state_of (ksched k3) e = SLEEPING"
proof -
  let ?q = "Futex p va"
  obtain k1 where k1: "futex_check e va expected k = Inr (Inr True, k1)"
    and u: "k1 = upd_proc p (\<lambda>r. r\<lparr>futex_mutex := \<lparr>mtx_locked = False, mtx_owner = Some e\<rparr>\<rparr>) k"
    using p v e(2) user_read_cong [of "upd_proc p (\<lambda>r. r\<lparr>futex_mutex := \<lparr>mtx_locked = True, mtx_owner = Some e\<rparr>\<rparr>) k" k p va 8]
    by (simp add: futex_check_def lock_futexes_def mutex_lock_def unlock_futexes_def mutex_unlock_def upd_proc_def Let_def)
  define s where "s = (ksched k)\<lparr>current := Some e2, current_thread := Some e2\<rparr>"
  define s2 where "s2 = (if kget (wake_queue_map (kprocs k ! p)) va = None then s
    else upd_queue ?q (\<lambda>w. w\<lparr>wq_lock := \<lparr>mtx_locked = False, mtx_owner = Some e2\<rparr>\<rparr>) s)"
  have "sched_inv s" using e(1) q(3) by (intro sched_inv_frame [OF e(1)]) (auto simp: s_def)
  then have m: "wq_wakeMax m ?q s = Inr (upd_queue ?q (\<lambda>w. w\<lparr>wq_lock := \<lparr>mtx_locked = False, mtx_owner = Some e2\<rparr>\<rparr>) s)" for m
    using q(1) wake_max_none [of s ?q m] by (auto simp: s_def sched_inv_def)
  have s2: "sched_inv s2" using \<open>sched_inv s\<close> wq_wakeMax_ok [OF \<open>sched_inv s\<close>, of ?q 0] m by (auto simp: s2_def)
  define k2 where "k2 = (upd_mem change (upd_proc p (\<lambda>r. r\<lparr>futex_mutex := \<lparr>mtx_locked = False, mtx_owner = Some e2\<rparr>\<rparr>) k))\<lparr>ksched := s2\<rparr>"
  have w: "sys_futex_wake_up e2 va n (upd_mem change (switch_to e2 k1)) = Inr (Void, k2)"
  proof (cases "kget (wake_queue_map (kprocs k ! p)) va")
    case None
    then show ?thesis using p by (simp add: k2_def s2_def s_def u switch_to_def upd_mem_def sys_futex_wake_up_def lock_futexes_def mutex_lock_def
        wake_up_threads_def unlock_futexes_def mutex_unlock_def upd_proc_def Let_def)
  next
    case (Some r)
    then have "r = ?q" using map by blast
    then show ?thesis using p Some m [unfolded s_def] by (simp add: k2_def s2_def s_def u switch_to_def upd_mem_def sys_futex_wake_up_def lock_futexes_def
        mutex_lock_def wake_up_threads_def on_sched_def unlock_futexes_def mutex_unlock_def upd_proc_def Let_def)
  qed
  let ?k = "switch_to e k2"
  have "e < length (entities s2)" using e(1,2) by (auto simp: s2_def s_def upd_queue_def sched_inv_def split: option.splits)
  then have inv: "sched_inv (ksched ?k)" by (intro sched_inv_frame [OF s2]) (auto simp: switch_to_def k2_def)
  moreover have "current_thread (ksched ?k) = Some e" "e \<noteq> idle_entity (ksched ?k)" "not_joining e (ksched ?k)" "active (ksched ?k)"
    "p < length (kprocs ?k)" "\<not> mtx_locked (futex_mutex (kprocs ?k ! p))" "wake_queue_map (kprocs ?k ! p) = wake_queue_map (kprocs k ! p)"
    "proc_of e ?k = p"
    using e p q by (auto simp: switch_to_def k2_def s2_def s_def upd_queue_def upd_proc_def upd_mem_def not_joining_def)
  ultimately obtain k3 where "set_thread_waiting p e va ?k = Inr k3" "state_of (ksched k3) e = SLEEPING" "current_thread (ksched k3) \<noteq> Some e"
    using set_thread_waiting_ok [of p ?k va e] map by (metis (no_types, lifting))
  then show ?thesis using k1 w \<open>proc_of e ?k = p\<close> by (auto simp: futex_sleep_def ends_def)
qed

theorem futex_wait_misses_wakeup_witness:
  "\<exists>k1 k2 k3. futex_check 1 0xffff800000000000 0 (example_system [] (small_machine 0) no_space) = Inr (Inr True, k1)
    \<and> sys_futex_wake_up 2 0xffff800000000000 1 (upd_mem (\<lambda>m. m(0xffff800000000000 := 1)) (switch_to 2 k1)) = Inr (Void, k2)
    \<and> futex_sleep 1 0xffff800000000000 (switch_to 1 k2) = Inr (Suspended (Finish Void), k3) \<and> state_of (ksched k3) 1 = SLEEPING"
proof -
  let ?s = "(run_example epoch)\<lparr>current := Some 1, current_thread := Some 1\<rparr>" and ?va = "0xffff800000000000 :: u64"
  let ?k = "example_system [] (small_machine 0) no_space"
  have "sched_inv ?s"
    by (rule sched_inv_frame [OF run_reaches_inv [OF reachable_example booted_inv [OF booted_example]]])
      (auto simp: run_example_def boot_example_def)
  moreover have "not_joining 1 ?s" "waiters (queues ?s (Futex 0 ?va)) = []" "idle_entity ?s = 0" "active ?s" "length (entities ?s) = 3"
    by (auto simp: run_example_def boot_example_def not_joining_def touched_queue_def free_queue_def)
  moreover have "user_read 0 ?va 8 ?k = Inr (replicate 8 0)" "le_value (replicate 8 0) = unat (0 :: u64)"
    by code_simp+
  ultimately show ?thesis
    using futex_wait_misses_wakeup [where k = ?k and e = 1 and ?e2.0 = 2 and p = 0 and va = ?va and expected = 0 and xs = "replicate 8 0"
        and n = 1 and change = "\<lambda>m. m(?va := 1)"]
    by (simp add: example_system_def example_process_def example_thread_def)
qed

end
