(* ===== verification/Printf.thy ===== *)
theory Printf
  imports Util_String
begin

text \<open>
  Formatted printing, from \<^verbatim>\<open>util/printf.cpp\<close>. The buffer is a list of bytes; the pointer
  \<^verbatim>\<open>buffer\<close> of the source is the position \<^verbatim>\<open>count\<close> in it, which the source advances together with it.
  A write beyond the end of the list is the fault \<open>Buffer_overrun\<close>; an argument that is missing or
  of the wrong kind is \<open>Bad_argument\<close>, and a field width beyond the range of \<^verbatim>\<open>int\<close> is
  \<open>Width_overflow\<close> (both undefined in C++).
\<close>

datatype print_fault = Buffer_overrun | Bad_argument | Width_overflow

type_synonym 'a printed = "print_fault + 'a"

definition store :: "nat \<Rightarrow> u8 \<Rightarrow> chars \<Rightarrow> chars printed" where
  "store i c b = (if i < length b then Inr (b[i := c]) else Inl Buffer_overrun)"

text \<open>Move the \<open>n\<close> bytes at \<open>off\<close> one place to the right, the last one first.\<close>

fun shift_loop :: "nat \<Rightarrow> nat \<Rightarrow> chars \<Rightarrow> chars printed" where
  "shift_loop off 0 b = Inr b"
| "shift_loop off (Suc i) b =
     (case store (off + Suc i) (b ! (off + i)) b of Inl e \<Rightarrow> Inl e | Inr b \<Rightarrow> shift_loop off i b)"

definition prepend_to_buffer :: "u8 \<Rightarrow> nat \<Rightarrow> nat \<Rightarrow> chars \<Rightarrow> chars printed" where
  "prepend_to_buffer c off n b = (case shift_loop off n b of Inl e \<Rightarrow> Inl e | Inr b \<Rightarrow> store off c b)"

function num_loop :: "nat \<Rightarrow> int \<Rightarrow> u64 \<Rightarrow> u64 \<Rightarrow> nat \<Rightarrow> chars \<Rightarrow> (nat \<times> chars) printed" where
  "num_loop off sz base value n b =
     (if 0 < value \<and> int n < sz then
        let digit_value = unat (value mod base)
        in case (if digit_value \<le> 9 then prepend_to_buffer (48 + of_nat digit_value) off n b
                 else prepend_to_buffer (97 + of_nat digit_value - 10) off n b) of
             Inl e \<Rightarrow> Inl e
           | Inr b \<Rightarrow> num_loop off sz base (value div base) (Suc n) b
      else Inr (n, b))"
  by pat_completeness auto
termination by (relation "measure (\<lambda>(off, sz, base, value, n, b). nat (sz - int n))") auto

fun pad_loop :: "nat \<Rightarrow> int \<Rightarrow> u8 \<Rightarrow> nat \<Rightarrow> nat \<Rightarrow> chars \<Rightarrow> (nat \<times> chars) printed" where
  "pad_loop off sz pad_char 0 n b = Inr (n, b)"
| "pad_loop off sz pad_char (Suc pad) n b =
     (if int n < sz then
        case prepend_to_buffer pad_char off n b of
          Inl e \<Rightarrow> Inl e
        | Inr b \<Rightarrow> pad_loop off sz pad_char pad (Suc n) b
      else Inr (n, b))"

definition append_num :: "nat \<Rightarrow> int \<Rightarrow> u64 \<Rightarrow> u64 \<Rightarrow> bool \<Rightarrow> int \<Rightarrow> u8 \<Rightarrow> chars \<Rightarrow> (nat \<times> chars) printed" where
  "append_num off sz value base sg pad pad_char b =
     (let pad = (if sz \<le> pad then sz - 1 else pad);
          neg = sg \<and> sint value < 0
      in case (if neg then map_sum id (Pair 1) (prepend_to_buffer 45 off 0 b) else Inr (0, b)) of
           Inl e \<Rightarrow> Inl e
         | Inr (n, b) \<Rightarrow>
             (let value = (if neg then - value else value)
              in case (if 0 < value then num_loop off sz base value n b
                       else if int n < sz then
                         case prepend_to_buffer 48 off n b of
                           Inl e \<Rightarrow> Inl e
                         | Inr b \<Rightarrow> map_sum id (Pair (Suc n)) (store off 48 b)
                       else Inr (n, b)) of
                   Inl e \<Rightarrow> Inl e
                 | Inr (n, b) \<Rightarrow> pad_loop off sz pad_char (nat (pad - int n)) n b))"

fun str_loop :: "nat \<Rightarrow> int \<Rightarrow> chars \<Rightarrow> nat \<Rightarrow> chars \<Rightarrow> (nat \<times> chars) printed" where
  "str_loop off sz text n b =
     (case text of
        [] \<Rightarrow> Inl Bad_argument
      | c # text \<Rightarrow>
          if c \<noteq> 0 \<and> int n < sz then
            case store (off + n) c b of
              Inl e \<Rightarrow> Inl e
            | Inr b \<Rightarrow> str_loop off sz text (Suc n) b
          else Inr (n, b))"

function str_pad_loop :: "nat \<Rightarrow> int \<Rightarrow> int \<Rightarrow> u8 \<Rightarrow> nat \<Rightarrow> chars \<Rightarrow> (nat \<times> chars) printed" where
  "str_pad_loop off sz pad pad_char n b =
     (if int n < sz \<and> int n < pad then
        case store (off + n) pad_char b of
          Inl e \<Rightarrow> Inl e
        | Inr b \<Rightarrow> str_pad_loop off sz pad pad_char (Suc n) b
      else Inr (n, b))"
  by pat_completeness auto
termination by (relation "measure (\<lambda>(off, sz, pad, pad_char, n, b). nat (sz - int n))") auto

definition append_str :: "nat \<Rightarrow> int \<Rightarrow> chars \<Rightarrow> int \<Rightarrow> u8 \<Rightarrow> chars \<Rightarrow> (nat \<times> chars) printed" where
  "append_str off sz text pad pad_char b =
     (case str_loop off sz text 0 b of
        Inl e \<Rightarrow> Inl e
      | Inr (n, b) \<Rightarrow> str_pad_loop off sz pad pad_char n b)"

subsection \<open>The format loop\<close>

text \<open>
  An argument is a number in a 64-bit slot or a pointer to characters. \<^verbatim>\<open>va_arg\<close> of a 32-bit type
  reads the low half of the slot.
\<close>

datatype arg = Num u64 | Text chars

record format_state =
  fs_pad_size :: int
  fs_pad_char :: u8
  fs_number_size :: nat

definition num_arg :: "arg list \<Rightarrow> (u64 \<times> arg list) printed" where
  "num_arg args = (case args of Num v # args \<Rightarrow> Inr (v, args) | _ \<Rightarrow> Inl Bad_argument)"

definition text_arg :: "arg list \<Rightarrow> (chars \<times> arg list) printed" where
  "text_arg args = (case args of Text t # args \<Rightarrow> Inr (t, args) | _ \<Rightarrow> Inl Bad_argument)"

text \<open>The value printed by \<^verbatim>\<open>%d\<close> and \<^verbatim>\<open>%u\<close>: 32-bit arguments are extended, with the sign for \<^verbatim>\<open>%d\<close>.\<close>

definition decimal_value :: "nat \<Rightarrow> bool \<Rightarrow> u64 \<Rightarrow> u64" where
  "decimal_value number_size sg v =
     (if number_size = 8 then v
      else if sg then scast (ucast v :: u32) else ucast (ucast v :: u32))"

text \<open>
  A conversion: the character after the flags, the state the flags left and the position; the
  result is the number of characters and the rest of the arguments.
\<close>

definition convert_arg :: "u8 \<Rightarrow> format_state \<Rightarrow> nat \<Rightarrow> nat \<Rightarrow> arg list \<Rightarrow> chars \<Rightarrow> (nat \<times> arg list \<times> chars) printed" where
  "convert_arg c fs sz count args b =
     (let room = int sz - 1 - int count
      in if c = 100 \<or> c = 117 then
           case num_arg args of
             Inl e \<Rightarrow> Inl e
           | Inr (v, args) \<Rightarrow>
               map_sum id (\<lambda>(n, b). (count + n, args, b))
                 (append_num count room (decimal_value (fs_number_size fs) (c = 100) v) 10 (c = 100)
                    (fs_pad_size fs) (fs_pad_char fs) b)
         else if c = 98 \<or> c = 120 \<or> c = 112 then
           case num_arg args of
             Inl e \<Rightarrow> Inl e
           | Inr (v, args) \<Rightarrow>
               (let v = (if fs_number_size fs = 8 \<or> c = 112 then v else ucast (ucast v :: u32))
                in case (if c = 112 then append_str count room [48, 120, 0] 0 32 b else Inr (0, b)) of
                     Inl e \<Rightarrow> Inl e
                   | Inr (n, b) \<Rightarrow>
                       map_sum id (\<lambda>(m, b). (count + n + m, args, b))
                         (append_num (count + n) (int sz - 1 - int (count + n)) v (if c = 98 then 2 else 16) False
                            (fs_pad_size fs) (fs_pad_char fs) b))
         else if c = 115 then
           case text_arg args of
             Inl e \<Rightarrow> Inl e
           | Inr (t, args) \<Rightarrow>
               map_sum id (\<lambda>(n, b). (count + n, args, b))
                 (append_str count room t (fs_pad_size fs) (fs_pad_char fs) b)
         else if c = 99 then
           case num_arg args of
             Inl e \<Rightarrow> Inl e
           | Inr (v, args) \<Rightarrow> map_sum id (\<lambda>b. (Suc count, args, b)) (store count (ucast v) b)
         else map_sum id (\<lambda>b. (Suc count, args, b)) (store count c b))"

text \<open>
  \<^verbatim>\<open>format_loop\<close> is the main loop and \<^verbatim>\<open>format_flags\<close> the code behind the label \<^verbatim>\<open>retry_format\<close>.
  The format is the memory from its pointer on.
\<close>

function format_loop :: "nat \<Rightarrow> nat \<Rightarrow> chars \<Rightarrow> arg list \<Rightarrow> chars \<Rightarrow> (nat \<times> chars) printed"
  and format_flags :: "nat \<Rightarrow> nat \<Rightarrow> chars \<Rightarrow> format_state \<Rightarrow> arg list \<Rightarrow> chars \<Rightarrow> (nat \<times> chars) printed" where
  "format_loop sz count [] args b = Inl Bad_argument"
| "format_loop sz count (c # fmt) args b =
     (if c \<noteq> 0 \<and> int count < int sz - 1 then
        if c = 37 then format_flags sz count fmt \<lparr>fs_pad_size = 0, fs_pad_char = 32, fs_number_size = 4\<rparr> args b
        else case store count c b of
               Inl e \<Rightarrow> Inl e
             | Inr b \<Rightarrow> format_loop sz (Suc count) fmt args b
      else Inr (count, b))"
| "format_flags sz count [] fs args b = Inl Bad_argument"
| "format_flags sz count (c # fmt) fs args b =
     (if c = 0 then format_loop sz count (c # fmt) args b
      else if c = 48 then
        if 0 < fs_pad_size fs then
          if 2 ^ 31 \<le> fs_pad_size fs * 10 then Inl Width_overflow
          else format_flags sz count fmt (fs\<lparr>fs_pad_size := fs_pad_size fs * 10\<rparr>) args b
        else format_flags sz count fmt (fs\<lparr>fs_pad_char := 48\<rparr>) args b
      else if 49 \<le> c \<and> c \<le> 57 then
        if 2 ^ 31 \<le> fs_pad_size fs * 10 + (int (unat c) - 48) then Inl Width_overflow
        else format_flags sz count fmt (fs\<lparr>fs_pad_size := fs_pad_size fs * 10 + (int (unat c) - 48)\<rparr>) args b
      else if c = 108 then format_flags sz count fmt (fs\<lparr>fs_number_size := 8\<rparr>) args b
      else case convert_arg c fs sz count args b of
             Inl e \<Rightarrow> Inl e
           | Inr (count, args, b) \<Rightarrow> format_loop sz count fmt args b)"
  by pat_completeness auto
termination
  by (relation "measure (\<lambda>x. case x of Inl (sz, count, fmt, args, b) \<Rightarrow> 2 * length fmt
        | Inr (sz, count, fmt, fs, args, b) \<Rightarrow> 2 * length fmt + 1)") auto

definition vsnprintf :: "chars \<Rightarrow> nat \<Rightarrow> chars \<Rightarrow> arg list \<Rightarrow> (nat \<times> chars) printed" where
  "vsnprintf buffer sz fmt args =
     (if sz = 0 then Inr (0, buffer)
      else case format_loop sz 0 fmt args buffer of
             Inl e \<Rightarrow> Inl e
           | Inr (count, b) \<Rightarrow> map_sum id (Pair count) (store count 0 b))"

definition snprintf :: "chars \<Rightarrow> nat \<Rightarrow> chars \<Rightarrow> arg list \<Rightarrow> (nat \<times> chars) printed" where
  "snprintf = vsnprintf"

definition sprintf :: "chars \<Rightarrow> chars \<Rightarrow> arg list \<Rightarrow> (nat \<times> chars) printed" where
  "sprintf buffer fmt args = vsnprintf buffer 0x1000 fmt args"

subsection \<open>Where the output goes\<close>

text \<open>\<open>only off k b b'\<close>: the buffers differ at most in the \<open>k\<close> bytes from \<open>off\<close> on.\<close>

definition only :: "nat \<Rightarrow> nat \<Rightarrow> chars \<Rightarrow> chars \<Rightarrow> bool" where
  "only off k b b' \<longleftrightarrow> length b' = length b \<and> (\<forall>i < length b. i < off \<or> off + k \<le> i \<longrightarrow> b' ! i = b ! i)"

lemma only_refl [simp]: "only off k b b"
  by (simp add: only_def)

lemma only_trans: "only off k b b' \<Longrightarrow> only off k b' b'' \<Longrightarrow> only off k b b''"
  by (simp add: only_def)

lemma only_mono: "only off k b b' \<Longrightarrow> off' \<le> off \<Longrightarrow> off + k \<le> off' + k' \<Longrightarrow> only off' k' b b'"
  by (auto simp: only_def)

lemma only_length: "only off k b b' \<Longrightarrow> length b' = length b"
  by (simp add: only_def)

lemma store_only: "i < length b \<Longrightarrow> store i c b = Inr (b[i := c]) \<and> only i 1 b (b[i := c])"
  by (auto simp: store_def only_def)

lemma shift_loop_acc:
  "length pre = off \<Longrightarrow> shift_loop off (length acc) (pre @ acc @ x # post) = Inr (pre @ hd (acc @ [x]) # acc @ post)"
proof (induction acc arbitrary: x post rule: rev_induct)
  case (snoc y acc)
  have "store (off + Suc (length acc)) y (pre @ acc @ y # x # post) = Inr (pre @ acc @ y # y # post)"
    using snoc.prems by (simp add: store_def list_update_append)
  moreover have "(pre @ acc @ y # x # post) ! (off + length acc) = y"
    using snoc.prems by (simp add: nth_append)
  ultimately show ?case using snoc by (cases acc) simp_all
qed simp

lemma prepend_acc:
  "length pre = off \<Longrightarrow> length acc = n \<Longrightarrow> prepend_to_buffer c off n (pre @ acc @ x # post) = Inr (pre @ c # acc @ post)"
  using shift_loop_acc [of pre off acc x post] by (auto simp: prepend_to_buffer_def store_def)

lemma split_buffer: "off + n < length b \<Longrightarrow> \<exists>pre acc x post. b = pre @ acc @ x # post \<and> length pre = off \<and> length acc = n"
  by (rule exI [of _ "take off b"], rule exI [of _ "take n (drop off b)"], rule exI [of _ "b ! (off + n)"],
      rule exI [of _ "drop (Suc (off + n)) b"])
    (simp add: id_take_nth_drop [symmetric] Cons_nth_drop_Suc add.commute flip: drop_drop)

lemma prepend_only:
  assumes "off + n < length b"
  obtains b' where "prepend_to_buffer c off n b = Inr b'" "only off (Suc n) b b'"
proof -
  obtain pre acc x post where b: "b = pre @ acc @ x # post" "length pre = off" "length acc = n"
    using split_buffer [OF assms] by blast
  have "only off (Suc n) b (pre @ c # acc @ post)"
    using b by (auto simp: only_def nth_append nth_Cons')
  then show thesis using that prepend_acc [OF b(2,3), of c x post] b(1) by simp
qed

text \<open>
  \<open>fits off sz n r\<close>: the loop succeeded, it wrote only into the \<open>sz\<close> bytes from \<open>off\<close> on, and the
  number of characters is between \<open>n\<close> and \<open>sz\<close>.
\<close>

definition fits :: "nat \<Rightarrow> int \<Rightarrow> nat \<Rightarrow> chars \<Rightarrow> (nat \<times> chars) printed \<Rightarrow> bool" where
  "fits off sz n b r \<longleftrightarrow> (\<exists>n' b'. r = Inr (n', b') \<and> n \<le> n' \<and> int n' \<le> max (int n) sz \<and> only off (nat sz) b b')"

declare num_loop.simps [simp del] pad_loop.simps(2) [simp del] str_loop.simps [simp del] str_pad_loop.simps [simp del]

lemma fits_stop: "fits off sz n b (Inr (n, b))"
  by (auto simp: fits_def)

lemma fits_step:
  assumes "fits off sz (Suc n) b' r" "only off (nat sz) b b'" "int n < sz"
  shows "fits off sz n b r"
proof -
  obtain n' b'' where "r = Inr (n', b'')" "Suc n \<le> n'" "int n' \<le> max (int (Suc n)) sz" "only off (nat sz) b' b''"
    using assms(1) by (auto simp: fits_def)
  then show ?thesis using only_trans [OF assms(2)] assms(3) by (auto simp: fits_def)
qed

lemma prepend_fits:
  assumes "int n < sz" "off + nat sz \<le> length b"
  obtains b' where "prepend_to_buffer c off n b = Inr b'" "only off (nat sz) b b'"
proof -
  have "off + n < length b" using assms by linarith
  then obtain b' where b': "prepend_to_buffer c off n b = Inr b'" "only off (Suc n) b b'" by (rule prepend_only)
  moreover have "only off (nat sz) b b'" by (rule only_mono [OF b'(2)]) (use assms(1) in linarith)+
  ultimately show thesis using that by blast
qed

lemma num_loop_fits: "off + nat sz \<le> length b \<Longrightarrow> fits off sz n b (num_loop off sz base v n b)"
proof (induction off sz base v n b rule: num_loop.induct)
  case (1 off sz base v n b)
  show ?case
  proof (cases "0 < v \<and> int n < sz")
    case True
    let ?d = "unat (v mod base)"
    let ?c = "if ?d \<le> 9 then 48 + of_nat ?d else 97 + of_nat ?d - 10 :: u8"
    obtain b' where b': "prepend_to_buffer ?c off n b = Inr b'" "only off (nat sz) b b'"
      using prepend_fits [of n sz off b] True 1(2) by blast
    have "fits off sz (Suc n) b' (num_loop off sz base (v div base) (Suc n) b')"
      using b' 1(2) True only_length [OF b'(2)] by (intro 1(1) [OF True refl]) (auto split: if_splits)
    then have "fits off sz n b (num_loop off sz base (v div base) (Suc n) b')"
      using b'(2) True by (blast intro: fits_step)
    then show ?thesis using True b'(1) by (subst num_loop.simps) (auto simp: Let_def split: if_splits)
  next
    case False
    then show ?thesis by (subst num_loop.simps) (auto simp: fits_stop)
  qed
qed

lemma pad_loop_fits: "off + nat sz \<le> length b \<Longrightarrow> fits off sz n b (pad_loop off sz c pad n b)"
proof (induction pad arbitrary: n b)
  case (Suc pad)
  show ?case
  proof (cases "int n < sz")
    case True
    obtain b' where b': "prepend_to_buffer c off n b = Inr b'" "only off (nat sz) b b'"
      using prepend_fits [of n sz off b] True Suc.prems by blast
    have "fits off sz (Suc n) b' (pad_loop off sz c pad (Suc n) b')"
      using Suc only_length [OF b'(2)] by simp
    then show ?thesis using True b' fits_step by (simp add: pad_loop.simps(2))
  qed (simp add: fits_stop pad_loop.simps(2))
qed (simp add: fits_stop)

lemma store_fits:
  assumes "int n < sz" "off + nat sz \<le> length b"
  shows "store (off + n) c b = Inr (b[off + n := c])" "only off (nat sz) b (b[off + n := c])"
proof -
  have "off + n < length b" using assms by linarith
  then have s: "store (off + n) c b = Inr (b[off + n := c])" "only (off + n) 1 b (b[off + n := c])"
    using store_only by blast+
  show "store (off + n) c b = Inr (b[off + n := c])" by (rule s(1))
  show "only off (nat sz) b (b[off + n := c])" by (rule only_mono [OF s(2)]) (use assms(1) in linarith)+
qed

lemma str_loop_fits:
  "off + nat sz \<le> length b \<Longrightarrow> str_loop off sz t n b = Inl Bad_argument \<or> fits off sz n b (str_loop off sz t n b)"
proof (induction t arbitrary: n b)
  case (Cons c t)
  show ?case
  proof (cases "c \<noteq> 0 \<and> int n < sz")
    case True
    note st = store_fits [OF conjunct2 [OF True] Cons.prems, of c]
    have eq: "str_loop off sz (c # t) n b = str_loop off sz t (Suc n) (b[off + n := c])"
      using True st(1) by (simp add: str_loop.simps [of off sz "c # t"])
    have "off + nat sz \<le> length (b[off + n := c])" using Cons.prems by simp
    from Cons.IH [OF this, of "Suc n"] show ?thesis unfolding eq
      using fits_step [OF _ st(2)] True by blast
  qed (auto simp: str_loop.simps [of off sz "c # t"] fits_stop)
qed (simp add: str_loop.simps)

lemma str_pad_loop_fits: "off + nat sz \<le> length b \<Longrightarrow> fits off sz n b (str_pad_loop off sz pad c n b)"
proof (induction off sz pad c n b rule: str_pad_loop.induct)
  case (1 off sz pad c n b)
  show ?case
  proof (cases "int n < sz \<and> int n < pad")
    case True
    note st = store_fits [OF conjunct1 [OF True] 1(2), of c]
    have "fits off sz (Suc n) (b[off + n := c]) (str_pad_loop off sz pad c (Suc n) (b[off + n := c]))"
      using 1(2) by (intro 1(1) [OF True st(1)]) simp
    then show ?thesis using True st fits_step by (subst str_pad_loop.simps) simp
  next
    case False
    then show ?thesis by (subst str_pad_loop.simps) (auto simp: fits_stop)
  qed
qed

lemma fits_trans: "fits off sz n b (Inr (n', b')) \<Longrightarrow> fits off sz n' b' r \<Longrightarrow> fits off sz n b r"
  by (auto simp: fits_def intro: only_trans)

lemma fitsE:
  assumes "fits off sz n b r"
  obtains n' b' where "r = Inr (n', b')" "n \<le> n'" "int n' \<le> max (int n) sz" "only off (nat sz) b b'" "length b' = length b"
  using assms only_length by (auto simp: fits_def)

lemma append_num_fits:
  assumes room: "off + nat sz \<le> length b" and sg: "sg \<longrightarrow> 0 < sz"
  shows "fits off sz 0 b (append_num off sz v base sg pad c b)"
proof -
  define neg where "neg \<longleftrightarrow> sg \<and> sint v < 0"
  define v' where "v' = (if neg then - v else v)"
  define r1 where "r1 = (if neg then map_sum id (Pair (1::nat)) (prepend_to_buffer 45 off 0 b) else Inr (0, b))"
  have "fits off sz 0 b r1"
  proof (cases neg)
    case True
    then have "int 0 < sz" using sg by (simp add: neg_def)
    then obtain b' where "prepend_to_buffer 45 off 0 b = Inr b'" "only off (nat sz) b b'" by (rule prepend_fits [OF _ room])
    then show ?thesis using True \<open>int 0 < sz\<close> by (simp add: r1_def fits_def)
  qed (simp add: r1_def fits_stop)
  then obtain n b1 where r1: "r1 = Inr (n, b1)" "fits off sz 0 b (Inr (n, b1))" "length b1 = length b" by (metis fitsE)
  define r2 where "r2 = (if 0 < v' then num_loop off sz base v' n b1 else if int n < sz then
      case prepend_to_buffer 48 off n b1 of Inl e \<Rightarrow> Inl e | Inr b \<Rightarrow> map_sum id (Pair (Suc n)) (store off 48 b) else Inr (n, b1))"
  have room1: "off + nat sz \<le> length b1" using room r1(3) by simp
  have "fits off sz n b1 r2"
  proof (cases "\<not> 0 < v' \<and> int n < sz")
    case True
    obtain b2 where b2: "prepend_to_buffer 48 off n b1 = Inr b2" "only off (nat sz) b1 b2"
      using prepend_fits [OF conjunct2 [OF True] room1] by blast
    have "off + nat sz \<le> length b2" "int 0 < sz" using room1 b2(2) True only_length by auto
    from store_fits [OF this(2,1), of 48] have st: "store off 48 b2 = Inr (b2[off := 48])" "only off (nat sz) b2 (b2[off := 48])" by simp_all
    then have "r2 = Inr (Suc n, b2[off := 48])" using True b2(1) by (simp add: r2_def)
    then show ?thesis using only_trans [OF b2(2) st(2)] True by (auto simp: fits_def)
  qed (use num_loop_fits [OF room1] in \<open>auto simp: r2_def fits_stop\<close>)
  then obtain m b3 where r2: "r2 = Inr (m, b3)" "fits off sz n b1 (Inr (m, b3))" "length b3 = length b1" by (metis fitsE)
  have "append_num off sz v base sg pad c b =
      pad_loop off sz c (nat ((if sz \<le> pad then sz - 1 else pad) - int m)) m b3"
    using r1(1) r2(1) unfolding r1_def r2_def v'_def neg_def by (simp add: append_num_def Let_def)
  moreover have "fits off sz m b3 (pad_loop off sz c (nat ((if sz \<le> pad then sz - 1 else pad) - int m)) m b3)"
    using room1 r2(3) by (intro pad_loop_fits) simp
  ultimately show ?thesis using r1(2) r2(2) by (metis fits_trans)
qed

lemma append_str_fits:
  assumes "off + nat sz \<le> length b"
  shows "append_str off sz t pad c b = Inl Bad_argument \<or> fits off sz 0 b (append_str off sz t pad c b)"
proof (cases "str_loop off sz t 0 b = Inl Bad_argument")
  case False
  then have "fits off sz 0 b (str_loop off sz t 0 b)" using str_loop_fits [OF assms] by blast
  then obtain n b' where s: "str_loop off sz t 0 b = Inr (n, b')" "fits off sz 0 b (Inr (n, b'))" "length b' = length b" by (metis fitsE)
  have "fits off sz n b' (str_pad_loop off sz pad c n b')" using assms s(3) by (intro str_pad_loop_fits) simp
  then have "fits off sz 0 b (str_pad_loop off sz pad c n b')" using s(2) fits_trans by blast
  then show ?thesis using s(1) by (simp add: append_str_def)
qed (simp add: append_str_def)

definition in_bounds :: "nat \<Rightarrow> nat \<Rightarrow> chars \<Rightarrow> print_fault + nat \<times> 'a \<times> chars \<Rightarrow> bool" where
  "in_bounds count sz b r \<longleftrightarrow> (case r of Inl e \<Rightarrow> e \<noteq> Buffer_overrun
     | Inr (c, x, b') \<Rightarrow> count \<le> c \<and> c < sz \<and> only 0 sz b b')"

lemma fits_bounds:
  assumes "fits count (int sz - 1 - int count) 0 b r" "count < sz"
  shows "\<exists>n b'. r = Inr (n, b') \<and> count + n < sz \<and> only 0 sz b b'"
proof -
  obtain n b' where r: "r = Inr (n, b')" "int n \<le> max (int 0) (int sz - 1 - int count)" "only count (nat (int sz - 1 - int count)) b b'"
    using assms(1) by (metis fitsE)
  have "only 0 sz b b'" by (rule only_mono [OF r(3)]) (use assms(2) in linarith)+
  moreover have "count + n < sz" using r(2) assms(2) by linarith
  ultimately show ?thesis using r(1) by blast
qed

lemma append_num_bounds:
  assumes "count < sz" "sz \<le> length b" "sg \<longrightarrow> Suc count < sz"
  shows "\<exists>n b'. append_num count (int sz - 1 - int count) v base sg pad c b = Inr (n, b') \<and> count + n < sz \<and> only 0 sz b b'"
  using assms by (intro fits_bounds append_num_fits) auto

lemma append_str_bounds:
  assumes "count < sz" "sz \<le> length b"
  shows "append_str count (int sz - 1 - int count) t pad c b = Inl Bad_argument
    \<or> (\<exists>n b'. append_str count (int sz - 1 - int count) t pad c b = Inr (n, b') \<and> count + n < sz \<and> only 0 sz b b')"
proof -
  have "count + nat (int sz - 1 - int count) \<le> length b" using assms by linarith
  from append_str_fits [OF this] show ?thesis using fits_bounds assms(1) by blast
qed

lemma store_bounds: "Suc count < sz \<Longrightarrow> sz \<le> length b \<Longrightarrow> \<exists>b'. store count c b = Inr b' \<and> only 0 sz b b'"
  by (auto simp: store_def only_def)

lemma convert_arg_bounds:
  assumes cnt: "Suc count < sz" and len: "sz \<le> length b"
  shows "in_bounds count sz b (convert_arg c fs sz count args b)"
proof -
  have lt: "count < sz" using cnt by simp
  consider (du) "c = 100 \<or> c = 117" | (bxp) "c = 98 \<or> c = 120 \<or> c = 112" | (s) "c = 115" | (c) "c = 99"
    | (other) "c \<noteq> 100" "c \<noteq> 117" "c \<noteq> 98" "c \<noteq> 120" "c \<noteq> 112" "c \<noteq> 115" "c \<noteq> 99" by blast
  then show ?thesis
  proof cases
    case du
    show ?thesis
    proof (cases "num_arg args")
      case (Inr x)
      obtain v args' where x: "x = (v, args')" by (cases x)
      obtain n b' where "append_num count (int sz - 1 - int count) (decimal_value (fs_number_size fs) (c = 100) v) 10 (c = 100)
          (fs_pad_size fs) (fs_pad_char fs) b = Inr (n, b') \<and> count + n < sz \<and> only 0 sz b b'"
        using append_num_bounds [OF lt len, of "c = 100"] cnt by blast
      then show ?thesis using du Inr x by (simp add: convert_arg_def in_bounds_def)
    qed (use du in \<open>auto simp: convert_arg_def in_bounds_def num_arg_def split: list.splits arg.splits\<close>)
  next
    case bxp
    show ?thesis
    proof (cases "num_arg args")
      case (Inr x)
      obtain v args' where x: "x = (v, args')" by (cases x)
      let ?v = "if fs_number_size fs = 8 \<or> c = 112 then v else ucast (ucast v :: u32)"
      define r where "r = (if c = 112 then append_str count (int sz - 1 - int count) [48, 120, 0] 0 32 b else Inr (0, b))"
      have "r = Inl Bad_argument \<or> (\<exists>n b'. r = Inr (n, b') \<and> count + n < sz \<and> only 0 sz b b')"
        using append_str_bounds [OF lt len, of "[48, 120, 0]" 0 32] lt by (auto simp: r_def)
      then show ?thesis
      proof (elim disjE exE conjE)
        assume "r = Inl Bad_argument"
        then show ?thesis using bxp Inr x unfolding r_def by (auto simp: convert_arg_def in_bounds_def)
      next
        fix n b1 assume r: "r = Inr (n, b1)" "count + n < sz" "only 0 sz b b1"
        have "sz \<le> length b1" using len only_length [OF r(3)] by simp
        then obtain m b2 where "append_num (count + n) (int sz - 1 - int (count + n)) ?v (if c = 98 then 2 else 16) False
            (fs_pad_size fs) (fs_pad_char fs) b1 = Inr (m, b2)" "count + n + m < sz" "only 0 sz b1 b2"
          using append_num_bounds [OF r(2), of b1 False ?v "if c = 98 then 2 else 16"] by blast
        then show ?thesis using bxp Inr x r only_trans [OF r(3)] unfolding r_def
          by (auto simp: convert_arg_def in_bounds_def Let_def split: if_splits)
      qed
    qed (use bxp in \<open>auto simp: convert_arg_def in_bounds_def num_arg_def split: list.splits arg.splits\<close>)
  next
    case s
    show ?thesis
    proof (cases "text_arg args")
      case (Inr x)
      then show ?thesis using append_str_bounds [OF lt len, of "fst x" "fs_pad_size fs" "fs_pad_char fs"] s
        by (cases x) (auto simp: convert_arg_def in_bounds_def)
    qed (use s in \<open>auto simp: convert_arg_def in_bounds_def text_arg_def split: list.splits arg.splits\<close>)
  next
    case c
    show ?thesis
    proof (cases "num_arg args")
      case (Inr x)
      then show ?thesis using store_bounds [OF cnt len, of "ucast (fst x)"] c cnt
        by (cases x) (auto simp: convert_arg_def in_bounds_def)
    qed (use c in \<open>auto simp: convert_arg_def in_bounds_def num_arg_def split: list.splits arg.splits\<close>)
  next
    case other
    then show ?thesis using store_bounds [OF cnt len, of c] cnt by (auto simp: convert_arg_def in_bounds_def)
  qed
qed

definition loop_bounds :: "nat \<Rightarrow> chars \<Rightarrow> (nat \<times> chars) printed \<Rightarrow> bool" where
  "loop_bounds sz b r \<longleftrightarrow> (case r of Inl e \<Rightarrow> e \<noteq> Buffer_overrun | Inr (c, b') \<Rightarrow> c < sz \<and> only 0 sz b b')"

lemma loop_bounds_trans: "only 0 sz b b' \<Longrightarrow> loop_bounds sz b' r \<Longrightarrow> loop_bounds sz b r"
  by (auto simp: loop_bounds_def split: sum.splits intro: only_trans)

lemma format_loop_bounds:
  "count < sz \<Longrightarrow> sz \<le> length b \<Longrightarrow> loop_bounds sz b (format_loop sz count fmt args b)"
  "Suc count < sz \<Longrightarrow> sz \<le> length b \<Longrightarrow> loop_bounds sz b (format_flags sz count fmt fs args b)"
proof (induction sz count fmt args b and sz count fmt fs args b rule: format_loop_format_flags.induct)
  case (2 sz count c fmt args b)
  show ?case
  proof (cases "c \<noteq> 0 \<and> int count < int sz - 1")
    case True
    then have lt: "Suc count < sz" by linarith
    show ?thesis
    proof (cases "c = 37")
      case False
      obtain b' where b': "store count c b = Inr b'" "only 0 sz b b'" using store_bounds [OF lt 2(4)] by blast
      then have "loop_bounds sz b' (format_loop sz (Suc count) fmt args b')"
        using 2(2) [OF True False b'(1)] lt 2(4) only_length [OF b'(2)] by simp
      then show ?thesis using True False b' loop_bounds_trans by simp
    qed (use True 2(1) [OF True] lt 2(4) in simp)
  next
    case False
    then show ?thesis using 2(3) by (auto simp: loop_bounds_def)
  qed
next
  case (4 sz count c fmt fs args b)
  have lt: "count < sz" using 4(7) by simp
  note cv = convert_arg_bounds [OF 4(7,8), of c fs args]
  show ?case
  proof (cases "c = 0 \<or> c = 48 \<or> 49 \<le> c \<and> c \<le> 57 \<or> c = 108")
    case True
    then show ?thesis using 4(1-5) 4(7,8) lt by (auto simp: loop_bounds_def simp del: format_loop.simps)
  next
    case False
    then have ne: "c \<noteq> 0" "c \<noteq> 48" "\<not> (49 \<le> c \<and> c \<le> 57)" "c \<noteq> 108" by auto
    show ?thesis
    proof (cases "convert_arg c fs sz count args b")
      case (Inl e)
      then show ?thesis using cv ne by (auto simp: in_bounds_def loop_bounds_def simp del: format_loop.simps)
    next
      case (Inr x)
      obtain n args' b' where x: "x = (n, args', b')" by (cases x)
      then have b': "n < sz" "only 0 sz b b'" using cv Inr by (auto simp: in_bounds_def)
      have "loop_bounds sz b' (format_loop sz n fmt args' b')"
        by (rule 4(6) [OF ne Inr x [symmetric] refl b'(1)]) (use 4(8) only_length [OF b'(2)] in simp)
      then have "loop_bounds sz b (format_loop sz n fmt args' b')" by (rule loop_bounds_trans [OF b'(2)])
      then show ?thesis using ne Inr x by (auto simp del: format_loop.simps)
    qed
  qed
qed (simp_all add: loop_bounds_def)

subsection \<open>What is printed\<close>

lemma digit_char: "d < 36 \<Longrightarrow> (if d \<le> 9 then 48 + of_nat d else 97 + of_nat d - 10 :: u8) = digit d"
  by (simp add: digit_def)

lemma num_loop_numeral:
  assumes "0 < v" "2 \<le> unat base" "unat base \<le> 36" "length pre = off" "length acc = n"
    "length (numeral_in (unat base) (unat v)) = length gap" "int n + int (length gap) \<le> sz"
  shows "num_loop off sz base v n (pre @ acc @ gap @ post) =
    Inr (n + length gap, pre @ numeral_in (unat base) (unat v) @ acc @ post)"
  using assms
proof (induction "unat v" arbitrary: v n acc gap rule: less_induct)
  case less
  let ?b = "unat base" and ?d = "unat v mod unat base" and ?ds = "numeral_in (unat base) (unat v)"
  have "?ds \<noteq> []" by (simp add: numeral_in.simps [of ?b "unat v"])
  then obtain x gap' where gap: "gap = x # gap'" using less.prems(6) by (cases gap) auto
  have d: "unat (v mod base) = ?d" "unat (v div base) = unat v div ?b" by (simp_all add: unat_mod_distrib unat_div_distrib)
  have "?d < 36" using less.prems(2,3) mod_less_divisor [of ?b "unat v"] by linarith
  note dc = digit_char [OF this]
  have pp: "prepend_to_buffer (digit ?d) off n (pre @ acc @ x # gap' @ post) = Inr (pre @ (digit ?d # acc) @ gap' @ post)"
    using prepend_acc [of pre off acc n "digit ?d" x "gap' @ post"] less.prems(4,5) by simp
  have step: "num_loop off sz base v n (pre @ acc @ gap @ post) =
      num_loop off sz base (v div base) (Suc n) (pre @ (digit ?d # acc) @ gap' @ post)"
    using less.prems(1,7) gap pp dc by (subst num_loop.simps) (auto simp: Let_def d split: if_splits)
  show ?case
  proof (cases "v div base = 0")
    case True
    then have "unat v < ?b" using d(2) less.prems(2) by (simp add: div_eq_0_iff)
    then have "?ds = [digit ?d]" by (simp add: numeral_in.simps [of ?b "unat v"])
    moreover from this have "gap' = []" using less.prems(6) gap by simp
    ultimately show ?thesis using step True gap by (simp add: num_loop.simps [of off sz base 0])
  next
    case False
    then have v: "?b \<le> unat v" "0 < v div base" using d(2) less.prems(2) by (auto simp: word_gt_0 unat_eq_zero [symmetric] div_eq_0_iff)
    have "unat v div ?b < unat v" using less.prems(1,2) by (simp add: word_less_nat_alt)
    moreover have ds: "?ds = numeral_in ?b (unat (v div base)) @ [digit ?d]"
      using v(1) less.prems(2) d(2) by (simp add: numeral_in.simps [of ?b "unat v"])
    ultimately show ?thesis
      using less.hyps [of "v div base" "digit ?d # acc" "Suc n" gap'] less.prems v d(2) gap step by simp
  qed
qed

lemma pad_loop_acc:
  assumes "length pre = off" "length acc = n" "length gap = k" "int n + int k \<le> sz"
  shows "pad_loop off sz c k n (pre @ acc @ gap @ post) = Inr (n + k, pre @ replicate k c @ acc @ post)"
  using assms
proof (induction k arbitrary: n acc gap)
  case (Suc k)
  obtain x gap' where gap: "gap = x # gap'" "length gap' = k" using Suc.prems(3) by (cases gap) auto
  have "prepend_to_buffer c off n (pre @ acc @ x # gap' @ post) = Inr (pre @ (c # acc) @ gap' @ post)"
    using prepend_acc [of pre off acc n c x "gap' @ post"] Suc.prems(1,2) by simp
  then have "pad_loop off sz c (Suc k) n (pre @ acc @ gap @ post) = pad_loop off sz c k (Suc n) (pre @ (c # acc) @ gap' @ post)"
    using Suc.prems(4) gap(1) by (simp add: pad_loop.simps(2))
  also have "\<dots> = Inr (Suc n + k, pre @ replicate k c @ (c # acc) @ post)"
    using Suc.prems gap(2) by (intro Suc.IH) auto
  finally show ?case by (simp add: replicate_app_Cons_same)
qed simp

text \<open>The characters of a number: padding, the digits, and a minus sign at the end.\<close>

definition number_text :: "nat \<Rightarrow> bool \<Rightarrow> int \<Rightarrow> u8 \<Rightarrow> u64 \<Rightarrow> chars" where
  "number_text base sg pad c v =
     (let ds = (if sg \<and> sint v < 0 then numeral_in base (unat (- v)) @ [45] else numeral_in base (unat v))
      in replicate (nat (pad - int (length ds))) c @ ds)"

lemma append_num_text:
  assumes base: "2 \<le> unat base" "unat base \<le> 36"
    and len: "length gap = length (number_text (unat base) sg pad c v)" "pad < sz" "int (length gap) \<le> sz"
    and pre: "length pre = off"
  shows "append_num off sz v base sg pad c (pre @ gap @ post) =
    Inr (length gap, pre @ number_text (unat base) sg pad c v @ post)"
proof -
  define neg where "neg \<longleftrightarrow> sg \<and> sint v < 0"
  define v' where "v' = (if neg then - v else v)"
  define ds where "ds = numeral_in (unat base) (unat v')"
  define sign :: chars where "sign = (if neg then [45] else [])"
  define k where "k = nat (pad - int (length ds + length sign))"
  have nt: "number_text (unat base) sg pad c v = replicate k c @ ds @ sign"
    by (auto simp: number_text_def neg_def v'_def ds_def sign_def k_def Let_def add.commute)
  have lf: "length gap = k + length ds + length sign" using len(1) nt by simp
  define f1 f2 f3 where "f1 = take (length sign) gap" and "f2 = take (length ds) (drop (length sign) gap)"
    and "f3 = drop (length sign + length ds) gap"
  have f: "gap = f1 @ f2 @ f3" "length f1 = length sign" "length f2 = length ds" "length f3 = k"
    using lf by (simp_all add: f1_def f2_def f3_def add.commute flip: drop_drop)
  have s1: "(if neg then map_sum id (Pair 1) (prepend_to_buffer 45 off 0 (pre @ gap @ post)) else Inr (0, pre @ gap @ post)) =
      Inr (length sign, pre @ sign @ f2 @ f3 @ post)"
    using prepend_acc [OF pre, of "[]" 0 45 "hd f1" "f2 @ f3 @ post"] f(1,2) by (cases neg; cases f1) (auto simp: sign_def)
  have s2: "(if 0 < v' then num_loop off sz base v' (length sign) (pre @ sign @ f2 @ f3 @ post)
      else if int (length sign) < sz then case prepend_to_buffer 48 off (length sign) (pre @ sign @ f2 @ f3 @ post) of
           Inl e \<Rightarrow> Inl e | Inr b \<Rightarrow> map_sum id (Pair (Suc (length sign))) (store off 48 b)
      else Inr (length sign, pre @ sign @ f2 @ f3 @ post)) = Inr (length (ds @ sign), pre @ (ds @ sign) @ f3 @ post)"
  proof (cases "0 < v'")
    case True
    have "int (length sign) + int (length f2) \<le> sz" using f(2,3) lf len(3) by linarith
    then show ?thesis
      using num_loop_numeral [OF True base pre refl f(3) [symmetric, unfolded ds_def], of sign sz "f3 @ post"] True f(3)
      by (simp add: add.commute flip: ds_def)
  next
    case False
    then have z: "v' = 0" by (simp add: word_gt_0)
    then have "\<not> neg" by (auto simp: v'_def neg_def)
    have ds: "ds = [48]" using z base by (simp add: ds_def numeral_in.simps [of "unat base" 0] digit_def)
    then obtain x where x: "f2 = [x]" using f(3) by (cases f2) auto
    then have "0 < sz" using lf len(3) ds by simp
    then show ?thesis using sign_def False \<open>\<not> neg\<close> ds x prepend_acc [OF pre, of "[]" 0 48 x "f3 @ post"] pre
      by (auto simp: store_def)
  qed
  have s3: "pad_loop off sz c k (length (ds @ sign)) (pre @ (ds @ sign) @ f3 @ post) =
      Inr (length (ds @ sign) + k, pre @ replicate k c @ (ds @ sign) @ post)"
    using lf len(3) length_append [of ds sign] by (intro pad_loop_acc [OF pre refl f(4)]) linarith
  have "append_num off sz v base sg pad c (pre @ gap @ post) =
      pad_loop off sz c k (length (ds @ sign)) (pre @ (ds @ sign) @ f3 @ post)"
    using s1 s2 len(2) unfolding append_num_def Let_def neg_def [symmetric] v'_def [symmetric]
    by (simp only: sum.case prod.case) (simp add: k_def)
  then show ?thesis using s3 lf nt by (simp add: ac_simps)
qed

subsection \<open>Properties\<close>

text \<open>
  C15. Formatted printing stays in its buffer: for every format and all arguments, \<^verbatim>\<open>vsnprintf\<close> with
  a size that is at most the size of the buffer never writes beyond that size, the result ends
  with a terminator at the position it returns, which is smaller than the size, and the bytes
  from the size on are unchanged.
\<close>

theorem vsnprintf_in_bounds:
  assumes "sz \<le> length buffer"
  shows "case vsnprintf buffer sz fmt args of
     Inl e \<Rightarrow> e \<noteq> Buffer_overrun
   | Inr (count, b) \<Rightarrow> length b = length buffer \<and> (\<forall>i. sz \<le> i \<longrightarrow> i < length buffer \<longrightarrow> b ! i = buffer ! i)
       \<and> (0 < sz \<longrightarrow> count < sz \<and> b ! count = 0)"
proof (cases "sz = 0")
  case False
  then have lb: "loop_bounds sz buffer (format_loop sz 0 fmt args buffer)"
    using format_loop_bounds(1) [of 0 sz buffer fmt args] assms by simp
  show ?thesis
  proof (cases "format_loop sz 0 fmt args buffer")
    case (Inr x)
    then show ?thesis using lb False assms
      by (cases x) (auto simp: vsnprintf_def loop_bounds_def only_def store_def)
  qed (use lb False in \<open>auto simp: vsnprintf_def loop_bounds_def\<close>)
qed (simp add: vsnprintf_def)

theorem vsnprintf_in_bounds_witness:
  "case vsnprintf (replicate 8 1) 4 [37, 117, 33, 0] [Num 12345] of
     Inl e \<Rightarrow> e \<noteq> Buffer_overrun
   | Inr (count, b) \<Rightarrow> length b = 8 \<and> b ! 4 = 1 \<and> b ! 7 = 1 \<and> count < 4 \<and> b ! count = 0"
  using vsnprintf_in_bounds [of 4 "replicate 8 1" "[37, 117, 33, 0]" "[Num 12345]"]
  by (auto split: sum.splits)

text \<open>
  C32. A number is printed as its numeral in the given base, padded on the left to the field
  width. The sign of a negative number is written first and then pushed behind the digits: it
  comes out after them.
\<close>

theorem append_num_prints:
  assumes "2 \<le> unat base" "unat base \<le> 36" "pad < sz" "int (length (number_text (unat base) sg pad c v)) \<le> sz"
    and "off + length (number_text (unat base) sg pad c v) \<le> length b"
  shows "append_num off sz v base sg pad c b =
    Inr (length (number_text (unat base) sg pad c v),
         take off b @ number_text (unat base) sg pad c v @ drop (off + length (number_text (unat base) sg pad c v)) b)"
proof -
  let ?n = "length (number_text (unat base) sg pad c v)"
  have n: "length (take ?n (drop off b)) = ?n" using assms(5) by simp
  have "append_num off sz v base sg pad c (take off b @ take ?n (drop off b) @ drop (off + ?n) b) =
      Inr (length (take ?n (drop off b)), take off b @ number_text (unat base) sg pad c v @ drop (off + ?n) b)"
    using assms n by (intro append_num_text) simp_all
  moreover have "take off b @ take ?n (drop off b) @ drop (off + ?n) b = b"
    by (metis add.commute append_take_drop_id drop_drop)
  ultimately show ?thesis using assms(5) by simp
qed

theorem append_num_prints_witness:
  "append_num 1 6 (- 42) 10 True 0 32 [120, 0, 0, 0, 0, 0, 0] = Inr (3, [120, 52, 50, 45, 0, 0, 0])"
proof -
  have n: "number_text 10 True 0 32 (- 42) = [52, 50, 45]"
    by (simp add: number_text_def numeral_in.simps [of 10 42] numeral_in.simps [of 10 4] digit_def)
  show ?thesis
    using append_num_prints [of 10 0 6 True 32 "- 42" 1 "[120, 0, 0, 0, 0, 0, 0]"] n by simp
qed

end
