(* ===== verification/Cmdline.thy ===== *)
theory Cmdline
  imports Util_String
begin

text \<open>
  The kernel command line, from \<^verbatim>\<open>util/cmdline.cpp\<close>: words are cut at spaces into a buffer of 128
  bytes, a word is cut at \<^verbatim>\<open>=\<close> into a key and a value of at most 63 characters, and the handler
  registered for the key is called. A handler is a function from the value and the state of the
  kernel to the new state; the table of the linker section is a list.
\<close>

type_synonym 's cmd_registration = "char_ptr \<times> (chars \<Rightarrow> 's \<Rightarrow> 's)"

definition put_fault :: "nat \<Rightarrow> u8 \<Rightarrow> chars \<Rightarrow> chars outcome" where
  "put_fault i c b = (case put i c b of None \<Rightarrow> Inl Out_of_bounds | Some b \<Rightarrow> Inr b)"

fun find_registration :: "'s cmd_registration list \<Rightarrow> chars \<Rightarrow> 's cmd_registration option outcome" where
  "find_registration [] key = Inr None"
| "find_registration ((match, fn) # rgn) key =
     (case match of
        None \<Rightarrow> find_registration rgn key
      | Some m \<Rightarrow>
          (case strncmp (Some m) (Some key) 256 of
             None \<Rightarrow> Inl Out_of_bounds
           | Some r \<Rightarrow> if r = 0 then Inr (Some (match, fn)) else find_registration rgn key))"

text \<open>The two copying loops of \<^verbatim>\<open>process\<close>; the second one skips every \<^verbatim>\<open>=\<close>.\<close>

fun key_loop :: "chars \<Rightarrow> nat \<Rightarrow> chars \<Rightarrow> (nat \<times> chars \<times> chars) outcome" where
  "key_loop [] i key = Inl Out_of_bounds"
| "key_loop (c # setting) i key =
     (if c \<noteq> 0 \<and> c \<noteq> 61 \<and> i < 63 then
        case put_fault i c key of Inl e \<Rightarrow> Inl e | Inr key \<Rightarrow> key_loop setting (Suc i) key
      else Inr (i, key, c # setting))"

fun value_loop :: "chars \<Rightarrow> nat \<Rightarrow> chars \<Rightarrow> (nat \<times> chars) outcome" where
  "value_loop [] i val = Inl Out_of_bounds"
| "value_loop (c # setting) i val =
     (if c \<noteq> 0 \<and> i < 63 then
        if c = 61 then value_loop setting i val
        else case put_fault i c val of Inl e \<Rightarrow> Inl e | Inr val \<Rightarrow> value_loop setting (Suc i) val
      else Inr (i, val))"

definition process :: "'s cmd_registration list \<Rightarrow> chars \<Rightarrow> 's \<Rightarrow> 's outcome" where
  "process regs setting s =
     (case key_loop setting 0 (replicate 64 0) of
        Inl e \<Rightarrow> Inl e
      | Inr (i, key, setting) \<Rightarrow>
          (case put_fault i 0 key of
             Inl e \<Rightarrow> Inl e
           | Inr key \<Rightarrow>
               (case value_loop setting 0 (replicate 64 0) of
                  Inl e \<Rightarrow> Inl e
                | Inr (j, val) \<Rightarrow>
                    (case put_fault j 0 val of
                       Inl e \<Rightarrow> Inl e
                     | Inr val \<Rightarrow>
                         (case find_registration regs key of
                            Inl e \<Rightarrow> Inl e
                          | Inr None \<Rightarrow> Inr s
                          | Inr (Some (match, fn)) \<Rightarrow> Inr (fn (takeWhile (\<lambda>c. c \<noteq> 0) val) s))))))"

fun skip_spaces :: "chars \<Rightarrow> chars outcome" where
  "skip_spaces [] = Inl Out_of_bounds"
| "skip_spaces (c # cs) = (if c = 32 then skip_spaces cs else Inr (c # cs))"

fun word_loop :: "chars \<Rightarrow> nat \<Rightarrow> chars \<Rightarrow> (nat \<times> chars \<times> chars) outcome" where
  "word_loop [] i setting = Inl Out_of_bounds"
| "word_loop (c # cs) i setting =
     (if c \<noteq> 0 \<and> c \<noteq> 32 then
        case put_fault i c setting of Inl e \<Rightarrow> Inl e | Inr setting \<Rightarrow> word_loop cs (Suc i) setting
      else Inr (i, setting, c # cs))"

lemma skip_spaces_length: "skip_spaces cs = Inr ds \<Longrightarrow> length ds \<le> length cs"
  by (induction cs) (auto split: if_splits)

lemma word_loop_length: "word_loop cs i b = Inr (j, b', ds) \<Longrightarrow> length ds + j = length cs + i"
  by (induction cs arbitrary: i b) (auto split: if_splits sum.splits)

function parse_loop :: "'s cmd_registration list \<Rightarrow> chars \<Rightarrow> chars \<Rightarrow> 's \<Rightarrow> 's outcome" where
  "parse_loop regs cmdline setting s =
     (case cmdline of
        [] \<Rightarrow> Inl Out_of_bounds
      | c # _ \<Rightarrow>
          if c = 0 then Inr s
          else (case skip_spaces cmdline of
                  Inl e \<Rightarrow> Inl e
                | Inr cs \<Rightarrow>
                    (case word_loop cs 0 setting of
                       Inl e \<Rightarrow> Inl e
                     | Inr (i, setting, cs) \<Rightarrow>
                         (case put_fault i 0 setting of
                            Inl e \<Rightarrow> Inl e
                          | Inr setting \<Rightarrow>
                              if i = 0 then Inr s
                              else (case process regs setting s of
                                      Inl e \<Rightarrow> Inl e
                                    | Inr s \<Rightarrow> parse_loop regs cs setting s)))))"
  by pat_completeness auto
termination
  by (relation "measure (\<lambda>(regs, cmdline, setting, s). length cmdline)")
    (auto dest!: skip_spaces_length word_loop_length split: if_splits)

definition parse :: "'s cmd_registration list \<Rightarrow> chars \<Rightarrow> 's \<Rightarrow> (bool \<times> 's) outcome" where
  "parse regs cmdline s = map_sum id (Pair True) (parse_loop regs cmdline (replicate 128 0) s)"

subsection \<open>Reference\<close>

text \<open>The words of a command line, the key and the value of a word, and the effect of a word.\<close>

function words :: "chars \<Rightarrow> chars list" where
  "words xs = (let ys = dropWhile (\<lambda>c. c = 32) xs
     in if ys = [] then [] else takeWhile (\<lambda>c. c \<noteq> 32) ys # words (dropWhile (\<lambda>c. c \<noteq> 32) ys))"
  by pat_completeness auto
termination
proof (relation "measure length", simp)
  fix xs ys :: chars
  assume ys: "ys = dropWhile (\<lambda>c. c = 32) xs" "ys \<noteq> []"
  then have "hd ys \<noteq> 32" using hd_dropWhile by blast
  then have "dropWhile (\<lambda>c. c \<noteq> 32) ys = dropWhile (\<lambda>c. c \<noteq> 32) (tl ys)" using ys(2) by (cases ys) auto
  moreover have "length (dropWhile (\<lambda>c. c \<noteq> 32) (tl ys)) \<le> length (tl ys)" by (rule length_dropWhile_le)
  moreover have "length ys \<le> length xs" using ys(1) length_dropWhile_le by simp
  ultimately show "(dropWhile (\<lambda>c. c \<noteq> 32) ys, xs) \<in> measure length"
    using ys(2) by (cases ys) auto
qed

declare words.simps [simp del] parse_loop.simps [simp del]

definition setting_key :: "chars \<Rightarrow> chars" where
  "setting_key w = take 63 (takeWhile (\<lambda>c. c \<noteq> 61) w)"

definition setting_value :: "chars \<Rightarrow> chars" where
  "setting_value w = take 63 (filter (\<lambda>c. c \<noteq> 61) (drop (length (setting_key w)) w))"

definition apply_setting :: "'s cmd_registration list \<Rightarrow> chars \<Rightarrow> 's \<Rightarrow> 's" where
  "apply_setting regs w s =
     (case find (\<lambda>(m, f). m = Some (setting_key w @ [0])) regs of
        None \<Rightarrow> s
      | Some (m, f) \<Rightarrow> f (setting_value w) s)"

text \<open>The strings of the table are terminated.\<close>

definition table_ok :: "'s cmd_registration list \<Rightarrow> bool" where
  "table_ok regs \<longleftrightarrow> (\<forall>(m, f) \<in> set regs. m = None \<or> (\<exists>k. m = Some (k @ [0]) \<and> 0 \<notin> set k))"

subsection \<open>The loops against the reference\<close>

lemma put_fault_at: "length pre = i \<Longrightarrow> put_fault i c (pre @ x # post) = Inr (pre @ c # post)"
  by (simp add: put_fault_def put_at)

lemma skip_spaces_cstr: "cstr b xs \<Longrightarrow> \<exists>b'. skip_spaces b = Inr b' \<and> cstr b' (dropWhile (\<lambda>c. c = 32) xs)"
proof (induction b arbitrary: xs)
  case (Cons c b)
  then show ?case by (cases xs) auto
qed simp

lemma word_loop_cstr:
  assumes "cstr b xs" "length pre = i" "gap = length d" 
  shows "(length (takeWhile (\<lambda>c. c \<noteq> 32) xs) \<le> gap \<longrightarrow>
      (\<exists>b'. word_loop b i (pre @ d) = Inr (i + length (takeWhile (\<lambda>c. c \<noteq> 32) xs),
          pre @ takeWhile (\<lambda>c. c \<noteq> 32) xs @ drop (length (takeWhile (\<lambda>c. c \<noteq> 32) xs)) d, b')
        \<and> cstr b' (dropWhile (\<lambda>c. c \<noteq> 32) xs)))
    \<and> (gap < length (takeWhile (\<lambda>c. c \<noteq> 32) xs) \<longrightarrow> word_loop b i (pre @ d) = Inl Out_of_bounds)"
  using assms
proof (induction b arbitrary: xs pre i d gap)
  case (Cons c b)
  show ?case
  proof (cases "c \<noteq> 0 \<and> c \<noteq> 32")
    case True
    then obtain ys where xs: "xs = c # ys" "cstr b ys" using Cons.prems(1) by (cases xs) auto
    show ?thesis
    proof (cases d)
      case Nil
      then show ?thesis using True Cons.prems(2,3) xs by (simp add: put_fault_def put_def)
    next
      case (Cons x d')
      have "word_loop (c # b) i (pre @ d) = word_loop b (Suc i) ((pre @ [c]) @ d')"
        using True \<open>length pre = i\<close> Cons by (simp add: put_fault_at)
      then show ?thesis
        using Cons.IH [OF xs(2), of "pre @ [c]" "Suc i" "length d'" d'] \<open>length pre = i\<close> \<open>gap = length d\<close> Cons True xs(1) by auto
    qed
  next
    case False
    then show ?thesis using Cons.prems by (cases xs) auto
  qed
qed simp

lemma key_loop_cstr:
  assumes "cstr b xs" "length pre = i" "i + length d = 64" "k = take (63 - i) (takeWhile (\<lambda>c. c \<noteq> 61) xs)"
  shows "\<exists>b'. key_loop b i (pre @ d) = Inr (i + length k, pre @ k @ drop (length k) d, b') \<and> cstr b' (drop (length k) xs)"
  using assms
proof (induction b arbitrary: xs pre i d k)
  case (Cons c b)
  show ?case
  proof (cases "c \<noteq> 0 \<and> c \<noteq> 61 \<and> i < 63")
    case True
    then obtain ys where xs: "xs = c # ys" "cstr b ys" using Cons.prems(1) by (cases xs) auto
    obtain x d' where d: "d = x # d'" using True Cons.prems(3) by (cases d) auto
    have st: "key_loop (c # b) i (pre @ d) = key_loop b (Suc i) ((pre @ [c]) @ d')"
      using True Cons.prems(2) d by (simp add: put_fault_at)
    have "63 - i = Suc (63 - Suc i)" using True by linarith
    then have k: "k = c # take (63 - Suc i) (takeWhile (\<lambda>c. c \<noteq> 61) ys)" using Cons.prems(4) xs(1) True by simp
    show ?thesis using Cons.IH [OF xs(2), of "pre @ [c]" "Suc i" d' "tl k"] Cons.prems(2,3) d k st xs(1) by auto
  next
    case False
    then have "k = []" using Cons.prems(1,4) by (cases xs) auto
    then show ?thesis using False Cons.prems(1) by auto
  qed
qed simp

lemma value_loop_cstr:
  assumes "cstr b xs" "length pre = i" "i + length d = 64" "k = take (63 - i) (filter (\<lambda>c. c \<noteq> 61) xs)"
  shows "value_loop b i (pre @ d) = Inr (i + length k, pre @ k @ drop (length k) d)"
  using assms
proof (induction b arbitrary: xs pre i d k)
  case (Cons c b)
  show ?case
  proof (cases "c \<noteq> 0 \<and> i < 63")
    case True
    then obtain ys where xs: "xs = c # ys" "cstr b ys" using Cons.prems(1) by (cases xs) auto
    show ?thesis
    proof (cases "c = 61")
      case False
      obtain x d' where d: "d = x # d'" using True Cons.prems(3) by (cases d) auto
      have st: "value_loop (c # b) i (pre @ d) = value_loop b (Suc i) ((pre @ [c]) @ d')"
        using True False Cons.prems(2) d by (simp add: put_fault_at)
      have "63 - i = Suc (63 - Suc i)" using True by linarith
      then have k: "k = c # take (63 - Suc i) (filter (\<lambda>c. c \<noteq> 61) ys)" using Cons.prems(4) xs(1) False by simp
      show ?thesis using Cons.IH [OF xs(2), of "pre @ [c]" "Suc i" d' "tl k"] Cons.prems(2,3) d k st by auto
    qed (use True Cons xs in auto)
  next
    case False
    then have "k = []" using Cons.prems(1,4) by (cases xs) auto
    then show ?thesis using False by auto
  qed
qed simp

lemma strncmp_key:
  assumes "cstr m xs" "cstr b ys" "length ys \<le> n"
  shows "strncmp (Some m) (Some b) n = Some (if xs = ys then 0 else - 1)"
proof (cases "length xs = length ys")
  case True
  then show ?thesis using strncmp_loop_cstr [OF assms(1,2) True, of n] assms
    by (simp add: strncmp_def strlen_def strlen_from_cstr)
qed (use assms in \<open>auto simp: strncmp_def strlen_def strlen_from_cstr\<close>)

lemma find_registration_find:
  assumes "table_ok regs" "cstr b k" "length k \<le> 256"
  shows "find_registration regs b = Inr (find (\<lambda>(m, f). m = Some (k @ [0])) regs)"
  using assms(1)
proof (induction regs)
  case (Cons r regs)
  obtain m f where r: "r = (m, f)" by (cases r)
  have ok: "table_ok regs" using Cons.prems by (simp add: table_ok_def)
  show ?case
  proof (cases m)
    case None
    then show ?thesis using Cons.IH [OF ok] r by simp
  next
    case (Some c)
    then obtain x where x: "c = x @ [0]" "0 \<notin> set x" using Cons.prems r by (auto simp: table_ok_def)
    then have "strncmp (Some c) (Some b) 256 = Some (if x = k then 0 else - 1)"
      using assms(2,3) by (intro strncmp_key) (auto simp: cstr_def)
    then show ?thesis using Cons.IH [OF ok] r Some x by simp
  qed
qed simp

lemma terminate_at: "length k < length d \<Longrightarrow> put_fault (length k) 0 (k @ drop (length k) d) = Inr (k @ 0 # drop (Suc (length k)) d)"
  using put_fault_at [of k "length k" 0 "d ! length k" "drop (Suc (length k)) d"] Cons_nth_drop_Suc [of "length k" d] by simp

lemma takeWhile_cstr: "0 \<notin> set k \<Longrightarrow> takeWhile (\<lambda>c. c \<noteq> 0) (k @ 0 # d) = (k :: chars)"
  by (subst takeWhile_append2) auto

lemma process_cstr:
  assumes "table_ok regs" "cstr setting w"
  shows "process regs setting s = Inr (apply_setting regs w s)"
proof -
  have w: "0 \<notin> set w" using assms(2) by (simp add: cstr_def)
  let ?k = "setting_key w" and ?v = "setting_value w" and ?d = "replicate 64 (0 :: u8)"
  have len: "length ?k < 64" "length ?v < 64" by (simp_all add: setting_key_def setting_value_def)
  obtain b where b: "key_loop setting 0 ?d = Inr (length ?k, ?k @ drop (length ?k) ?d, b)" "cstr b (drop (length ?k) w)"
    using key_loop_cstr [OF assms(2), of "[]" 0 ?d ?k] by (auto simp: setting_key_def)
  have v: "value_loop b 0 ?d = Inr (length ?v, ?v @ drop (length ?v) ?d)"
    using value_loop_cstr [OF b(2), of "[]" 0 ?d ?v] by (simp add: setting_value_def)
  have z: "0 \<notin> set ?k" "0 \<notin> set ?v" using w
    by (auto simp: setting_key_def setting_value_def dest!: in_set_takeD in_set_dropD set_takeWhileD)
  have "cstr (?k @ 0 # drop (Suc (length ?k)) ?d) ?k" using z(1) by (auto simp: cstr_def)
  from find_registration_find [OF assms(1) this] len(1)
  have "find_registration regs (?k @ 0 # drop (Suc (length ?k)) ?d) = Inr (find (\<lambda>(m, f). m = Some (?k @ [0])) regs)" by simp
  then show ?thesis
    using b(1) v terminate_at [of ?k ?d] terminate_at [of ?v ?d] len takeWhile_cstr [OF z(2)]
    by (simp add: process_def apply_setting_def split: option.splits prod.splits)
qed

lemma parse_loop_end: "parse_loop regs (0 # b) setting s = Inr s"
  by (simp add: parse_loop.simps)

lemma parse_loop_cstr:
  assumes "table_ok regs" "cstr b xs" "length setting = 128"
  shows "parse_loop regs b setting s =
    (if \<forall>w \<in> set (words xs). length w < 128 then Inr (fold (apply_setting regs) (words xs) s) else Inl Out_of_bounds)"
  using assms(2,3)
proof (induction xs arbitrary: b setting s rule: words.induct)
  case (1 xs)
  let ?ys = "dropWhile (\<lambda>c. c = 32) xs"
  let ?w = "takeWhile (\<lambda>c. c \<noteq> 32) ?ys" and ?r = "dropWhile (\<lambda>c. c \<noteq> 32) ?ys"
  note wl = word_loop_cstr [where pre = "[]" and i = 0 and d = setting and gap = 128]
  have ws: "words xs = (if ?ys = [] then [] else ?w # words ?r)" by (subst words.simps) (simp add: Let_def)
  obtain b1 where b1: "skip_spaces b = Inr b1" "cstr b1 ?ys" using skip_spaces_cstr [OF 1(2)] by blast
  obtain c b' where b: "b = c # b'" using 1(2) by (cases b) auto
  show ?case
  proof (cases "xs = []")
    case True
    then show ?thesis using 1(2) b ws by (simp add: parse_loop_end)
  next
    case False
    then have c: "c \<noteq> 0" using 1(2) b by (cases xs) auto
    show ?thesis
    proof (cases "length ?w < 128")
      case True
      obtain b2 where b2: "word_loop b1 0 setting = Inr (length ?w, ?w @ drop (length ?w) setting, b2)" "cstr b2 ?r"
        using wl [OF b1(2)] True 1(3) by auto
      let ?st = "?w @ 0 # drop (Suc (length ?w)) setting"
      have pf: "put_fault (length ?w) 0 (?w @ drop (length ?w) setting) = Inr ?st" using terminate_at [of ?w setting] True 1(3) by simp
      have "0 \<notin> set ?w" using b1(2) by (auto simp: cstr_def dest: set_takeWhileD)
      then have "process regs ?st s = Inr (apply_setting regs ?w s)" by (intro process_cstr [OF assms(1)]) (auto simp: cstr_def)
      then have step: "parse_loop regs b setting s =
          (if length ?w = 0 then Inr s else parse_loop regs b2 ?st (apply_setting regs ?w s))"
        using b c b1(1) b2(1) pf by (simp add: parse_loop.simps [of regs "c # b'"])
      show ?thesis
      proof (cases "?ys = []")
        case False
        then have "hd ?ys \<noteq> 32" using hd_dropWhile by blast
        then have "?w \<noteq> []" using False by (cases ?ys) auto
        moreover have "length ?st = 128" using True 1(3) by simp
        moreover have "words xs = ?w # words ?r" using ws False by (simp only: if_False)
        ultimately show ?thesis using 1(1) [OF refl False b2(2)] step True by simp
      next
        case nil: True
        then have "words xs = []" "length ?w = 0" using ws by (simp_all only: takeWhile.simps list.size simp_thms if_True)
        then show ?thesis using step by simp
      qed
    next
      case False
      have "?ys \<noteq> []"
      proof
        assume "?ys = []"
        then have "length ?w = 0" by (simp only: takeWhile.simps list.size)
        then show False using False by simp
      qed
      moreover have "parse_loop regs b setting s = Inl Out_of_bounds"
      proof (cases "length ?w = 128")
        case True
        obtain b2 where "word_loop b1 0 setting = Inr (length ?w, ?w @ drop (length ?w) setting, b2)"
          using wl [OF b1(2)] True 1(3) by auto
        moreover have "put_fault (length ?w) 0 (?w @ drop (length ?w) setting) = Inl Out_of_bounds"
          using True 1(3) by (simp add: put_fault_def put_def)
        ultimately show ?thesis using b c b1(1) by (simp add: parse_loop.simps [of regs "c # b'"])
      next
        case ne: False
        then have "word_loop b1 0 setting = Inl Out_of_bounds" using wl [OF b1(2)] False 1(3) by auto
        then show ?thesis using b c b1(1) by (simp add: parse_loop.simps [of regs "c # b'"])
      qed
      moreover have "words xs = ?w # words ?r" using ws calculation(1) by (simp only: if_False)
      ultimately show ?thesis using False by simp
    qed
  qed
qed

subsection \<open>Properties\<close>

text \<open>
  C29. Parsing the command line applies every word of it in order: the handler registered for the
  key of the word is called with its value (both cut at 63 characters, \<^verbatim>\<open>=\<close> removed from the
  value), and words with other keys are ignored. A word of 128 or more characters overruns the
  buffer on the stack instead. In every case parsing ends.
\<close>

theorem parse_applies_words:
  assumes "table_ok regs" "cstr cmdline xs"
  shows "parse regs cmdline s =
    (if \<forall>w \<in> set (words xs). length w < 128 then Inr (True, fold (apply_setting regs) (words xs) s)
     else Inl Out_of_bounds)"
  using parse_loop_cstr [OF assms, of "replicate 128 0" s] by (simp add: parse_def)

theorem parse_applies_words_witness:
  "parse [(Some [97, 0], \<lambda>v s. s @ [v])] [32, 97, 61, 98, 32, 99, 0] [] = Inr (True, [[98]])"
proof -
  have t: "table_ok [(Some [97, 0], \<lambda>v s. s @ [v :: chars])]" by (auto simp: table_ok_def intro!: exI [of _ "[97]"])
  have w: "words [32, 97, 61, 98, 32, 99] = [[97, 61, 98], [99]]"
    by (simp add: words.simps [of "[32, 97, 61, 98, 32, 99]"] words.simps [of "[32, 99]"] words.simps [of "[]"])
  show ?thesis
    using parse_applies_words [OF t, of "[32, 97, 61, 98, 32, 99, 0]" "[32, 97, 61, 98, 32, 99]" "[]"]
    by (simp add: w apply_setting_def setting_key_def setting_value_def)
qed

end
