(* ===== verification/Spec2Isabelle.thy ===== *)
theory Spec2Isabelle
  imports Syscall_Run Printf Cmdline
begin

text \<open>
  A verification development of InfOS, a small teaching kernel for x86-64.

  The program is a monolithic C++ kernel; its parts, in the order in which they rest on each
  other, and the theories that model them:

  \<^item> \<^verbatim>\<open>Prelude\<close>: machine integers, the option monad with assertions, shared lemmas;
  \<^item> \<^verbatim>\<open>Machine_Addr\<close>: address arithmetic of \<^verbatim>\<open>include/infos/define.h\<close>.
\<close>

text \<open>
  C22. The kernel window onto physical memory is a bijection: \<^verbatim>\<open>pa_to_kva\<close> accepts a physical
  address and yields a virtual address exactly when \<^verbatim>\<open>kva_to_pa\<close> accepts that virtual address
  and yields the physical address back.
\<close>

theorem kva_window_bijective: "pa_to_kva pa = Some va \<longleftrightarrow> kva_to_pa va = Some pa"
  by (rule kva_roundtrip)

end
